(* ===== verification/Prelude.thy ===== *)
theory Prelude
  imports Main "HOL-Library.Word" "HOL-Library.Monad_Syntax"
begin

unbundle bit_operations_syntax

text \<open>
  Shared vocabulary of the development: fixed-width integers, byte buffers with checked
  loads, C strings as the C library reads them, decimal printing, and the facts on them
  that the component theories use through the collections declared here.

  A C object is a byte list; an access outside it is undefined behaviour and is the value
  \<open>None\<close> of the checked accessors, so that memory safety of a routine is a theorem (it never
  yields \<open>None\<close>) and never an assumption built into its model.
\<close>

named_theorems buf_simps \<open>checked loads and stores of byte buffers\<close>
named_theorems cstr_simps \<open>C strings stored in byte buffers\<close>

type_synonym byte = "8 word"
type_synonym u16 = "16 word"
type_synonym u32 = "32 word"
type_synonym u64 = "64 word"

section \<open>Byte buffers\<close>

text \<open>A checked load of one byte: \<open>None\<close> is an access outside the object.\<close>

definition ld8 :: "byte list \<Rightarrow> nat \<Rightarrow> byte option" where
  "ld8 b i = (if i < length b then Some (b ! i) else None)"

text \<open>A load of a two-byte or four-byte field on a little-endian machine.\<close>

definition le16 :: "byte \<Rightarrow> byte \<Rightarrow> u16" where
  "le16 b0 b1 = push_bit 8 (ucast b1) OR ucast b0"

definition le32 :: "byte \<Rightarrow> byte \<Rightarrow> byte \<Rightarrow> byte \<Rightarrow> u32" where
  "le32 b0 b1 b2 b3 =
     push_bit 24 (ucast b3) OR push_bit 16 (ucast b2) OR push_bit 8 (ucast b1) OR ucast b0"

definition ld16 :: "byte list \<Rightarrow> nat \<Rightarrow> u16 option" where
  "ld16 b i = do { b0 \<leftarrow> ld8 b i; b1 \<leftarrow> ld8 b (i + 1); Some (le16 b0 b1) }"

definition ld32 :: "byte list \<Rightarrow> nat \<Rightarrow> u32 option" where
  "ld32 b i = do {
     b0 \<leftarrow> ld8 b i; b1 \<leftarrow> ld8 b (i + 1); b2 \<leftarrow> ld8 b (i + 2); b3 \<leftarrow> ld8 b (i + 3);
     Some (le32 b0 b1 b2 b3) }"

text \<open>The bytes of a 32-bit integer in memory.\<close>

definition bytes32 :: "u32 \<Rightarrow> byte list" where
  "bytes32 w = [ucast w, ucast (drop_bit 8 w), ucast (drop_bit 16 w), ucast (drop_bit 24 w)]"

text \<open>
  \<open>htons\<close>, \<open>ntohs\<close> and their \<open>bpf_\<close> forms on a little-endian machine swap the two bytes.
\<close>

definition bswap16 :: "u16 \<Rightarrow> u16" where
  "bswap16 x = push_bit 8 x OR drop_bit 8 x"

text \<open>The value two consecutive bytes have in network order.\<close>

definition be16 :: "byte \<Rightarrow> byte \<Rightarrow> nat" where
  "be16 b0 b1 = 256 * unat b0 + unat b1"

text \<open>A store of several bytes at an offset of a fixed-size object.\<close>

definition st_bytes :: "byte list \<Rightarrow> nat \<Rightarrow> byte list \<Rightarrow> byte list option" where
  "st_bytes b i xs =
     (if i + length xs \<le> length b then Some (take i b @ xs @ drop (i + length xs) b) else None)"

text \<open>Reading and writing part of a file, as \<open>pread\<close> and \<open>pwrite\<close> do: a write past the
  end leaves a hole of zeros.\<close>

definition file_part :: "byte list \<Rightarrow> nat \<Rightarrow> nat \<Rightarrow> byte list" where
  "file_part f off n = take n (drop off f)"

definition pwrite :: "byte list \<Rightarrow> nat \<Rightarrow> byte list \<Rightarrow> byte list" where
  "pwrite f off xs =
     (if xs = [] then f
      else take off f @ replicate (off - length f) 0 @ xs @ drop (off + length xs) f)"

lemma ld8_Some [buf_simps]: "i < length b \<Longrightarrow> ld8 b i = Some (b ! i)"
  by (simp add: ld8_def)

lemma ld8_None [buf_simps]: "length b \<le> i \<Longrightarrow> ld8 b i = None"
  by (simp add: ld8_def)

lemma ld16_Some [buf_simps]:
  "i + 1 < length b \<Longrightarrow> ld16 b i = Some (le16 (b ! i) (b ! (i + 1)))"
  by (simp add: ld16_def ld8_def)

lemma ld32_Some [buf_simps]:
  "i + 3 < length b \<Longrightarrow>
     ld32 b i = Some (le32 (b ! i) (b ! (i + 1)) (b ! (i + 2)) (b ! (i + 3)))"
  by (simp add: ld32_def ld8_def)

lemma unat_byte_less: "unat (b :: byte) < 256"
  using unsigned_less [of b, where 'a = nat] by simp

lemma bswap16_le16: "bswap16 (le16 b0 b1) = le16 b1 b0"
  by (rule bit_word_eqI)
     (auto simp: bswap16_def le16_def bit_or_iff bit_push_bit_iff bit_drop_bit_eq
        bit_ucast_iff dest: bit_imp_le_length)

lemma unat_le16: "unat (le16 b0 b1) = be16 b1 b0"
proof -
  have disj: "push_bit 8 (ucast b1 :: u16) AND ucast b0 = 0"
    by (rule bit_word_eqI)
       (auto simp: bit_and_iff bit_push_bit_iff bit_ucast_iff dest: bit_imp_le_length)
  have hi: "unat (push_bit 8 (ucast b1 :: u16)) = 256 * unat b1"
  proof -
    have "unat b1 < 256" by (rule unat_byte_less)
    then show ?thesis
      by (simp add: push_bit_eq_mult unat_word_ariths unsigned_ucast_eq take_bit_eq_mod)
  qed
  have lo: "unat (ucast b0 :: u16) = unat b0"
    using unat_byte_less [of b0] by (simp add: unsigned_ucast_eq take_bit_eq_mod)
  have "unat (push_bit 8 (ucast b1 :: u16) OR ucast b0)
      = unat (push_bit 8 (ucast b1 :: u16) + ucast b0)"
    using disj by (simp add: disjunctive_add_eq_or)
  also have "\<dots> = (256 * unat b1 + unat b0) mod 65536"
    by (simp add: unat_word_ariths hi lo)
  also have "\<dots> = 256 * unat b1 + unat b0"
    using unat_byte_less [of b0] unat_byte_less [of b1] by simp
  finally show ?thesis by (simp add: le16_def be16_def)
qed

text \<open>Loading a network-order field and swapping it gives its network-order value.\<close>

lemma unat_bswap16_le16 [buf_simps]: "unat (bswap16 (le16 b0 b1)) = be16 b0 b1"
  by (simp add: bswap16_le16 unat_le16)

lemma bswap16_le16_eq_iff:
  "bswap16 (le16 b0 b1) = w \<longleftrightarrow> be16 b0 b1 = unat w"
  by (metis unat_bswap16_le16 unsigned_word_eqI)

lemma bswap16_bswap16 [simp]: "bswap16 (bswap16 x) = x"
  by (rule bit_word_eqI)
     (auto simp: bswap16_def bit_or_iff bit_push_bit_iff bit_drop_bit_eq dest: bit_imp_le_length)

lemma length_bytes32 [simp]: "length (bytes32 w) = 4"
  by (simp add: bytes32_def)

lemma ld32_bytes32 [buf_simps]: "ld32 (bytes32 w) 0 = Some w"
proof -
  have "le32 (ucast w) (ucast (drop_bit 8 w)) (ucast (drop_bit 16 w)) (ucast (drop_bit 24 w)) = w"
    unfolding le32_def
    by (rule bit_word_eqI, rename_tac n)
       (case_tac "n < 8"; case_tac "n < 16"; case_tac "n < 24"; auto simp: bit_simps not_less)
  then show ?thesis by (simp add: ld32_def ld8_def bytes32_def)
qed

lemma length_file_part [simp]: "length (file_part f off n) = min n (length f - off)"
  by (simp add: file_part_def)

lemma nth_file_part: "i < length (file_part f off n) \<Longrightarrow> file_part f off n ! i = f ! (off + i)"
  by (cases "off \<le> length f") (auto simp: file_part_def)

lemma length_pwrite: "length (pwrite f off xs) =
  (if xs = [] then length f else max (length f) (off + length xs))"
  by (auto simp: pwrite_def)

lemma nth_pwrite:
  assumes "i < length (pwrite f off xs)"
  shows "pwrite f off xs ! i =
    (if off \<le> i \<and> i < off + length xs then xs ! (i - off)
     else if i < length f then f ! i else 0)"
  using assms
  by (auto simp: pwrite_def nth_append length_pwrite min_def split: if_splits)

lemma pwrite_append: "pwrite f (length f) xs = f @ xs"
  by (simp add: pwrite_def)

section \<open>C strings\<close>

text \<open>
  The C string an object holds: its bytes up to the first NUL. Without a NUL inside the
  object the library functions read past its end, which is \<open>None\<close>.
\<close>

definition bytes_of :: "string \<Rightarrow> byte list" where
  "bytes_of s = map of_char s"

definition cstr :: "byte list \<Rightarrow> byte list option" where
  "cstr b = (if 0 \<in> set b then Some (takeWhile (\<lambda>x. x \<noteq> 0) b) else None)"

definition strlen :: "byte list \<Rightarrow> nat option" where
  "strlen b = map_option length (cstr b)"

text \<open>\<open>strncmp (s, t, n) == 0\<close> on two C strings.\<close>

definition strncmp_eq :: "byte list \<Rightarrow> byte list \<Rightarrow> nat \<Rightarrow> bool" where
  "strncmp_eq s t n \<longleftrightarrow> take n s = take n t"

text \<open>\<open>strstr (hay, needle) != NULL\<close> on two C strings.\<close>

fun strstr :: "byte list \<Rightarrow> byte list \<Rightarrow> bool" where
  "strstr [] needle = (needle = [])"
| "strstr (h # hs) needle = (take (length needle) (h # hs) = needle \<or> strstr hs needle)"

lemma cstr_Some_iff: "(\<exists>s. cstr b = Some s) \<longleftrightarrow> 0 \<in> set b"
  by (simp add: cstr_def)

lemma cstr_append_nul [cstr_simps]:
  "0 \<notin> set s \<Longrightarrow> cstr (s @ 0 # rest) = Some s"
  by (induction s) (auto simp: cstr_def)

lemma cstr_no_nul: "cstr b = Some s \<Longrightarrow> 0 \<notin> set s"
  by (auto simp: cstr_def dest: set_takeWhileD split: if_splits)

lemma cstr_length: "cstr b = Some s \<Longrightarrow> length s < length b"
proof -
  assume "cstr b = Some s"
  then have z: "0 \<in> set b" and s: "s = takeWhile (\<lambda>x. x \<noteq> 0) b"
    by (auto simp: cstr_def split: if_splits)
  have "s \<noteq> b" using z s set_takeWhileD by fastforce
  moreover have "length s \<le> length b" using s length_takeWhile_le by blast
  ultimately show "length s < length b"
    using s takeWhile_eq_take [of "\<lambda>x. x \<noteq> 0" b] by (metis nat_less_le take_all)
qed

lemma strstr_iff: "strstr hay needle \<longleftrightarrow> (\<exists>pre post. hay = pre @ needle @ post)"
proof (induction hay)
  case Nil
  then show ?case by simp
next
  case (Cons h hs)
  have "(\<exists>pre post. h # hs = pre @ needle @ post) \<longleftrightarrow>
      (\<exists>post. h # hs = needle @ post) \<or> (\<exists>pre post. hs = pre @ needle @ post)"
    by (metis append_Cons append_Nil list.inject neq_Nil_conv)
  moreover have "(\<exists>post. h # hs = needle @ post) \<longleftrightarrow> take (length needle) (h # hs) = needle"
    by (metis append_eq_conv_conj append_take_drop_id)
  ultimately show ?case using Cons.IH by simp
qed

section \<open>Decimal printing\<close>

text \<open>The digits \<open>%d\<close> and its kin print for a non-negative value.\<close>

fun show_nat :: "nat \<Rightarrow> string" where
  "show_nat n = (if n < 10 then [char_of (48 + n)] else show_nat (n div 10) @ [char_of (48 + n mod 10)])"

declare show_nat.simps [simp del]

fun read_nat :: "nat \<Rightarrow> string \<Rightarrow> nat" where
  "read_nat acc [] = acc"
| "read_nat acc (c # cs) = read_nat (10 * acc + (of_char c - 48)) cs"

lemma read_nat_append: "read_nat acc (xs @ ys) = read_nat (read_nat acc xs) ys"
  by (induction xs arbitrary: acc) auto

lemma read_nat_digit: "d < 10 \<Longrightarrow> read_nat acc [char_of (48 + d)] = 10 * acc + d"
  by (simp add: take_bit_nat_eq_self)

lemma read_show_nat: "read_nat 0 (show_nat n) = n"
proof (induction n rule: show_nat.induct)
  case (1 n)
  show ?case
  proof (cases "n < 10")
    case True
    then show ?thesis by (subst show_nat.simps) (simp add: read_nat_digit del: read_nat.simps)
  next
    case False
    then show ?thesis
      using 1 by (subst show_nat.simps)
        (simp add: read_nat_append read_nat_digit del: read_nat.simps)
  qed
qed

lemma show_nat_inj: "show_nat m = show_nat n \<longleftrightarrow> m = n"
  by (metis read_show_nat)

section \<open>Lines of text\<close>

text \<open>The first line of some input, with its newline when it has one.\<close>

definition newline :: byte where "newline = 10"

definition line_of :: "byte list \<Rightarrow> byte list" where
  "line_of input = takeWhile (\<lambda>c. c \<noteq> newline) input @ (if newline \<in> set input then [newline] else [])"

lemma takeWhile_stop: "x \<notin> set l \<Longrightarrow> takeWhile (\<lambda>c. c \<noteq> x) (l @ x # r) = l"
  by (induction l) auto

lemma line_of_line: "newline \<notin> set l \<Longrightarrow> line_of (l @ newline # rest) = l @ [newline]"
  by (simp add: line_of_def takeWhile_stop)

lemma line_of_prefix: "\<exists>rest. input = line_of input @ rest"
proof (cases "newline \<in> set input")
  case True
  then obtain l rest where "input = l @ newline # rest" "newline \<notin> set l" by (metis split_list_first)
  then show ?thesis using line_of_line [of l rest] by auto
next
  case False
  then have "takeWhile (\<lambda>c. c \<noteq> newline) input = input" by (auto simp: takeWhile_eq_all_conv)
  with False have "line_of input = input" by (simp only: line_of_def if_False append_Nil2)
  then show ?thesis by (metis append_Nil2)
qed

lemma line_of_nonempty: "input \<noteq> [] \<Longrightarrow> line_of input \<noteq> []"
  by (cases input) (auto simp: line_of_def)

section \<open>Counting the entries of a list\<close>

lemma length_filter_update:
  "i < length xs \<Longrightarrow> length (filter P (xs[i := y])) + (if P (xs ! i) then 1 else 0) =
    length (filter P xs) + (if P y then 1 else 0)"
proof (induction xs arbitrary: i)
  case (Cons x xs)
  then show ?case by (cases i) auto
qed simp

lemma only_one_in_filter:
  assumes "length (filter P xs) \<le> 1" and "i < length xs" and "P (xs ! i)" and "x \<in> set (xs[i := y])"
    and "P x"
  shows "x = y"
proof (rule ccontr)
  assume "x \<noteq> y"
  from assms(4) obtain j where j: "j < length xs" "x = xs[i := y] ! j"
    by (auto simp: in_set_conv_nth)
  with \<open>x \<noteq> y\<close> assms(2) have ne: "j \<noteq> i" "xs ! j = x" by (auto simp: nth_list_update split: if_splits)
  have "{i, j} \<subseteq> {k. k < length xs \<and> P (xs ! k)}" using assms(2,3,5) j(1) ne by auto
  then have "card {i, j} \<le> length (filter P xs)"
    unfolding length_filter_conv_card by (rule card_mono [rotated]) simp
  with ne(1) assms(1) show False by simp
qed

end
