(* ===== verification/Http_Tap.thy ===== *)
theory Http_Tap
  imports Prelude
begin

text \<open>
  The two packet taps of the eBPF directory: \<open>xdp_pass\<close> (src/eBPF/xdp.bpf.c), which runs in
  the driver and drops TCP segments to port 8888, and \<open>tc_http_parse\<close>
  (src/eBPF/tc_trace.bpf.c), which runs on the TC ingress hook. Both walk the Ethernet, IPv4
  and TCP headers of a packet, and copy the start of the payload of a port-80 segment into a
  \<open>http_event\<close> of a BPF ring buffer.

  The packet is the byte list between \<open>data\<close> and \<open>data_end\<close>; a pointer into it is its offset
  from \<open>data\<close>. Every load goes through the checked accessors of \<open>Prelude\<close>, and the copy into
  \<open>e->payload\<close> through \<open>probe_into\<close>, which compares the range the helper is told to read with
  the packet and the range it writes with the event, so that \<open>None\<close> is an access outside the
  packet or outside the event. The two BPF helpers that are not part of the repository are arguments: whether
  \<open>bpf_ringbuf_reserve\<close> returned a record, and the bytes \<open>bpf_probe_read_kernel\<close> delivers for a
  length and an address. Header layouts are those of the Linux UAPI structs on a
  little-endian machine. Trace output (\<open>bpf_printk\<close>) is left out.
\<close>

named_theorems tap_simps \<open>constants and layout facts of the packet taps\<close>

section \<open>Data\<close>

datatype xdp_action = XDP_DROP | XDP_PASS

datatype tc_action = TC_ACT_OK

record http_event =
  src_ip :: u32
  dst_ip :: u32
  src_port :: u16
  dst_port :: u16
  payload :: "byte list"

definition ETH_P_IP :: u16 where
  "ETH_P_IP = 0x0800"

definition IPPROTO_TCP :: byte where
  "IPPROTO_TCP = 6"

definition sizeof_ethhdr :: nat where "sizeof_ethhdr = 14"
definition sizeof_iphdr :: nat where "sizeof_iphdr = 20"
definition sizeof_tcphdr :: nat where "sizeof_tcphdr = 20"

text \<open>The bit fields \<open>ihl\<close> (low nibble of the first IPv4 byte) and \<open>doff\<close> (high nibble of byte
  12 of the TCP header).\<close>

definition ihl_of :: "byte \<Rightarrow> nat" where
  "ihl_of b = unat (b AND 15)"

definition doff_of :: "byte \<Rightarrow> nat" where
  "doff_of b = unat (drop_bit 4 b)"

section \<open>The XDP program\<close>

text \<open>The call \<open>bpf_probe_read_kernel(buf, n, a)\<close> of both programs: the helper reads \<open>n\<close> bytes at
  \<open>a\<close> and stores what it delivers at the start of the buffer. A source range that leaves the
  packet, or a result that leaves the buffer, is \<open>None\<close>.\<close>

definition probe_into ::
  "(nat \<Rightarrow> nat \<Rightarrow> byte list) \<Rightarrow> byte list \<Rightarrow> byte list \<Rightarrow> nat \<Rightarrow> nat \<Rightarrow> byte list option"
where
  "probe_into probe_read pkt buf n a =
     (if a + n \<le> length pkt then st_bytes buf 0 (probe_read n a) else None)"

text \<open>The tail of the program: clear \<open>e->payload\<close> and copy what is left of the packet into it,
  behind the bounds check that the BPF verifier asks for.\<close>

definition xdp_copy ::
  "(nat \<Rightarrow> nat \<Rightarrow> byte list) \<Rightarrow> byte list \<Rightarrow> nat \<Rightarrow> nat \<Rightarrow> byte list option"
where
  "xdp_copy probe_read pkt data_end pl =
    (let available_len = data_end - pl;
         copy_len = (if available_len < 1024 then available_len else 1024);
         cleared = replicate 1024 0
     in if pl + copy_len \<le> data_end
        then probe_into probe_read pkt cleared copy_len pl else Some cleared)"

definition xdp_pass ::
  "bool \<Rightarrow> (nat \<Rightarrow> nat \<Rightarrow> byte list) \<Rightarrow> byte list \<Rightarrow> (xdp_action \<times> http_event option) option"
where
  "xdp_pass reserve probe_read pkt =
    (let data_end = length pkt; eth = 0; iph = eth + sizeof_ethhdr in
     if iph > data_end then Some (XDP_PASS, None)
     else do {
       h_proto \<leftarrow> ld16 pkt (eth + 12);
       if bswap16 h_proto \<noteq> ETH_P_IP then Some (XDP_PASS, None)
       else if iph + sizeof_iphdr > data_end then Some (XDP_PASS, None)
       else do {
         protocol \<leftarrow> ld8 pkt (iph + 9);
         if protocol \<noteq> IPPROTO_TCP then Some (XDP_PASS, None)
         else do {
           vihl \<leftarrow> ld8 pkt iph;
           let tcph = iph + ihl_of vihl * 4;
           if tcph + sizeof_tcphdr > data_end then Some (XDP_PASS, None)
           else do {
             dest \<leftarrow> ld16 pkt (tcph + 2);
             if bswap16 dest = 8888 then Some (XDP_DROP, None)
             else do {
               source \<leftarrow> ld16 pkt tcph;
               let sport = bswap16 source;
               let dport = bswap16 dest;
               if sport \<noteq> 80 \<and> dport \<noteq> 80 then Some (XDP_PASS, None)
               else do {
                 off \<leftarrow> ld8 pkt (tcph + 12);
                 let pl = tcph + doff_of off * 4;
                 if pl > data_end then Some (XDP_PASS, None)
                 else if \<not> reserve then Some (XDP_PASS, None)
                 else do {
                   saddr \<leftarrow> ld32 pkt (iph + 12);
                   daddr \<leftarrow> ld32 pkt (iph + 16);
                   buf \<leftarrow> xdp_copy probe_read pkt data_end pl;
                   Some (XDP_PASS, Some \<lparr>src_ip = saddr, dst_ip = daddr,
                     src_port = sport, dst_port = dport, payload = buf\<rparr>)
                 } } } } } } })"

section \<open>The TC program\<close>

definition tc_copy ::
  "(nat \<Rightarrow> nat \<Rightarrow> byte list) \<Rightarrow> byte list \<Rightarrow> nat \<Rightarrow> nat \<Rightarrow> byte list option"
where
  "tc_copy probe_read pkt data_end pl =
    (let available_len = data_end - pl;
         copy_len = (if available_len < 255 then available_len else 256);
         cleared = replicate 256 0
     in if pl + copy_len \<le> data_end
        then probe_into probe_read pkt cleared copy_len pl else Some cleared)"

text \<open>The \<open>protocol\<close> argument is the field \<open>ctx->protocol\<close> of the socket buffer.\<close>

definition tc_http_parse ::
  "bool \<Rightarrow> (nat \<Rightarrow> nat \<Rightarrow> byte list) \<Rightarrow> u16 \<Rightarrow> byte list \<Rightarrow> (tc_action \<times> http_event option) option"
where
  "tc_http_parse reserve probe_read protocol pkt =
    (let data_end = length pkt; l2 = 0; l3 = l2 + sizeof_ethhdr in
     if protocol \<noteq> bswap16 ETH_P_IP then Some (TC_ACT_OK, None)
     else if l3 > data_end then Some (TC_ACT_OK, None)
     else if l3 + sizeof_iphdr > data_end then Some (TC_ACT_OK, None)
     else do {
       proto \<leftarrow> ld8 pkt (l3 + 9);
       if proto \<noteq> IPPROTO_TCP then Some (TC_ACT_OK, None)
       else do {
         vihl \<leftarrow> ld8 pkt l3;
         let l4 = l3 + ihl_of vihl * 4;
         if l4 + sizeof_tcphdr > data_end then Some (TC_ACT_OK, None)
         else do {
           source \<leftarrow> ld16 pkt l4;
           dest \<leftarrow> ld16 pkt (l4 + 2);
           let sport = bswap16 source;
           let dport = bswap16 dest;
           if sport \<noteq> 80 \<and> dport \<noteq> 80 then Some (TC_ACT_OK, None)
           else do {
             off \<leftarrow> ld8 pkt (l4 + 12);
             let pl = l4 + doff_of off * 4;
             if pl > data_end then Some (TC_ACT_OK, None)
             else if \<not> reserve then Some (TC_ACT_OK, None)
             else do {
               saddr \<leftarrow> ld32 pkt (l3 + 12);
               daddr \<leftarrow> ld32 pkt (l3 + 16);
               buf \<leftarrow> tc_copy probe_read pkt data_end pl;
               Some (TC_ACT_OK, Some \<lparr>src_ip = saddr, dst_ip = daddr,
                 src_port = sport, dst_port = dport, payload = buf\<rparr>)
             } } } } })"

section \<open>Reference view of a packet\<close>

text \<open>
  What the header fields of a packet are, written on the bytes in network order and with no
  control flow: the specification the two programs are compared with.
\<close>

definition ether_type :: "byte list \<Rightarrow> nat" where
  "ether_type pkt = be16 (pkt ! 12) (pkt ! 13)"

definition tcp_off :: "byte list \<Rightarrow> nat" where
  "tcp_off pkt = 14 + 4 * ihl_of (pkt ! 14)"

definition tcp_segment :: "byte list \<Rightarrow> bool" where
  "tcp_segment pkt \<longleftrightarrow> 34 \<le> length pkt \<and> pkt ! 23 = 6 \<and> tcp_off pkt + 20 \<le> length pkt"

definition sport_of :: "byte list \<Rightarrow> nat" where
  "sport_of pkt = be16 (pkt ! tcp_off pkt) (pkt ! (tcp_off pkt + 1))"

definition dport_of :: "byte list \<Rightarrow> nat" where
  "dport_of pkt = be16 (pkt ! (tcp_off pkt + 2)) (pkt ! (tcp_off pkt + 3))"

definition payload_off :: "byte list \<Rightarrow> nat" where
  "payload_off pkt = tcp_off pkt + 4 * doff_of (pkt ! (tcp_off pkt + 12))"

definition tcp_payload :: "byte list \<Rightarrow> byte list" where
  "tcp_payload pkt = drop (payload_off pkt) pkt"

text \<open>A port-80 segment whose payload starts inside the packet: what both taps report.\<close>

definition http_segment :: "byte list \<Rightarrow> bool" where
  "http_segment pkt \<longleftrightarrow> tcp_segment pkt \<and> (sport_of pkt = 80 \<or> dport_of pkt = 80) \<and>
     payload_off pkt \<le> length pkt"

definition pad :: "nat \<Rightarrow> byte list \<Rightarrow> byte list" where
  "pad n xs = xs @ replicate (n - length xs) 0"

definition event_of :: "byte list \<Rightarrow> byte list \<Rightarrow> http_event" where
  "event_of pkt pl = \<lparr>
     src_ip = le32 (pkt ! 26) (pkt ! 27) (pkt ! 28) (pkt ! 29),
     dst_ip = le32 (pkt ! 30) (pkt ! 31) (pkt ! 32) (pkt ! 33),
     src_port = of_nat (sport_of pkt), dst_port = of_nat (dport_of pkt), payload = pl\<rparr>"

definition xdp_spec :: "bool \<Rightarrow> byte list \<Rightarrow> xdp_action \<times> http_event option" where
  "xdp_spec reserve pkt =
    (if \<not> (14 \<le> length pkt \<and> ether_type pkt = 0x800 \<and> tcp_segment pkt) then (XDP_PASS, None)
     else if dport_of pkt = 8888 then (XDP_DROP, None)
     else if http_segment pkt \<and> reserve
       then (XDP_PASS, Some (event_of pkt (pad 1024 (take 1024 (tcp_payload pkt)))))
     else (XDP_PASS, None))"

definition tc_spec :: "bool \<Rightarrow> u16 \<Rightarrow> byte list \<Rightarrow> http_event option" where
  "tc_spec reserve protocol pkt =
    (if protocol = bswap16 ETH_P_IP \<and> http_segment pkt \<and> reserve
     then Some (event_of pkt
       (if length (tcp_payload pkt) = 255 then replicate 256 0
        else pad 256 (take 256 (tcp_payload pkt))))
     else None)"

text \<open>
  What the BPF helper documentation promises of \<open>bpf_probe_read_kernel\<close>: it stores exactly the
  number of bytes asked for, and for an address range inside the packet these are the
  packet's bytes.
\<close>

definition probe_sized :: "(nat \<Rightarrow> nat \<Rightarrow> byte list) \<Rightarrow> bool" where
  "probe_sized probe_read \<longleftrightarrow> (\<forall>n a. length (probe_read n a) = n)"

definition probe_reads :: "byte list \<Rightarrow> (nat \<Rightarrow> nat \<Rightarrow> byte list) \<Rightarrow> bool" where
  "probe_reads pkt probe_read \<longleftrightarrow>
     (\<forall>n a. a + n \<le> length pkt \<longrightarrow> probe_read n a = take n (drop a pkt))"

section \<open>Library lemmas\<close>

lemmas tap_consts [tap_simps] =
  sizeof_ethhdr_def sizeof_iphdr_def sizeof_tcphdr_def IPPROTO_TCP_def

lemma bswap16_le16_of_nat [tap_simps]: "bswap16 (le16 b0 b1) = of_nat (be16 b0 b1)"
  by (simp add: unat_bswap16_le16 [symmetric] del: unat_bswap16_le16)

lemma be16_less: "be16 b0 b1 < 65536"
  using unat_byte_less [of b0] unat_byte_less [of b1] by (simp add: be16_def)

lemma of_nat_be16_eq [tap_simps]:
  "(of_nat (be16 b0 b1) :: u16) = w \<longleftrightarrow> be16 b0 b1 = unat w"
  using bswap16_le16_eq_iff [of b0 b1 w] by (simp add: bswap16_le16_of_nat)

lemma bswap16_le16_ETH_P_IP [tap_simps]:
  "bswap16 (le16 b0 b1) = ETH_P_IP \<longleftrightarrow> be16 b0 b1 = 0x800"
  by (simp add: bswap16_le16_eq_iff ETH_P_IP_def)

lemma st_bytes_cleared: "length xs \<le> n \<Longrightarrow> st_bytes (replicate n 0) 0 xs = Some (pad n xs)"
  by (simp add: st_bytes_def pad_def)

lemma st_bytes_cleared_total: "length xs \<le> n \<Longrightarrow> st_bytes (replicate n 0) 0 xs \<noteq> None"
  by (simp add: st_bytes_def)

lemma length_pad: "length xs \<le> n \<Longrightarrow> length (pad n xs) = n"
  by (simp add: pad_def)

lemma probe_readsD:
  "probe_reads pkt f \<Longrightarrow> a + n \<le> length pkt \<Longrightarrow> f n a = take n (drop a pkt)"
  by (simp add: probe_reads_def)

text \<open>Both programs decide on the same header fields; the facts below put the loads of a
  packet long enough for them into the vocabulary of the reference view.\<close>

lemma tcp_loads:
  assumes "34 \<le> length pkt" and "tcp_off pkt + 20 \<le> length pkt"
  shows "ld16 pkt (tcp_off pkt) =
      Some (le16 (pkt ! tcp_off pkt) (pkt ! Suc (tcp_off pkt)))"
    and "ld16 pkt (tcp_off pkt + 2) =
      Some (le16 (pkt ! (tcp_off pkt + 2)) (pkt ! (tcp_off pkt + 3)))"
    and "ld8 pkt (tcp_off pkt + 12) = Some (pkt ! (tcp_off pkt + 12))"
    and "ld32 pkt 26 = Some (le32 (pkt ! 26) (pkt ! 27) (pkt ! 28) (pkt ! 29))"
    and "ld32 pkt 30 = Some (le32 (pkt ! 30) (pkt ! 31) (pkt ! 32) (pkt ! 33))"
  using assms by (simp_all add: buf_simps add.commute numeral_3_eq_3)

lemma xdp_copy_eq:
  assumes "probe_reads pkt f" and "pl \<le> length pkt"
  shows "xdp_copy f pkt (length pkt) pl = Some (pad 1024 (take 1024 (drop pl pkt)))"
proof -
  let ?n = "if length pkt - pl < 1024 then length pkt - pl else 1024"
  have "pl + ?n \<le> length pkt" using assms(2) by auto
  moreover from this have "f ?n pl = take 1024 (drop pl pkt)"
    using probe_readsD [OF assms(1), of pl ?n] by (simp split: if_splits)
  ultimately show ?thesis
    by (simp add: xdp_copy_def probe_into_def Let_def st_bytes_cleared split: if_splits)
qed

lemma tc_copy_eq:
  assumes "probe_reads pkt f" and "pl \<le> length pkt"
  shows "tc_copy f pkt (length pkt) pl =
    Some (if length (drop pl pkt) = 255 then replicate 256 0
          else pad 256 (take 256 (drop pl pkt)))"
proof (cases "length pkt - pl = 255")
  case True
  then have "\<not> pl + 256 \<le> length pkt" by linarith
  with True show ?thesis by (simp add: tc_copy_def)
next
  case False
  let ?n = "if length pkt - pl < 255 then length pkt - pl else 256"
  have "pl + ?n \<le> length pkt" using assms(2) False by auto
  moreover from this have "f ?n pl = take 256 (drop pl pkt)"
    using probe_readsD [OF assms(1), of pl ?n] by (simp split: if_splits)
  ultimately show ?thesis
    using False by (simp add: tc_copy_def probe_into_def Let_def st_bytes_cleared split: if_splits)
qed

lemma copies_total:
  assumes "probe_sized f"
  shows "xdp_copy f pkt (length pkt) pl \<noteq> None" and "tc_copy f pkt (length pkt) pl \<noteq> None"
  using assms
  by (simp_all add: xdp_copy_def tc_copy_def probe_into_def Let_def probe_sized_def st_bytes_def)

section \<open>The programs against the reference view\<close>

lemma header_loads:
  assumes "34 \<le> length pkt"
  shows "ld8 pkt (sizeof_ethhdr + 9) = Some (pkt ! 23)"
    and "ld8 pkt sizeof_ethhdr = Some (pkt ! 14)"
    and "ld32 pkt (sizeof_ethhdr + 12) = Some (le32 (pkt ! 26) (pkt ! 27) (pkt ! 28) (pkt ! 29))"
    and "ld32 pkt (sizeof_ethhdr + 16) = Some (le32 (pkt ! 30) (pkt ! 31) (pkt ! 32) (pkt ! 33))"
  using assms by (simp_all add: buf_simps sizeof_ethhdr_def)

lemma offsets:
  "sizeof_ethhdr + ihl_of (pkt ! 14) * 4 = tcp_off pkt"
  "tcp_off pkt + doff_of (pkt ! (tcp_off pkt + 12)) * 4 = payload_off pkt"
  by (simp_all add: tcp_off_def payload_off_def sizeof_ethhdr_def)

lemma bounds_checks:
  "length pkt < sizeof_ethhdr \<longleftrightarrow> length pkt < 14"
  "length pkt < sizeof_ethhdr + sizeof_iphdr \<longleftrightarrow> length pkt < 34"
  "length pkt < tcp_off pkt + sizeof_tcphdr \<longleftrightarrow> length pkt < tcp_off pkt + 20"
  by (simp_all add: tap_consts)

lemma ports_swapped:
  "bswap16 (le16 (pkt ! tcp_off pkt) (pkt ! Suc (tcp_off pkt))) = of_nat (sport_of pkt)"
  "bswap16 (le16 (pkt ! (tcp_off pkt + 2)) (pkt ! (tcp_off pkt + 3))) = of_nat (dport_of pkt)"
  by (simp_all add: sport_of_def dport_of_def bswap16_le16_of_nat)

lemma port_eq_iff:
  "(of_nat (sport_of pkt) :: u16) = w \<longleftrightarrow> sport_of pkt = unat w"
  "(of_nat (dport_of pkt) :: u16) = w \<longleftrightarrow> dport_of pkt = unat w"
  by (simp_all add: sport_of_def dport_of_def of_nat_be16_eq)

lemmas walk_simps = Let_def header_loads offsets bounds_checks tcp_loads ports_swapped port_eq_iff
  bswap16_le16_ETH_P_IP

lemma xdp_pass_refines:
  assumes "probe_reads pkt f"
  shows "xdp_pass reserve f pkt = Some (xdp_spec reserve pkt)"
proof (cases "34 \<le> length pkt \<and> ether_type pkt = 0x800 \<and> tcp_segment pkt")
  case True
  then have "34 \<le> length pkt" "be16 (pkt ! 12) (pkt ! 13) = 0x800" "pkt ! 23 = IPPROTO_TCP"
    "tcp_off pkt + 20 \<le> length pkt" "ld16 pkt 12 = Some (le16 (pkt ! 12) (pkt ! 13))"
    by (auto simp: ether_type_def tcp_segment_def IPPROTO_TCP_def buf_simps)
  with True xdp_copy_eq [OF assms, of "payload_off pkt"] show ?thesis
    by (simp add: xdp_pass_def walk_simps xdp_spec_def http_segment_def event_of_def
        tcp_payload_def not_le del: add_2_eq_Suc add_2_eq_Suc')
next
  case False
  then show ?thesis
    by (auto simp: xdp_pass_def xdp_spec_def walk_simps tcp_segment_def ether_type_def
        IPPROTO_TCP_def ld16_Some not_le not_less simp del: add_2_eq_Suc add_2_eq_Suc')
qed

lemma tc_http_parse_refines:
  assumes "probe_reads pkt f"
  shows "tc_http_parse reserve f protocol pkt = Some (TC_ACT_OK, tc_spec reserve protocol pkt)"
proof (cases "34 \<le> length pkt \<and> tcp_segment pkt")
  case True
  then have "34 \<le> length pkt" "pkt ! 23 = IPPROTO_TCP" "tcp_off pkt + 20 \<le> length pkt"
    by (auto simp: tcp_segment_def IPPROTO_TCP_def)
  with True tc_copy_eq [OF assms, of "payload_off pkt"] show ?thesis
    by (simp add: tc_http_parse_def walk_simps tc_spec_def http_segment_def event_of_def
        tcp_payload_def not_le del: add_2_eq_Suc add_2_eq_Suc')
next
  case False
  then show ?thesis
    by (auto simp: tc_http_parse_def tc_spec_def walk_simps tcp_segment_def http_segment_def
        IPPROTO_TCP_def not_le not_less simp del: add_2_eq_Suc add_2_eq_Suc')
qed

text \<open>Safety does not depend on what the helper delivers, only on how much.\<close>

lemma xdp_pass_sized:
  assumes "probe_sized f"
  shows "\<exists>ev. xdp_pass reserve f pkt = Some (fst (xdp_spec reserve pkt), ev)"
proof (cases "34 \<le> length pkt \<and> ether_type pkt = 0x800 \<and> tcp_segment pkt")
  case True
  obtain buf where "xdp_copy f pkt (length pkt) (payload_off pkt) = Some buf"
    using copies_total(1) [OF assms] by blast
  moreover from True have "34 \<le> length pkt" "be16 (pkt ! 12) (pkt ! 13) = 0x800"
    "pkt ! 23 = IPPROTO_TCP" "tcp_off pkt + 20 \<le> length pkt"
    "ld16 pkt 12 = Some (le16 (pkt ! 12) (pkt ! 13))"
    by (auto simp: ether_type_def tcp_segment_def IPPROTO_TCP_def buf_simps)
  ultimately show ?thesis
    using True
    by (simp add: xdp_pass_def walk_simps xdp_spec_def http_segment_def not_le
        del: add_2_eq_Suc add_2_eq_Suc')
next
  case False
  then show ?thesis
    by (auto simp: xdp_pass_def xdp_spec_def walk_simps tcp_segment_def ether_type_def
        IPPROTO_TCP_def ld16_Some not_le not_less simp del: add_2_eq_Suc add_2_eq_Suc')
qed

lemma tc_http_parse_sized:
  assumes "probe_sized f"
  shows "\<exists>ev. tc_http_parse reserve f protocol pkt = Some (TC_ACT_OK, ev)"
proof (cases "34 \<le> length pkt \<and> tcp_segment pkt")
  case True
  obtain buf where "tc_copy f pkt (length pkt) (payload_off pkt) = Some buf"
    using copies_total(2) [OF assms] by blast
  moreover from True have "34 \<le> length pkt" "pkt ! 23 = IPPROTO_TCP"
    "tcp_off pkt + 20 \<le> length pkt"
    by (auto simp: tcp_segment_def IPPROTO_TCP_def)
  ultimately show ?thesis
    by (simp add: tc_http_parse_def walk_simps not_le del: add_2_eq_Suc add_2_eq_Suc')
next
  case False
  then show ?thesis
    by (auto simp: tc_http_parse_def walk_simps tcp_segment_def
        IPPROTO_TCP_def not_le not_less simp del: add_2_eq_Suc add_2_eq_Suc')
qed

section \<open>What the user-space readers rely on\<close>

text \<open>
  The readers of the ring buffer (theory \<open>Http_Viewer\<close>) take from a tap that it never faults and
  that an event it submits describes a port-80 segment, with a payload field of a fixed size.
\<close>

definition packet_read :: "byte list \<Rightarrow> nat \<Rightarrow> nat \<Rightarrow> byte list" where
  "packet_read pkt n a = take n (drop a pkt)"

text \<open>The records a tap submits for a sequence of packets, in order.\<close>

fun submitted :: "(byte list \<Rightarrow> ('v \<times> http_event option) option) \<Rightarrow> byte list list \<Rightarrow> http_event list"
where
  "submitted tap [] = []"
| "submitted tap (pkt # pkts) =
     (case tap pkt of Some (_, Some e) \<Rightarrow> e # submitted tap pkts | _ \<Rightarrow> submitted tap pkts)"

locale http_tap =
  fixes tap :: "byte list \<Rightarrow> ('v \<times> http_event option) option"
    and cap :: nat
  assumes tap_safe: "tap pkt \<noteq> None"
    and tap_event: "tap pkt = Some (v, Some e) \<Longrightarrow>
      http_segment pkt \<and> (\<exists>pl. e = event_of pkt pl \<and> length pl = cap)"
begin

lemma submitted_http:
  "e \<in> set (submitted tap pkts) \<Longrightarrow>
     \<exists>pkt \<in> set pkts. http_segment pkt \<and> e = event_of pkt (payload e) \<and> length (payload e) = cap"
proof (induction pkts)
  case Nil
  then show ?case by simp
next
  case (Cons pkt pkts)
  then show ?case
    using tap_event [of pkt]
    by (fastforce simp: event_of_def split: option.splits prod.splits)
qed

lemma submitted_bounded: "length (submitted tap pkts) \<le> length pkts"
  by (induction pkts) (auto split: option.splits prod.splits)

end

lemma probe_reads_packet_read: "probe_reads pkt (packet_read pkt)"
  by (simp add: probe_reads_def packet_read_def)

interpretation xdp: http_tap "\<lambda>pkt. xdp_pass reserve (packet_read pkt) pkt" 1024
  by unfold_locales
     (auto simp: xdp_pass_refines [OF probe_reads_packet_read] xdp_spec_def length_pad
        split: if_splits)

interpretation tc: http_tap "\<lambda>pkt. tc_http_parse reserve (packet_read pkt) protocol pkt" 256
  by unfold_locales
     (auto simp: tc_http_parse_refines [OF probe_reads_packet_read] tc_spec_def length_pad
        split: if_splits)

end
