(* ===== verification/Http_Viewer.thy ===== *)
theory Http_Viewer
  imports Http_Tap
begin

text \<open>
  The user-space side of the two packet taps: \<open>handle_event\<close> of src/eBPF/tc_trace.c and of
  src/eBPF/xdp.c (the two bodies are the same text), and the path of a packet from the tap to
  the terminal. A record of the ring buffer is a \<open>http_event\<close> whose payload field is the bytes the
  kernel side wrote; the C string functions read it up to its first NUL, and a payload
  without a NUL makes them read past the record (\<open>None\<close>).
\<close>

section \<open>Model\<close>

definition octet :: "nat \<Rightarrow> u32 \<Rightarrow> byte" where
  "octet k a = ucast (drop_bit (8 * k) a)"

text \<open>\<open>inet_ntoa\<close> of the C library: the four bytes of the address in memory order.\<close>

definition inet_ntoa :: "u32 \<Rightarrow> string" where
  "inet_ntoa a = show_nat (unat (octet 0 a)) @ ''.'' @ show_nat (unat (octet 1 a)) @ ''.'' @
     show_nat (unat (octet 2 a)) @ ''.'' @ show_nat (unat (octet 3 a))"

record shown =
  from_ip :: string
  from_port :: nat
  to_ip :: string
  to_port :: nat
  shown_text :: "byte list"

definition looks_http :: "byte list \<Rightarrow> bool" where
  "looks_http s \<longleftrightarrow> strstr s (bytes_of ''GET'') \<or> strstr s (bytes_of ''POST'') \<or>
     strstr s (bytes_of ''HTTP'')"

text \<open>
  Both \<open>inet_ntoa\<close> calls of the \<open>printf\<close> return the library's one static buffer, so both \<open>%s\<close>
  conversions print what the call evaluated last stored there. C leaves the order of the two
  calls open: it is the argument \<open>src_last\<close>.
\<close>

definition handle_event :: "bool \<Rightarrow> http_event \<Rightarrow> shown option option" where
  "handle_event src_last e = do {
     s \<leftarrow> cstr (payload e);
     let static_buf = inet_ntoa (if src_last then src_ip e else dst_ip e);
     Some (if looks_http s
       then Some \<lparr>from_ip = static_buf, from_port = unat (src_port e),
              to_ip = static_buf, to_port = unat (dst_port e), shown_text = s\<rparr>
       else None)
   }"

section \<open>Library lemmas\<close>

lemma octet_le32:
  "octet 0 (le32 b0 b1 b2 b3) = b0" "octet 1 (le32 b0 b1 b2 b3) = b1"
  "octet 2 (le32 b0 b1 b2 b3) = b2" "octet 3 (le32 b0 b1 b2 b3) = b3"
  by (rule bit_word_eqI;
      auto simp: octet_def le32_def bit_or_iff bit_push_bit_iff bit_drop_bit_eq bit_ucast_iff
        dest: bit_imp_le_length)+

text \<open>The dotted text of an address, as the bytes of the packet give it.\<close>

definition dotted :: "byte \<Rightarrow> byte \<Rightarrow> byte \<Rightarrow> byte \<Rightarrow> string" where
  "dotted b0 b1 b2 b3 = show_nat (unat b0) @ ''.'' @ show_nat (unat b1) @ ''.'' @
     show_nat (unat b2) @ ''.'' @ show_nat (unat b3)"

lemma inet_ntoa_le32: "inet_ntoa (le32 b0 b1 b2 b3) = dotted b0 b1 b2 b3"
  by (simp add: inet_ntoa_def dotted_def octet_le32 del: One_nat_def)

lemma handle_event_None_iff: "handle_event src_last e = None \<longleftrightarrow> 0 \<notin> set (payload e)"
  by (simp add: handle_event_def cstr_def Let_def)

lemma cstr_pad:
  assumes "length s < n" and "0 \<notin> set s"
  shows "cstr (pad n s) = Some s"
proof -
  obtain m where "n - length s = Suc m" using assms(1) by (metis Suc_diff_Suc)
  then show ?thesis using assms(2) by (simp add: pad_def cstr_append_nul)
qed

lemma handle_event_dest:
  "handle_event src_last e = Some (Some v) \<Longrightarrow>
     from_ip v = to_ip v \<and> from_port v = unat (src_port e) \<and> to_port v = unat (dst_port e) \<and>
     cstr (payload e) = Some (shown_text v) \<and> looks_http (shown_text v) \<and>
     from_ip v = inet_ntoa (if src_last then src_ip e else dst_ip e)"
  by (auto simp: handle_event_def Let_def split: bind_splits if_splits)

lemma unat_port_of: "unat (of_nat (sport_of pkt) :: u16) = sport_of pkt"
  "unat (of_nat (dport_of pkt) :: u16) = dport_of pkt"
  using be16_less by (simp_all add: sport_of_def dport_of_def unat_of_nat)

section \<open>Properties\<close>

text \<open>Claim C1: neither tap reads outside the packet, by its own loads or by the range it hands
  to the copying helper, and neither writes outside its event, for any packet at all
  (truncated, with a forged header length or data offset) and whatever bytes the helper
  delivers, as long as it delivers as many as it was asked for.\<close>

theorem taps_memory_safe:
  assumes "probe_sized probe_read"
  shows "xdp_pass reserve probe_read pkt \<noteq> None \<and>
    tc_http_parse reserve probe_read protocol pkt \<noteq> None"
  using xdp_pass_sized [OF assms] tc_http_parse_sized [OF assms] by blast

theorem taps_memory_safe_witness:
  "xdp_pass True (\<lambda>n a. replicate n 0) (replicate 14 255 @ replicate 60 0) \<noteq> None \<and>
   tc_http_parse True (\<lambda>n a. replicate n 0) 8 (replicate 14 255 @ replicate 60 0) \<noteq> None"
proof -
  have "probe_sized (\<lambda>n a. replicate n 0)" by (simp add: probe_sized_def)
  then show ?thesis by (rule taps_memory_safe)
qed

text \<open>Further: the XDP program drops a packet exactly when it is an IPv4 TCP segment (a
  complete Ethernet, IPv4 and TCP header, with the TCP header where the IPv4 header length
  puts it) whose destination port is 8888 in network order; every other packet passes.\<close>

theorem xdp_drops_exactly_port_8888:
  assumes "probe_sized probe_read"
  shows "(\<exists>ev. xdp_pass reserve probe_read pkt = Some (XDP_DROP, ev)) \<longleftrightarrow>
    ether_type pkt = 0x800 \<and> tcp_segment pkt \<and> dport_of pkt = 8888"
proof -
  obtain ev where "xdp_pass reserve probe_read pkt = Some (fst (xdp_spec reserve pkt), ev)"
    using xdp_pass_sized [OF assms] by blast
  then show ?thesis by (auto simp: xdp_spec_def tcp_segment_def)
qed

definition demo_packet :: "byte list" where
  "demo_packet = replicate 12 0 @ [8, 0, 0x45] @ replicate 8 0 @ [6, 0, 0, 10, 0, 0, 1, 10, 0, 0, 2]
     @ [0x9c, 0x40, 0x22, 0xb8] @ replicate 8 0 @ [0x50] @ replicate 7 0"

theorem xdp_drops_exactly_port_8888_witness:
  "\<exists>ev. xdp_pass False (\<lambda>n a. replicate n 0) demo_packet = Some (XDP_DROP, ev)"
proof -
  have p: "probe_sized (\<lambda>n a. replicate n 0)" by (simp add: probe_sized_def)
  have "ether_type demo_packet = 0x800 \<and> tcp_segment demo_packet \<and> dport_of demo_packet = 8888"
    by code_simp
  then show ?thesis using xdp_drops_exactly_port_8888 [OF p, of False demo_packet] by blast
qed

text \<open>Claim C2: verdict and event of the XDP program are the ones the reference view of the
  packet gives: the event carries the addresses, the ports and the first 1024 payload bytes
  (zero-padded) of a port-80 segment, and there is none for any other packet or when the ring
  buffer is full. A segment whose payload is empty (a pure acknowledgement) is reported like
  any other, with an all-zero payload field.\<close>

theorem xdp_pass_exact:
  assumes "probe_reads pkt probe_read"
  shows "xdp_pass reserve probe_read pkt = Some (xdp_spec reserve pkt)"
  using assms by (rule xdp_pass_refines)

definition demo_request :: "byte list" where
  "demo_request = replicate 12 0 @ [8, 0, 0x45] @ replicate 8 0 @ [6, 0, 0, 10, 0, 0, 1, 10, 0, 0, 2]
     @ [0x9c, 0x40, 0, 80] @ replicate 8 0 @ [0x50] @ replicate 7 0 @ bytes_of ''GET /''"

lemma demo_request_facts:
  "http_segment demo_request" "ether_type demo_request = 0x800" "dport_of demo_request = 80"
  "tcp_payload demo_request = bytes_of ''GET /''" "bswap16 ETH_P_IP = 8"
  "14 \<le> length demo_request"
  by code_simp+

theorem xdp_pass_exact_witness:
  "\<exists>e. xdp_pass True (packet_read demo_request) demo_request = Some (XDP_PASS, Some e) \<and>
     take 5 (payload e) = bytes_of ''GET /'' \<and> dst_port e = 80"
proof -
  have "xdp_pass True (packet_read demo_request) demo_request = Some (xdp_spec True demo_request)"
    by (rule xdp_pass_exact) (rule probe_reads_packet_read)
  then show ?thesis
    using demo_request_facts
    by (simp add: xdp_spec_def event_of_def pad_def http_segment_def bytes_of_def tcp_segment_def)
qed

text \<open>Claim C29: the TC program lets every packet through and reports exactly the port-80
  segments of IPv4 packets, with addresses, ports and the first 256 payload bytes, except that
  a payload of exactly 255 bytes is reported as 256 zero bytes.\<close>

theorem tc_http_parse_exact:
  assumes "probe_reads pkt probe_read"
  shows "tc_http_parse reserve probe_read protocol pkt =
    Some (TC_ACT_OK, tc_spec reserve protocol pkt)"
  using assms by (rule tc_http_parse_refines)

theorem tc_http_parse_exact_witness:
  "\<exists>e. tc_http_parse True (packet_read demo_request) 8 demo_request = Some (TC_ACT_OK, Some e) \<and>
     take 5 (payload e) = bytes_of ''GET /'' \<and> dst_port e = 80"
proof -
  have "tc_http_parse True (packet_read demo_request) 8 demo_request =
      Some (TC_ACT_OK, tc_spec True 8 demo_request)"
    by (rule tc_http_parse_exact) (rule probe_reads_packet_read)
  then show ?thesis
    using demo_request_facts
    by (simp add: tc_spec_def event_of_def pad_def bytes_of_def)
qed

text \<open>Further: on an IPv4 packet that is not addressed to port 8888 and whose payload is not
  255 bytes long, the two taps report the same event, the TC event being the XDP event with
  its payload field cut to 256 bytes.\<close>

theorem taps_agree:
  assumes "probe_reads pkt probe_read" and "ether_type pkt = 0x800" and "dport_of pkt \<noteq> 8888"
    and "length (tcp_payload pkt) \<noteq> 255"
  shows "\<exists>ev. xdp_pass reserve probe_read pkt = Some (XDP_PASS, ev) \<and>
    tc_http_parse reserve probe_read (bswap16 ETH_P_IP) pkt =
      Some (TC_ACT_OK, map_option (\<lambda>e. e\<lparr>payload := take 256 (payload e)\<rparr>) ev)"
proof -
  have "take 256 (pad 1024 (take 1024 xs)) = pad 256 (take 256 xs)" for xs :: "byte list"
    by (auto simp: pad_def min_def)
  moreover have "tcp_segment pkt \<Longrightarrow> 14 \<le> length pkt" by (simp add: tcp_segment_def)
  ultimately show ?thesis
    using assms(2-) xdp_pass_refines [OF assms(1), of reserve]
      tc_http_parse_refines [OF assms(1), of reserve "bswap16 ETH_P_IP"]
    by (auto simp: xdp_spec_def tc_spec_def http_segment_def event_of_def)
qed

theorem taps_agree_witness:
  "\<exists>ev. xdp_pass True (packet_read demo_request) demo_request = Some (XDP_PASS, ev) \<and>
    tc_http_parse True (packet_read demo_request) (bswap16 ETH_P_IP) demo_request =
      Some (TC_ACT_OK, map_option (\<lambda>e. e\<lparr>payload := take 256 (payload e)\<rparr>) ev)"
proof (rule taps_agree)
  show "probe_reads demo_request (packet_read demo_request)" by (rule probe_reads_packet_read)
qed code_simp+

text \<open>Further: a request that fits (a port-80 segment of an IPv4 packet, payload without NUL
  bytes, shorter than 255 bytes, containing GET, POST or HTTP) is shown by the reader of either
  tap, with exactly the payload as text and the ports of the segment.\<close>

theorem viewer_shows_request:
  assumes "http_segment pkt" and "ether_type pkt = 0x800" and "dport_of pkt \<noteq> 8888"
    and "length (tcp_payload pkt) < 255" and "0 \<notin> set (tcp_payload pkt)"
    and "looks_http (tcp_payload pkt)"
  shows "\<exists>e e' v. xdp_pass True (packet_read pkt) pkt = Some (XDP_PASS, Some e) \<and>
    tc_http_parse True (packet_read pkt) (bswap16 ETH_P_IP) pkt = Some (TC_ACT_OK, Some e') \<and>
    handle_event src_last e = Some (Some v) \<and> handle_event src_last e' = Some (Some v) \<and>
    shown_text v = tcp_payload pkt \<and> from_port v = sport_of pkt \<and> to_port v = dport_of pkt"
proof -
  let ?pl = "tcp_payload pkt"
  have seg: "14 \<le> length pkt" "tcp_segment pkt"
    using assms(1) by (auto simp: http_segment_def tcp_segment_def)
  have x: "xdp_pass True (packet_read pkt) pkt = Some (XDP_PASS, Some (event_of pkt (pad 1024 ?pl)))"
    using assms seg xdp_pass_refines [OF probe_reads_packet_read, of True pkt]
    by (simp add: xdp_spec_def)
  have t: "tc_http_parse True (packet_read pkt) (bswap16 ETH_P_IP) pkt =
      Some (TC_ACT_OK, Some (event_of pkt (pad 256 ?pl)))"
    using assms tc_http_parse_refines [OF probe_reads_packet_read, of True pkt "bswap16 ETH_P_IP"]
    by (simp add: tc_spec_def)
  have "cstr (pad 1024 ?pl) = Some ?pl" "cstr (pad 256 ?pl) = Some ?pl"
    using assms(4,5) by (simp_all add: cstr_pad)
  then show ?thesis
    using x t assms(6) by (simp add: handle_event_def event_of_def unat_port_of Let_def)
qed

theorem viewer_shows_request_witness:
  "\<exists>e e' v. xdp_pass True (packet_read demo_request) demo_request = Some (XDP_PASS, Some e) \<and>
    tc_http_parse True (packet_read demo_request) (bswap16 ETH_P_IP) demo_request =
      Some (TC_ACT_OK, Some e') \<and>
    handle_event False e = Some (Some v) \<and> handle_event False e' = Some (Some v) \<and>
    shown_text v = tcp_payload demo_request \<and> from_port v = sport_of demo_request \<and>
    to_port v = dport_of demo_request"
  by (rule viewer_shows_request; code_simp)

text \<open>Further: every line the reader prints for records of the TC tap is about a port-80
  segment that was received, and its source and destination address fields are one and the
  same text: the dotted form of the source or of the destination address of that segment,
  whichever \<open>inet_ntoa\<close> call ran last.\<close>

theorem viewer_prints_one_address:
  assumes "e \<in> set (submitted (\<lambda>pkt. tc_http_parse reserve (packet_read pkt) protocol pkt) pkts)"
    and "handle_event src_last e = Some (Some v)"
  shows "\<exists>pkt \<in> set pkts. http_segment pkt \<and> to_ip v = from_ip v \<and>
    from_ip v = (if src_last then dotted (pkt ! 26) (pkt ! 27) (pkt ! 28) (pkt ! 29)
                 else dotted (pkt ! 30) (pkt ! 31) (pkt ! 32) (pkt ! 33))"
proof -
  obtain pkt where "pkt \<in> set pkts" and "http_segment pkt" and e: "e = event_of pkt (payload e)"
    using tc.submitted_http [OF assms(1)] by blast
  moreover have "src_ip e = le32 (pkt ! 26) (pkt ! 27) (pkt ! 28) (pkt ! 29)"
    "dst_ip e = le32 (pkt ! 30) (pkt ! 31) (pkt ! 32) (pkt ! 33)"
    by (subst e, simp add: event_of_def)+
  ultimately show ?thesis
    using handle_event_dest [OF assms(2)] by (auto simp: inet_ntoa_le32)
qed

theorem viewer_prints_one_address_witness:
  "\<exists>e v. submitted (\<lambda>pkt. tc_http_parse True (packet_read pkt) 8 pkt) [demo_request] = [e] \<and>
    handle_event False e = Some (Some v) \<and> from_ip v = to_ip v"
proof -
  let ?e = "event_of demo_request (pad 256 (tcp_payload demo_request))"
  have "tc_spec True 8 demo_request = Some ?e"
    using demo_request_facts by (simp add: tc_spec_def bytes_of_def)
  then have s: "submitted (\<lambda>pkt. tc_http_parse True (packet_read pkt) 8 pkt) [demo_request] = [?e]"
    using tc_http_parse_refines [OF probe_reads_packet_read, of True demo_request 8] by simp
  have "cstr (pad 256 (tcp_payload demo_request)) = Some (tcp_payload demo_request)"
    by (rule cstr_pad; code_simp)
  moreover have "looks_http (tcp_payload demo_request)" by code_simp
  ultimately obtain v where v: "handle_event False ?e = Some (Some v)"
    by (simp add: handle_event_def event_of_def Let_def)
  have "to_ip v = from_ip v"
    using viewer_prints_one_address [of ?e True 8 "[demo_request]" False v] s v by auto
  then show ?thesis using s v by auto
qed

text \<open>Further: a port-80 segment whose first 256 payload bytes contain no NUL byte leaves the TC
  event without a terminator, and the reader's string functions run past the end of the
  record.\<close>

theorem tc_viewer_overread:
  assumes "http_segment pkt" and "256 \<le> length (tcp_payload pkt)"
    and "0 \<notin> set (take 256 (tcp_payload pkt))"
  shows "\<exists>e. tc_http_parse True (packet_read pkt) (bswap16 ETH_P_IP) pkt = Some (TC_ACT_OK, Some e) \<and>
    handle_event src_last e = None"
  using assms tc_http_parse_refines [OF probe_reads_packet_read, of True pkt "bswap16 ETH_P_IP"]
  by (simp add: tc_spec_def handle_event_None_iff event_of_def pad_def)

definition long_request :: "byte list" where
  "long_request = take 54 demo_request @ replicate 256 65"

theorem tc_viewer_overread_witness:
  "\<exists>e. tc_http_parse True (packet_read long_request) (bswap16 ETH_P_IP) long_request =
      Some (TC_ACT_OK, Some e) \<and> handle_event True e = None"
  by (rule tc_viewer_overread; code_simp)

end
