(* ===== verification/Tracers.thy ===== *)
theory Tracers
  imports Prelude
begin

text \<open>
  The small tracing programs under src/eBPF: the unlink tracer test.bpf.c, which remembers a file
  name at the entry of \<open>do_unlinkat\<close> and reports it at the exit, the open policy of
  lsm_control.bpf.c, the argument probe of uprobe_go.bpf.c and the send probe of
  kprobe_sendmsg.bpf.c. Helpers that copy strings deliver
  the C string cut to the room there is, always with a NUL.
\<close>

section \<open>The unlink tracer\<close>

definition INFOMAP_MAX :: nat where "INFOMAP_MAX = 10240"

text \<open>What hits a probe: process, thread, and the name or the result of the call; \<open>reserve\<close> says
  whether the ring buffer has room.\<close>

datatype probe =
    Entry (probe_pid: u32) (probe_tid: u32) "byte list option"
  | Leave (probe_pid: u32) (probe_tid: u32) int bool

record unlink_event =
  ue_pid :: u32
  ue_ret :: int
  ue_filename :: "byte list"

record unlink_state =
  infomap :: "u32 \<Rightarrow> byte list option"
  events :: "unlink_event list"

text \<open>\<open>bpf_probe_read_kernel_str\<close> into a field of \<open>n\<close> bytes: the string that is stored.\<close>

definition read_str :: "nat \<Rightarrow> byte list \<Rightarrow> byte list" where
  "read_str n str = take (n - 1) str"

definition map_update :: "u32 \<Rightarrow> byte list \<Rightarrow> (u32 \<Rightarrow> byte list option) \<Rightarrow> (u32 \<Rightarrow> byte list option)" where
  "map_update k v m = (if k \<in> dom m \<or> card (dom m) < INFOMAP_MAX then m(k \<mapsto> v) else m)"

definition do_unlinkat_entry :: "u32 \<Rightarrow> byte list option \<Rightarrow> unlink_state \<Rightarrow> unlink_state" where
  "do_unlinkat_entry pid name s =
     (case name of
        None \<Rightarrow> s
      | Some str \<Rightarrow> s\<lparr>infomap := map_update pid (read_str 256 str) (infomap s)\<rparr>)"

definition do_unlinkat_exit :: "u32 \<Rightarrow> int \<Rightarrow> bool \<Rightarrow> unlink_state \<Rightarrow> unlink_state" where
  "do_unlinkat_exit pid error reserve s =
     (case infomap s pid of
        None \<Rightarrow> s
      | Some cached \<Rightarrow>
          if \<not> reserve then s\<lparr>infomap := (infomap s)(pid := None)\<rparr>
          else s\<lparr>events := events s @ [\<lparr>ue_pid = pid, ue_ret = error, ue_filename = read_str 256 cached\<rparr>],
                 infomap := (infomap s)(pid := None)\<rparr>)"

fun trace :: "probe list \<Rightarrow> unlink_state \<Rightarrow> unlink_state" where
  "trace [] s = s"
| "trace (Entry pid tid name # ps) s = trace ps (do_unlinkat_entry pid name s)"
| "trace (Leave pid tid error reserve # ps) s = trace ps (do_unlinkat_exit pid error reserve s)"

text \<open>The reference: every thread remembers its own name.\<close>

fun ideal :: "probe list \<Rightarrow> (u32 \<times> u32 \<Rightarrow> byte list option) \<Rightarrow> unlink_event list" where
  "ideal [] m = []"
| "ideal (Entry pid tid name # ps) m =
     ideal ps (case name of None \<Rightarrow> m | Some str \<Rightarrow> m((pid, tid) \<mapsto> read_str 256 str))"
| "ideal (Leave pid tid error reserve # ps) m =
     (case m (pid, tid) of
        Some str \<Rightarrow> if reserve then [\<lparr>ue_pid = pid, ue_ret = error, ue_filename = str\<rparr>] else []
      | None \<Rightarrow> []) @ ideal ps (m((pid, tid) := None))"

text \<open>Traces in which at most one thread of a process is in the call at a time, and no more
  processes than the map has room for.\<close>

fun serial :: "(u32 \<Rightarrow> u32 option) \<Rightarrow> probe list \<Rightarrow> bool" where
  "serial inside [] \<longleftrightarrow> True"
| "serial inside (Entry pid tid name # ps) \<longleftrightarrow>
     inside pid = None \<and> card (dom inside) < INFOMAP_MAX \<and> serial (inside(pid \<mapsto> tid)) ps"
| "serial inside (Leave pid tid error reserve # ps) \<longleftrightarrow>
     inside pid = Some tid \<and> serial (inside(pid := None)) ps"

definition agree :: "(u32 \<Rightarrow> u32 option) \<Rightarrow> (u32 \<times> u32 \<Rightarrow> byte list option) \<Rightarrow> unlink_state \<Rightarrow> bool" where
  "agree inside m s \<longleftrightarrow>
     (\<forall>pid. infomap s pid = (case inside pid of None \<Rightarrow> None | Some tid \<Rightarrow> m (pid, tid))) \<and>
     (\<forall>pid tid. inside pid \<noteq> Some tid \<longrightarrow> m (pid, tid) = None) \<and>
     (\<forall>pid str. infomap s pid = Some str \<longrightarrow> length str < 256)"

lemma read_str_idem: "length str < 256 \<Longrightarrow> read_str 256 str = str"
  by (simp add: read_str_def)

lemma agree_dom: "agree inside m s \<Longrightarrow> dom (infomap s) \<subseteq> dom inside"
  by (auto simp: agree_def dom_def split: option.splits)

lemma finite_u32: "finite (A :: u32 set)"
  by simp

lemma agree_entry:
  assumes "agree inside m s" and "inside pid = None" and "card (dom inside) < INFOMAP_MAX"
  shows "agree (inside(pid \<mapsto> tid)) (case name of None \<Rightarrow> m | Some str \<Rightarrow> m((pid, tid) \<mapsto> read_str 256 str))
    (do_unlinkat_entry pid name s)"
proof -
  have "card (dom (infomap s)) \<le> card (dom inside)"
    using agree_dom [OF assms(1)] by (intro card_mono) simp_all
  with assms(3) have up: "map_update pid v (infomap s) = (infomap s)(pid \<mapsto> v)" for v
    by (simp add: map_update_def)
  have none: "m (pid, t) = None" for t using assms(1,2) by (simp add: agree_def)
  show ?thesis
  proof (cases name)
    case None
    then show ?thesis using assms none by (auto simp: agree_def do_unlinkat_entry_def split: option.splits)
  next
    case (Some str)
    then show ?thesis using assms none
      by (auto simp: agree_def do_unlinkat_entry_def up read_str_def split: option.splits)
  qed
qed

lemma trace_serial:
  "serial inside ps \<Longrightarrow> agree inside m s \<Longrightarrow> events (trace ps s) = events s @ ideal ps m"
proof (induction ps arbitrary: inside m s)
  case Nil
  then show ?case by simp
next
  case (Cons p ps)
  show ?case
  proof (cases p)
    case (Entry pid tid name)
    have a: "agree (inside(pid \<mapsto> tid)) (case name of None \<Rightarrow> m | Some str \<Rightarrow> m((pid, tid) \<mapsto> read_str 256 str))
        (do_unlinkat_entry pid name s)"
      using Cons.prems Entry by (intro agree_entry) simp_all
    have "serial (inside(pid \<mapsto> tid)) ps" using Cons.prems(1) Entry by simp
    from Cons.IH [OF this a] Entry show ?thesis
      by (auto simp: do_unlinkat_entry_def split: option.splits)
  next
    case (Leave pid tid error reserve)
    then have inside: "inside pid = Some tid" "serial (inside(pid := None)) ps" using Cons.prems(1) by auto
    have info: "infomap s pid = m (pid, tid)" using Cons.prems(2) inside(1) by (simp add: agree_def)
    have short: "m (pid, tid) = Some str \<Longrightarrow> read_str 256 str = str" for str
      using Cons.prems(2) info read_str_idem by (auto simp: agree_def)
    define m1 where "m1 = m((pid, tid) := None)"
    have "agree (inside(pid := None)) m1 (do_unlinkat_exit pid error reserve s)"
      using Cons.prems(2) inside(1)
      by (auto simp: m1_def agree_def do_unlinkat_exit_def split: option.splits)
    note ih = Cons.IH [OF inside(2) this]
    have "ideal (p # ps) m = (case m (pid, tid) of
        Some str \<Rightarrow> if reserve then [\<lparr>ue_pid = pid, ue_ret = error, ue_filename = str\<rparr>] else []
      | None \<Rightarrow> []) @ ideal ps m1" by (simp add: Leave m1_def)
    with ih Leave info short show ?thesis
      by (cases "m (pid, tid)") (simp_all add: do_unlinkat_exit_def)
  qed
qed

section \<open>The open policy\<close>

definition EPERM :: int where "EPERM = 1"

text \<open>\<open>str_equal\<close> reads both arguments byte by byte for the given length.\<close>

fun str_equal :: "byte list \<Rightarrow> byte list \<Rightarrow> nat \<Rightarrow> bool" where
  "str_equal a b 0 = True"
| "str_equal (x # xs) (y # ys) (Suc n) = (if x \<noteq> y then False else str_equal xs ys n)"
| "str_equal _ _ (Suc n) = False"

text \<open>\<open>lsm_file_open\<close>: \<open>name\<close> is the last component of the path, \<open>junk\<close> what the 128-byte buffer held.\<close>

definition lsm_file_open :: "byte list \<Rightarrow> byte list \<Rightarrow> int \<Rightarrow> int" where
  "lsm_file_open junk name ret =
     (if ret \<noteq> 0 then ret
      else let path = read_str 128 name @ [0] @ drop (length (read_str 128 name) + 1) junk in
        if str_equal path (bytes_of ''passwd'') 6 then - EPERM else 0)"

section \<open>The argument probe\<close>

text \<open>
  \<open>uprobe_fetch_stock\<close> of uprobe_go.bpf.c: the Go string argument is pointer and length in two registers.
  \<open>user_str a\<close> is the C string at user address \<open>a\<close> and \<open>read_user a n\<close> the \<open>n\<close> bytes there, \<open>None\<close> when they
  cannot be read, in which case the helpers clear the destination. \<open>reserved\<close> is the field of the
  record that \<open>bpf_ringbuf_reserve\<close> returned, with the 16 bytes it held before. The result is the
  record that is submitted and the line that is traced.
\<close>

record go_regs =
  ax :: u64
  bx :: u64
  cx :: u64

record fetch_event =
  fe_pid :: u32
  fe_stock_code :: "byte list"

definition uprobe_fetch_stock ::
  "(u64 \<Rightarrow> byte list option) \<Rightarrow> (u64 \<Rightarrow> nat \<Rightarrow> byte list option) \<Rightarrow> u32 \<Rightarrow> byte list option \<Rightarrow> go_regs \<Rightarrow>
     (fetch_event \<times> u32 \<times> byte list) option" where
  "uprobe_fetch_stock user_str read_user pid reserved regs =
     (let str_ptr = bx regs; str_len = cx regs in
      case reserved of
        None \<Rightarrow> None
      | Some stale \<Rightarrow>
          (let str_len = (if str_len > 15 then 15 else str_len);
               n = unat str_len;
               code_name = (case user_str str_ptr of None \<Rightarrow> [] | Some str \<Rightarrow> read_str 16 str);
               stored = (case read_user str_ptr n of None \<Rightarrow> replicate n 0 | Some bs \<Rightarrow> bs)
           in Some (\<lparr>fe_pid = pid, fe_stock_code = stored @ drop n stale\<rparr>, pid, code_name)))"

lemma unat_code_length: "unat (if w > 15 then 15 else (w :: u64)) = min 15 (unat w)"
  by (auto simp: word_less_nat_alt min_def)

lemma str_equal_iff: "str_equal a b n \<longleftrightarrow> n \<le> length a \<and> n \<le> length b \<and> take n a = take n b"
  by (induction a b n rule: str_equal.induct) auto

section \<open>Properties\<close>

definition no_calls :: unlink_state where
  "no_calls = \<lparr>infomap = Map.empty, events = []\<rparr>"

text \<open>Further: as long as at most one thread of each process is in \<open>do_unlinkat\<close>, the tracer reports
  exactly what a tracer with one entry per thread would report: every call that returns, with
  its own name (cut to 255 bytes) and result, in order of return, unless the ring buffer is
  full.\<close>

theorem unlink_tracer_serial:
  assumes "serial Map.empty ps"
  shows "events (trace ps no_calls) = ideal ps Map.empty"
  using trace_serial [OF assms, of Map.empty no_calls] by (simp add: agree_def no_calls_def)

theorem unlink_tracer_serial_witness:
  "events (trace [Entry 7 7 (Some [97]), Leave 7 7 0 True] no_calls) = [\<lparr>ue_pid = 7, ue_ret = 0, ue_filename = [97]\<rparr>]"
  using unlink_tracer_serial [of "[Entry 7 7 (Some [97]), Leave 7 7 0 True]"]
  by (simp add: INFOMAP_MAX_def read_str_def)

text \<open>The declared types of test.bpf.c: at most \<open>max_entries\<close> entries, and every name, cached or
  reported, a C string that fits \<open>char[256]\<close> with its terminator.\<close>

definition fits_name :: "byte list \<Rightarrow> bool" where
  "fits_name str \<longleftrightarrow> length str < 256 \<and> 0 \<notin> set str"

definition unlink_typed :: "unlink_state \<Rightarrow> bool" where
  "unlink_typed s \<longleftrightarrow> card (dom (infomap s)) \<le> INFOMAP_MAX \<and>
     (\<forall>str \<in> ran (infomap s). fits_name str) \<and> (\<forall>e \<in> set (events s). fits_name (ue_filename e))"

lemma fits_read_str: "0 \<notin> set str \<Longrightarrow> fits_name (read_str 256 str)"
  by (auto simp: fits_name_def read_str_def dest: in_set_takeD)

lemma card_map_update: "card (dom m) \<le> INFOMAP_MAX \<Longrightarrow> card (dom (map_update k v m)) \<le> INFOMAP_MAX"
  by (auto simp: map_update_def card_insert_if)

lemma ran_map_update: "ran (map_update k v m) \<subseteq> insert v (ran m)"
  by (auto simp: map_update_def ran_def)

lemma entry_typed:
  "unlink_typed s \<Longrightarrow> (\<And>str. name = Some str \<Longrightarrow> 0 \<notin> set str) \<Longrightarrow> unlink_typed (do_unlinkat_entry pid name s)"
  using card_map_update ran_map_update fits_read_str
  by (fastforce simp: unlink_typed_def do_unlinkat_entry_def split: option.splits)

lemma exit_typed:
  assumes "unlink_typed s"
  shows "unlink_typed (do_unlinkat_exit pid error reserve s)"
proof -
  have "card (dom ((infomap s)(pid := None))) \<le> INFOMAP_MAX"
    using assms card_Diff1_le [of "dom (infomap s)" pid] by (simp add: unlink_typed_def)
  moreover have "ran ((infomap s)(pid := None)) \<subseteq> ran (infomap s)" by (auto simp: ran_def)
  ultimately have base: "unlink_typed (s\<lparr>infomap := (infomap s)(pid := None)\<rparr>)"
    using assms by (auto simp: unlink_typed_def)
  show ?thesis
  proof (cases "infomap s pid")
    case (Some str)
    then have "fits_name str" using assms by (auto simp: unlink_typed_def ran_def)
    then have "fits_name (read_str 256 str)" by (intro fits_read_str) (simp add: fits_name_def)
    then show ?thesis using base Some by (simp add: do_unlinkat_exit_def unlink_typed_def)
  qed (use assms in \<open>simp add: do_unlinkat_exit_def\<close>)
qed

lemma no_calls_typed: "unlink_typed no_calls"
  by (simp add: no_calls_def unlink_typed_def)

text \<open>Further: the maps and records of test.bpf.c keep their declared types in every run, whatever
  processes and threads overlap: the map never exceeds its 10240 entries, and every cached or
  reported name is a terminated string within its 256 bytes. The reader can print it.\<close>

theorem unlink_state_typed:
  assumes "\<forall>pid tid str. Entry pid tid (Some str) \<in> set ps \<longrightarrow> 0 \<notin> set str"
  shows "unlink_typed (trace ps no_calls)"
proof -
  have "unlink_typed s \<Longrightarrow> unlink_typed (trace ps s)" for s
    using assms
  proof (induction ps arbitrary: s)
    case (Cons p ps)
    have rest: "\<forall>pid tid str. Entry pid tid (Some str) \<in> set ps \<longrightarrow> 0 \<notin> set str" using Cons.prems(2) by simp
    show ?case
    proof (cases p)
      case (Entry pid tid name)
      have "unlink_typed (do_unlinkat_entry pid name s)"
        using Cons.prems Entry by (intro entry_typed) simp_all
      then show ?thesis using Cons.IH rest Entry by simp
    next
      case (Leave pid tid error reserve)
      then show ?thesis using Cons.IH [OF exit_typed [OF Cons.prems(1)] rest] by simp
    qed
  qed simp
  then show ?thesis using no_calls_typed by blast
qed

theorem unlink_state_typed_witness:
  "unlink_typed (trace [Entry 7 7 (Some (replicate 300 97)), Leave 7 7 0 True] no_calls)"
  using unlink_state_typed [of "[Entry 7 7 (Some (replicate 300 97)), Leave 7 7 0 True]"] by simp

text \<open>The probes of a process that touch its entry, and what such a probe leaves in it.\<close>

definition touches :: "u32 \<Rightarrow> probe \<Rightarrow> bool" where
  "touches pid p \<longleftrightarrow> probe_pid p = pid \<and> (\<forall>tid. p \<noteq> Entry pid tid None)"

definition leaves_entry :: "probe \<Rightarrow> byte list option" where
  "leaves_entry p = (case p of Leave _ _ error reserve \<Rightarrow> None | Entry _ _ name \<Rightarrow> map_option (take 255) name)"

definition entry_after :: "u32 \<Rightarrow> probe list \<Rightarrow> byte list option" where
  "entry_after pid ps = (let qs = filter (touches pid) ps in if qs = [] then None else leaves_entry (last qs))"

lemma entry_after_snoc:
  "entry_after pid (ps @ [p]) = (if touches pid p then leaves_entry p else entry_after pid ps)"
  by (simp add: entry_after_def)

lemma entry_after_processes: "dom (\<lambda>pid. entry_after pid ps) \<subseteq> probe_pid ` set ps"
  by (auto simp: entry_after_def touches_def Let_def filter_empty_conv split: if_splits)

lemma trace_snoc:
  "trace (ps @ [p]) s = (case p of Entry pid tid name \<Rightarrow> do_unlinkat_entry pid name (trace ps s)
     | Leave pid tid error reserve \<Rightarrow> do_unlinkat_exit pid error reserve (trace ps s))"
  by (induction ps s rule: trace.induct) (simp_all split: probe.splits)

lemma map_follows:
  assumes "card (probe_pid ` set ps) \<le> INFOMAP_MAX"
  shows "infomap (trace ps no_calls) = (\<lambda>pid. entry_after pid ps)"
  using assms
proof (induction ps rule: rev_induct)
  case Nil
  then show ?case by (simp add: no_calls_def entry_after_def)
next
  case (snoc p ps)
  have card: "card (insert (probe_pid p) (probe_pid ` set ps)) \<le> INFOMAP_MAX" using snoc.prems by simp
  then have IH: "infomap (trace ps no_calls) = (\<lambda>pid. entry_after pid ps)"
    using snoc.IH card_insert_le [of "probe_pid ` set ps" "probe_pid p"] by simp
  show ?case
  proof (cases p)
    case (Entry pid tid name)
    let ?d = "dom (\<lambda>pid. entry_after pid ps)"
    have room: "pid \<in> ?d \<or> card ?d < INFOMAP_MAX"
    proof (rule disjCI)
      assume "\<not> card ?d < INFOMAP_MAX"
      with card have "card (insert pid (probe_pid ` set ps)) \<le> card ?d" using Entry by simp
      moreover have "?d \<subseteq> insert pid (probe_pid ` set ps)" using entry_after_processes by blast
      ultimately have "?d = insert pid (probe_pid ` set ps)" by (intro card_seteq) simp_all
      then show "pid \<in> ?d" by blast
    qed
    then have "map_update pid v (\<lambda>pid. entry_after pid ps) = (\<lambda>pid. entry_after pid ps)(pid \<mapsto> v)" for v
      by (auto simp: map_update_def)
    with IH have "infomap (trace (ps @ [p]) no_calls) =
        (case name of None \<Rightarrow> \<lambda>pid. entry_after pid ps | Some str \<Rightarrow> (\<lambda>pid. entry_after pid ps)(pid \<mapsto> take 255 str))"
      by (simp add: Entry trace_snoc do_unlinkat_entry_def read_str_def split: option.splits)
    then show ?thesis
      by (auto simp: Entry entry_after_snoc touches_def leaves_entry_def fun_eq_iff split: option.splits)
  next
    case (Leave pid tid error reserve)
    then show ?thesis using IH
      by (auto simp: trace_snoc do_unlinkat_exit_def entry_after_snoc touches_def leaves_entry_def fun_eq_iff split: option.splits)
  qed
qed

text \<open>Claim C39: the map of the unlink tracer follows the calls. In every run, however the calls of threads
  and processes overlap and whether or not the ring buffer has room, as long as no more than 10240
  processes are seen, the map has an entry for a process exactly when the last probe of that process
  with anything to record was the entry of a call, and the entry is the name of that call cut to
  255 bytes. So an entry is gone after the return of a call, reported or not, and none is left over
  or filed under another process.\<close>

theorem unlink_map_follows_calls:
  assumes "card (probe_pid ` set ps) \<le> INFOMAP_MAX"
  shows "infomap (trace ps no_calls) pid =
    (let qs = filter (\<lambda>p. probe_pid p = pid \<and> (\<forall>tid. p \<noteq> Entry pid tid None)) ps
     in if qs = [] then None
        else case last qs of Leave _ _ error reserve \<Rightarrow> None | Entry _ _ name \<Rightarrow> map_option (take 255) name)"
  unfolding map_follows [OF assms] entry_after_def leaves_entry_def touches_def ..

theorem unlink_map_follows_calls_witness:
  "infomap (trace [Entry 7 7 (Some [97]), Entry 8 8 (Some [98]), Leave 7 7 0 False] no_calls) 7 = None \<and>
   infomap (trace [Entry 7 7 (Some [97]), Entry 8 8 (Some [98]), Leave 7 7 0 False] no_calls) 8 = Some [98]"
proof -
  let ?ps = "[Entry 7 7 (Some [97]), Entry 8 8 (Some [98]), Leave 7 7 0 False]"
  have "card (probe_pid ` set ?ps) \<le> INFOMAP_MAX" by (simp add: INFOMAP_MAX_def card_insert_if)
  from unlink_map_follows_calls [OF this, of 7] unlink_map_follows_calls [OF this, of 8] show ?thesis
    by (simp del: trace.simps)
qed

text \<open>Further: the entries are keyed by process, not by thread. When two threads of a process
  overlap, the name of the first is lost: the call that returns first is reported with the name
  of the other, and the other call is not reported at all.\<close>

theorem unlink_tracer_mixes_threads:
  assumes "length a < 256" and "length b < 256" and "t1 \<noteq> t2"
  shows "events (trace [Entry pid t1 (Some a), Entry pid t2 (Some b), Leave pid t1 r1 True,
      Leave pid t2 r2 True] no_calls) = [\<lparr>ue_pid = pid, ue_ret = r1, ue_filename = b\<rparr>] \<and>
    ideal [Entry pid t1 (Some a), Entry pid t2 (Some b), Leave pid t1 r1 True, Leave pid t2 r2 True] Map.empty =
      [\<lparr>ue_pid = pid, ue_ret = r1, ue_filename = a\<rparr>, \<lparr>ue_pid = pid, ue_ret = r2, ue_filename = b\<rparr>]"
  using assms
  by (simp add: no_calls_def do_unlinkat_entry_def do_unlinkat_exit_def map_update_def INFOMAP_MAX_def
      read_str_idem)

theorem unlink_tracer_mixes_threads_witness:
  "events (trace [Entry 7 7 (Some [97]), Entry 7 8 (Some [98]), Leave 7 7 0 True, Leave 7 8 (-2) True]
     no_calls) = [\<lparr>ue_pid = 7, ue_ret = 0, ue_filename = [98]\<rparr>]"
  using unlink_tracer_mixes_threads [of "[97]" "[98]" 7 8 7 0 "-2"] by simp

text \<open>Further: the open policy denies exactly the files whose name begins with \<open>passwd\<close>, in any
  directory and with anything behind, independently of what its buffer held; an earlier
  refusal stands.\<close>

theorem lsm_denies_prefix:
  assumes "0 \<notin> set name"
  shows "lsm_file_open junk name ret =
    (if ret \<noteq> 0 then ret else if take 6 name = bytes_of ''passwd'' then -1 else 0)"
proof -
  let ?s = "read_str 128 name" and ?pw = "bytes_of ''passwd''"
  let ?path = "?s @ [0] @ drop (length ?s + 1) junk"
  have pw: "length ?pw = 6" "take 6 ?pw = ?pw" "0 \<notin> set ?pw" by (simp_all add: bytes_of_def)
  have "take 6 ?s = take 6 name" by (simp add: read_str_def)
  have "str_equal ?path ?pw 6 \<longleftrightarrow> take 6 name = ?pw"
  proof (cases "6 \<le> length ?s")
    case True
    then show ?thesis using pw \<open>take 6 ?s = take 6 name\<close> by (simp add: str_equal_iff)
  next
    case False
    then have z: "0 \<in> set (take 6 ?path)" by (cases "6 - length ?s") auto
    have "\<not> str_equal ?path ?pw 6"
    proof
      assume "str_equal ?path ?pw 6"
      then have "take 6 ?path = ?pw" unfolding str_equal_iff pw(2) by blast
      with z pw(3) show False by (simp only:)
    qed
    moreover have "length name < 6" using False by (simp add: read_str_def)
    then have "take 6 name \<noteq> ?pw" using pw(1) by auto
    ultimately show ?thesis by blast
  qed
  then show ?thesis by (simp add: lsm_file_open_def Let_def EPERM_def)
qed

theorem lsm_denies_prefix_witness:
  "lsm_file_open (replicate 128 7) (bytes_of ''passwd.bak'') 0 = -1"
  using lsm_denies_prefix [of "bytes_of ''passwd.bak''" "replicate 128 7" 0] by (simp add: bytes_of_def)

text \<open>Further: the record of the argument probe is not cleared. It is submitted exactly when the ring
  buffer has room, carries the first 15 bytes of the code followed by what the ring buffer held,
  and the string a reader finds is the code only if the next byte happens to be NUL. The line it
  traces does not stop at the length of the Go string, which has no NUL at its end.\<close>

theorem uprobe_submits_stale_bytes:
  assumes "read_user (bx regs) n = Some code" and "n = min 15 (unat (cx regs))" and "length code = n"
    and "length stale = 16" and "0 \<notin> set code" and "user_str (bx regs) = Some (code @ behind)"
  shows "\<exists>e. uprobe_fetch_stock user_str read_user pid (Some stale) regs = Some (e, pid, read_str 16 (code @ behind)) \<and>
    fe_stock_code e = code @ drop n stale \<and> (cstr (fe_stock_code e) = Some code \<longleftrightarrow> stale ! n = 0) \<and>
    uprobe_fetch_stock user_str read_user pid None regs = None"
proof -
  have "n < length stale" using assms(2,4) by simp
  then obtain x xs where d: "drop n stale = x # xs" "stale ! n = x" using Cons_nth_drop_Suc by metis
  have "takeWhile (\<lambda>c. c \<noteq> 0) (code @ x # xs) = code @ takeWhile (\<lambda>c. c \<noteq> 0) (x # xs)"
    using assms(5) by (intro takeWhile_append2) auto
  then have "cstr (code @ drop n stale) = Some code \<longleftrightarrow> stale ! n = 0" using d assms(5) by (auto simp: cstr_def)
  then show ?thesis using assms(1,2,6) by (simp add: uprobe_fetch_stock_def Let_def unat_code_length)
qed

section \<open>The send probe\<close>

text \<open>
  \<open>tcp_sendmsg\<close> of kprobe_sendmsg.bpf.c. \<open>iov\<close> is what the message header points to (\<open>None\<close> for NULL):
  base and length of the first vector. \<open>read_user a n\<close> is the helper \<open>bpf_probe_read_user\<close>: the
  \<open>n\<close> bytes at user address \<open>a\<close>, or \<open>None\<close> when they cannot be read, in which case the helper clears the
  destination. The result is the traced line, if there is one. The type of the iterator is read
  and not looked at.
\<close>

definition tcp_sendmsg ::
  "(u64 \<Rightarrow> nat \<Rightarrow> byte list option) \<Rightarrow> u64 \<Rightarrow> (u64 \<times> u64) option \<Rightarrow> (u64 \<times> byte list option) option" where
  "tcp_sendmsg read_user pid_tgid iov =
     (case iov of
        None \<Rightarrow> None
      | Some (base, iov_len) \<Rightarrow>
          if base \<noteq> 0 \<and> iov_len > 0
          then let payload = (case read_user base 255 of Some bs \<Rightarrow> bs @ [0] | None \<Rightarrow> replicate 256 0)
            in Some (drop_bit 32 pid_tgid, cstr payload)
          else None)"

text \<open>Further: the send probe never reads past its own buffer: it prints, for every send with a
  non-empty first vector, what the first 255 bytes at its base hold up to a NUL. How long the
  vector is makes no difference, so that of a message of fewer bytes without a NUL it prints also
  what follows it in the sender's memory.\<close>

theorem send_probe_ignores_length:
  assumes "base \<noteq> 0" and "0 < len" and "read_user base 255 = Some (msg @ rest)" and "0 \<notin> set msg"
    and "rest \<noteq> []"
  shows "tcp_sendmsg read_user pt (Some (base, len)) =
      Some (drop_bit 32 pt, Some (msg @ takeWhile (\<lambda>b. b \<noteq> 0) rest)) \<and>
    (hd rest \<noteq> 0 \<longrightarrow> (\<exists>b more. tcp_sendmsg read_user pt (Some (base, len)) =
       Some (drop_bit 32 pt, Some (msg @ b # more))))"
proof -
  have "takeWhile (\<lambda>b. b \<noteq> 0) (rest @ [0]) = takeWhile (\<lambda>b. b \<noteq> 0) rest" by (induction rest) auto
  moreover have "\<And>x. x \<in> set msg \<Longrightarrow> x \<noteq> 0" using assms(4) by auto
  ultimately have "takeWhile (\<lambda>b. b \<noteq> 0) ((msg @ rest) @ [0]) = msg @ takeWhile (\<lambda>b. b \<noteq> 0) rest"
    by (simp add: takeWhile_append2)
  then have eq: "tcp_sendmsg read_user pt (Some (base, len)) =
      Some (drop_bit 32 pt, Some (msg @ takeWhile (\<lambda>b. b \<noteq> 0) rest))"
    using assms(1-3) by (simp add: tcp_sendmsg_def cstr_def)
  then show ?thesis using assms(5) by (cases rest) simp_all
qed

theorem send_probe_ignores_length_witness:
  "tcp_sendmsg (\<lambda>a n. Some (replicate n 65)) 0x700000009 (Some (4096, 1)) = Some (7, Some (replicate 255 65))"
proof -
  have "Some (replicate 255 (65 :: byte)) = Some ([65] @ replicate 254 65)" by (simp flip: replicate_Suc)
  then have "tcp_sendmsg (\<lambda>a n. Some (replicate n 65)) 0x700000009 (Some (4096, 1)) =
      Some (drop_bit 32 0x700000009, Some ([65] @ takeWhile (\<lambda>b. b \<noteq> 0) (replicate 254 65)))"
    using send_probe_ignores_length [of 4096 1 "\<lambda>a n. Some (replicate n 65)" "[65]" "replicate 254 65" "0x700000009"]
    by simp
  then show ?thesis by (simp add: takeWhile_replicate flip: replicate_Suc)
qed

end
