(* ===== verification/Loaders.thy ===== *)
theory Loaders
  imports Http_Viewer Tracers "HOL-Library.Multiset"
begin

text \<open>
  The user-space programs under src/eBPF that load the probes and taps: test.c, lsm_control.c,
  kprobe_sendmsg.c, uprobe_go.c, tc_trace.c and xdp.c, each from \<open>main\<close> to its return. The
  skeletons (generated by the build) and libbpf are parameters, collected in a record of calls;
  what the programs rely on is the locale \<open>bpf_system\<close>, stated over the multiset of objects that
  are open or attached.

  A run is the outside world, the messages on the terminal and the lines printed for events. A
  program that never returns is \<open>None\<close>; \<open>Exit\<close> carries the exit status, which is \<open>None\<close> when
  the variable \<open>err\<close> was never assigned; \<open>Undefined\<close> is a run that uses a NULL ring buffer or
  reads past an event record.
\<close>

section \<open>libbpf\<close>

type_synonym ptr = u64

text \<open>A link made by a skeleton belongs to it; a queueing discipline, a filter and an XDP program
  that was attached without a link belong to the interface.\<close>

datatype bobj =
    Skel ptr
  | Link ptr
  | Xdp_link ptr nat
  | Ring ptr
  | Clsact nat
  | Filter nat nat nat
  | Xdp_prog nat

fun owner :: "bobj \<Rightarrow> ptr option" where
  "owner (Skel p) = Some p"
| "owner (Link p) = Some p"
| "owner (Xdp_link p i) = Some p"
| "owner _ = None"

fun filter_of :: "nat \<Rightarrow> bobj \<Rightarrow> bool" where
  "filter_of i (Filter j h p) \<longleftrightarrow> i = j"
| "filter_of i _ \<longleftrightarrow> False"

fun link_on :: "nat \<Rightarrow> bobj \<Rightarrow> bool" where
  "link_on i (Xdp_link p j) \<longleftrightarrow> i = j"
| "link_on i _ \<longleftrightarrow> False"

record ('s, 'e) bpf_api =
  bpf_open :: "'s \<Rightarrow> ptr \<times> 's"
  bpf_load :: "ptr \<Rightarrow> 's \<Rightarrow> int \<times> 's"
  bpf_open_and_load :: "'s \<Rightarrow> ptr \<times> 's"
  bpf_attach :: "ptr \<Rightarrow> 's \<Rightarrow> int \<times> 's"
  bpf_destroy :: "ptr \<Rightarrow> 's \<Rightarrow> 's"
  attach_uprobe_opts :: "ptr \<Rightarrow> string \<Rightarrow> string \<Rightarrow> 's \<Rightarrow> ptr \<times> 's"
  attach_xdp :: "ptr \<Rightarrow> nat \<Rightarrow> 's \<Rightarrow> ptr \<times> 's"
  bpf_xdp_detach :: "nat \<Rightarrow> 's \<Rightarrow> 's"
  bpf_tc_hook_create :: "nat \<Rightarrow> 's \<Rightarrow> int \<times> 's"
  bpf_tc_hook_destroy :: "nat \<Rightarrow> 's \<Rightarrow> 's"
  bpf_tc_attach :: "nat \<Rightarrow> nat \<Rightarrow> nat \<Rightarrow> 's \<Rightarrow> int \<times> 's"
  bpf_tc_detach :: "nat \<Rightarrow> nat \<Rightarrow> nat \<Rightarrow> 's \<Rightarrow> int \<times> 's"
  ring_buffer_new :: "ptr \<Rightarrow> 's \<Rightarrow> ptr \<times> 's"
  ring_buffer_poll :: "ptr \<Rightarrow> 's \<Rightarrow> 'e list \<times> 's"
  ring_buffer_free :: "ptr \<Rightarrow> 's \<Rightarrow> 's"
  if_nametoindex :: "string \<Rightarrow> 's \<Rightarrow> nat"
  signal_sigint :: "'s \<Rightarrow> bool \<times> 's"
  errno :: "'s \<Rightarrow> int"

text \<open>
  What the libbpf calls promise: a failing call leaves nothing behind, except that a failing
  attach may leave links, which the skeleton owns; destroying a skeleton removes what it owns
  and nothing else, and is a no-op on NULL, as freeing a NULL ring buffer is. Destroying the hook
  of one direction removes the filters of that direction and keeps the queueing discipline.
  Detaching an XDP program without naming the old one removes whatever program the interface
  has, but is refused while a link holds the interface.
\<close>

locale bpf_system =
  fixes api :: "('s, 'e) bpf_api" and held :: "'s \<Rightarrow> bobj multiset"
  assumes open_ok: "bpf_open api s = (p, s') \<Longrightarrow>
      held s' = held s + (if p = 0 then {#} else {#Skel p#}) \<and>
      (p \<noteq> 0 \<longrightarrow> (\<forall>x \<in># held s. owner x \<noteq> Some p))"
    and load_ok: "bpf_load api p s = (err, s') \<Longrightarrow> held s' = held s \<and> err \<le> 0"
    and open_and_load_ok: "bpf_open_and_load api s = (p, s') \<Longrightarrow>
      held s' = held s + (if p = 0 then {#} else {#Skel p#}) \<and>
      (p \<noteq> 0 \<longrightarrow> (\<forall>x \<in># held s. owner x \<noteq> Some p))"
    and attach_ok: "bpf_attach api p s = (err, s') \<Longrightarrow>
      (\<exists>n. held s' = held s + replicate_mset n (Link p)) \<and> err \<le> 0"
    and destroy_ok: "held (bpf_destroy api p s) =
      (if p = 0 then held s else filter_mset (\<lambda>x. owner x \<noteq> Some p) (held s))"
    and uprobe_ok: "attach_uprobe_opts api p path func s = (l, s') \<Longrightarrow>
      held s' = held s + (if l = 0 then {#} else {#Link p#})"
    and xdp_ok: "attach_xdp api p i s = (l, s') \<Longrightarrow>
      held s' = held s + (if l = 0 then {#} else {#Xdp_link p i#}) \<and> (l = 0 \<longrightarrow> 0 < errno api s')"
    and xdp_detach_ok: "held (bpf_xdp_detach api i s) =
      (if \<exists>x \<in># held s. link_on i x then held s else filter_mset (\<lambda>x. x \<noteq> Xdp_prog i) (held s))"
    and hook_create_ok: "bpf_tc_hook_create api i s = (err, s') \<Longrightarrow>
      held s' = held s + (if err = 0 then {#Clsact i#} else {#}) \<and> err \<le> 0 \<and>
      (err = 0 \<longrightarrow> (\<forall>x \<in># held s. \<not> filter_of i x))"
    and hook_destroy_ok: "held (bpf_tc_hook_destroy api i s) =
      filter_mset (\<lambda>x. \<not> filter_of i x) (held s)"
    and tc_attach_ok: "bpf_tc_attach api i h pr s = (err, s') \<Longrightarrow>
      held s' = held s + (if err = 0 then {#Filter i h pr#} else {#}) \<and> err \<le> 0"
    and tc_detach_ok: "bpf_tc_detach api i h pr s = (err, s') \<Longrightarrow>
      held s' = held s - (if err = 0 then {#Filter i h pr#} else {#}) \<and> err \<le> 0"
    and ring_new_ok: "ring_buffer_new api p s = (r, s') \<Longrightarrow>
      held s' = held s + (if r = 0 then {#} else {#Ring r#})"
    and ring_poll_ok: "ring_buffer_poll api r s = (evs, s') \<Longrightarrow> held s' = held s"
    and ring_free_ok: "held (ring_buffer_free api r s) = held s - (if r = 0 then {#} else {#Ring r#})"
    and signal_ok: "signal_sigint api s = (ok, s') \<Longrightarrow> held s' = held s \<and> (\<not> ok \<longrightarrow> 0 < errno api s')"

section \<open>Runs\<close>

datatype message =
    Open_failed | Load_failed | Attach_failed | Uprobe_failed | Signal_failed int
  | Bad_interface string | Hook_failed int | Tc_attach_failed int | Xdp_failed int
  | Ring_failed | Detach_failed int
  | Started | Watching string | Taken_over "string option" | Dot

definition complaint :: "message \<Rightarrow> bool" where
  "complaint m \<longleftrightarrow> (case m of Started \<Rightarrow> False | Watching n \<Rightarrow> False | Taken_over n \<Rightarrow> False | Dot \<Rightarrow> False
     | _ \<Rightarrow> True)"

record ('s, 'l) run =
  world :: 's
  messages :: "message list"
  printed :: "'l list"

datatype ('s, 'l) outcome = Exit "int option" "('s, 'l) run" | Undefined "('s, 'l) run"

definition start :: "'s \<Rightarrow> ('s, 'l) run" where
  "start s = \<lparr>world = s, messages = [], printed = []\<rparr>"

definition say :: "message \<Rightarrow> ('s, 'l) run \<Rightarrow> ('s, 'l) run" where
  "say m r = r\<lparr>messages := messages r @ [m]\<rparr>"

text \<open>A call into the outside world, with and without a result.\<close>

definition call :: "('s \<Rightarrow> 'a \<times> 's) \<Rightarrow> ('s, 'l) run \<Rightarrow> 'a \<times> ('s, 'l) run" where
  "call f r = (case f (world r) of (x, s) \<Rightarrow> (x, r\<lparr>world := s\<rparr>))"

definition exec :: "('s \<Rightarrow> 's) \<Rightarrow> ('s, 'l) run \<Rightarrow> ('s, 'l) run" where
  "exec f r = r\<lparr>world := f (world r)\<rparr>"

text \<open>One poll of the ring buffer: the callback runs on every record that is there; it is
  \<open>None\<close> when it would read past the record. Polling a NULL ring buffer follows the pointer.\<close>

definition poll_round :: "('s, 'e) bpf_api \<Rightarrow> ('e \<Rightarrow> 'l list option) \<Rightarrow> ptr \<Rightarrow>
    ('s, 'l) run \<Rightarrow> ('s, 'l) run option" where
  "poll_round api callback rb r =
     (if rb = 0 then None
      else let (evs, r) = call (ring_buffer_poll api rb) r
        in case those (map callback evs) of
             None \<Rightarrow> None
           | Some ls \<Rightarrow> Some (r\<lparr>printed := printed r @ concat ls\<rparr>))"

text \<open>\<open>while (1)\<close>: the loop is left only by undefined behaviour.\<close>

partial_function (option) forever :: "('r \<Rightarrow> 'r option) \<Rightarrow> 'r \<Rightarrow> 'r option" where
  "forever body r = (case body r of None \<Rightarrow> Some r | Some r' \<Rightarrow> forever body r')"

text \<open>The handler of SIGINT and \<open>while (!stop)\<close>: \<open>arrives k\<close> says that the signal comes before
  the \<open>k\<close>-th test of the flag.\<close>

definition sig_int :: "int \<Rightarrow> int" where
  "sig_int stop = 1"

partial_function (option) while_not_stopped ::
    "(nat \<Rightarrow> bool) \<Rightarrow> ('r \<Rightarrow> 'r option) \<Rightarrow> nat \<Rightarrow> int \<Rightarrow> 'r \<Rightarrow> (bool \<times> 'r) option" where
  "while_not_stopped arrives body k stop r =
     (let stop = (if arrives k then sig_int stop else stop)
      in if stop \<noteq> 0 then Some (True, r)
         else case body r of
                None \<Rightarrow> Some (False, r)
              | Some r' \<Rightarrow> while_not_stopped arrives body (Suc k) stop r')"

definition negated :: "int option \<Rightarrow> int option" where
  "negated err = map_option uminus err"

section \<open>The programs\<close>

text \<open>test.c and uprobe_go.c: the line of an event is the process and the C string of its
  name or code.\<close>

definition unlink_line :: "unlink_event \<Rightarrow> (int \<times> byte list) list option" where
  "unlink_line e = Some [(sint (ue_pid e), ue_filename e)]"

definition fetch_line :: "fetch_event \<Rightarrow> (int \<times> byte list) list option" where
  "fetch_line e = map_option (\<lambda>code. [(sint (fe_pid e), code)]) (cstr (fe_stock_code e))"

text \<open>tc_trace.c and xdp.c: the report of Http\_Viewer, or nothing.\<close>

definition http_line :: "bool \<Rightarrow> http_event \<Rightarrow> shown list option" where
  "http_line src_last e = map_option (\<lambda>v. case v of None \<Rightarrow> [] | Some v \<Rightarrow> [v]) (handle_event src_last e)"

definition poll_forever :: "('s, 'e) bpf_api \<Rightarrow> ('e \<Rightarrow> 'l list option) \<Rightarrow> ptr \<Rightarrow>
    ('s, 'l) run \<Rightarrow> ('s, 'l) outcome option" where
  "poll_forever api callback rb r = map_option Undefined (forever (poll_round api callback rb) r)"

definition test_main :: "('s, unlink_event) bpf_api \<Rightarrow> 's \<Rightarrow> ('s, int \<times> byte list) outcome option" where
  "test_main api s =
     (let (skel, r) = call (bpf_open api) (start s)
      in if skel = 0 then Some (Exit (Some 1) (say Open_failed r))
         else let (err, r) = call (bpf_load api skel) r
           in if err \<noteq> 0
              then Some (Exit (negated (Some err)) (exec (bpf_destroy api skel) (say Load_failed r)))
              else let (err, r) = call (bpf_attach api skel) r
                in if err \<noteq> 0
                   then Some (Exit (negated (Some err)) (exec (bpf_destroy api skel) (say Attach_failed r)))
                   else let (rb, r) = call (ring_buffer_new api skel) (say Started r)
                     in poll_forever api unlink_line rb r)"

definition lsm_control_main :: "('s, 'e) bpf_api \<Rightarrow> 's \<Rightarrow> ('s, unit) outcome option" where
  "lsm_control_main api s =
     (let err = None; (skel, r) = call (bpf_open_and_load api) (start s)
      in if skel = 0 then Some (Exit (negated err) (exec (bpf_destroy api skel) (say Open_failed r)))
         else let (err, r) = call (bpf_attach api skel) r
           in if err \<noteq> 0
              then Some (Exit (negated (Some err)) (exec (bpf_destroy api skel) (say Attach_failed r)))
              else map_option Undefined (forever (\<lambda>r. Some (say Dot r)) (say Started r)))"

definition kprobe_sendmsg_main :: "('s, 'e) bpf_api \<Rightarrow> (nat \<Rightarrow> bool) \<Rightarrow> 's \<Rightarrow>
    ('s, unit) outcome option" where
  "kprobe_sendmsg_main api arrives s =
     (let (skel, r) = call (bpf_open_and_load api) (start s)
      in if skel = 0 then Some (Exit (Some 1) (say Open_failed r))
         else let (err, r) = call (bpf_attach api skel) r;
                  cleanup = (\<lambda>r. Exit (negated (Some err)) (exec (bpf_destroy api skel) r))
           in if err \<noteq> 0 then Some (cleanup (say Attach_failed r))
              else let (ok, r) = call (signal_sigint api) r
                in if \<not> ok then Some (cleanup (say (Signal_failed (errno api (world r))) r))
                   else map_option (\<lambda>(stopped, r). if stopped then cleanup r else Undefined r)
                     (while_not_stopped arrives (\<lambda>r. Some (say Dot r)) 0 0 (say Started r)))"

definition uprobe_go_main :: "('s, fetch_event) bpf_api \<Rightarrow> 's \<Rightarrow> ('s, int \<times> byte list) outcome option" where
  "uprobe_go_main api s =
     (let (skel, r) = call (bpf_open api) (start s)
      in if skel = 0 then Some (Exit (Some 1) (say Open_failed r))
         else let (err, r) = call (bpf_load api skel) r;
                  cleanup = (\<lambda>r. Exit (negated (Some err)) (exec (bpf_destroy api skel) r))
           in if err \<noteq> 0 then Some (cleanup (say Load_failed r))
              else let (link, r) = call (attach_uprobe_opts api skel ''/home/sunder/bin/go/fetch''
                                            ''main.FetchStock'') r
                in if link = 0 then Some (cleanup (say Uprobe_failed r))
                   else let (rb, r) = call (ring_buffer_new api skel) (say Started r)
                     in poll_forever api fetch_line rb r)"

definition EEXIST :: int where "EEXIST = 17"

definition ifname_of :: "string list \<Rightarrow> string" where
  "ifname_of argv = (if length argv > 1 then argv ! 1 else ''lo'')"

definition tc_cleanup :: "('s, 'e) bpf_api \<Rightarrow> nat \<Rightarrow> bool \<Rightarrow> ptr \<Rightarrow> ptr \<Rightarrow> int \<Rightarrow>
    ('s, 'l) run \<Rightarrow> ('s, 'l) outcome" where
  "tc_cleanup api i hook_created rb skel err r =
     (let r = (if hook_created then exec (bpf_tc_hook_destroy api i) r else r);
          r = exec (ring_buffer_free api rb) r;
          r = exec (bpf_destroy api skel) r
      in Exit (negated (Some err)) r)"

text \<open>From the ring buffer on: the loop runs until SIGINT, then the filter is detached.\<close>

definition tc_watch :: "('s, http_event) bpf_api \<Rightarrow> bool \<Rightarrow> (nat \<Rightarrow> bool) \<Rightarrow> string \<Rightarrow> nat \<Rightarrow> bool \<Rightarrow> ptr \<Rightarrow>
    int \<Rightarrow> ('s, shown) run \<Rightarrow> ('s, shown) outcome option" where
  "tc_watch api src_last arrives ifname i hook_created skel err r =
     (let (rb, r) = call (ring_buffer_new api skel) r
      in if rb = 0 then Some (tc_cleanup api i hook_created rb skel err (say Ring_failed r))
         else map_option (\<lambda>(stopped, r).
             if \<not> stopped then Undefined r
             else let (err, r) = call (bpf_tc_detach api i 1 1) r
               in tc_cleanup api i hook_created rb skel err
                    (if err \<noteq> 0 then say (Detach_failed err) r else r))
           (while_not_stopped arrives (poll_round api (http_line src_last) rb) 0 0
              (say (Watching ifname) r)))"

definition tc_trace_main :: "('s, http_event) bpf_api \<Rightarrow> bool \<Rightarrow> (nat \<Rightarrow> bool) \<Rightarrow> string list \<Rightarrow> 's \<Rightarrow>
    ('s, shown) outcome option" where
  "tc_trace_main api src_last arrives argv s =
     (let ifname = ifname_of argv; i = if_nametoindex api ifname s; r = start s
      in if i = 0 then Some (Exit (Some 1) (say (Bad_interface ifname) r))
         else let (skel, r) = call (bpf_open_and_load api) r
           in if skel = 0 then Some (Exit (Some 1) (say Open_failed r))
              else let (err, r) = call (bpf_tc_hook_create api i) r;
                       hook_created = (err = 0);
                       cleanup = (\<lambda>rb err r. tc_cleanup api i hook_created rb skel err r)
                in if err \<noteq> 0 \<and> err \<noteq> - EEXIST then Some (cleanup 0 err (say (Hook_failed err) r))
                   else let (err, r) = call (bpf_tc_attach api i 1 1) r
                     in if err \<noteq> 0 then Some (cleanup 0 err (say (Tc_attach_failed err) r))
                        else let (ok, r) = call (signal_sigint api) r
                          in if \<not> ok
                             then let err = errno api (world r) in Some (cleanup 0 err (say (Signal_failed err) r))
                             else tc_watch api src_last arrives ifname i hook_created skel err (say Started r))"

definition xdp_main :: "('s, http_event) bpf_api \<Rightarrow> bool \<Rightarrow> (nat \<Rightarrow> bool) \<Rightarrow> string list \<Rightarrow> 's \<Rightarrow>
    ('s, shown) outcome option" where
  "xdp_main api src_last arrives argv s =
     (let ifname = ifname_of argv; i = if_nametoindex api ifname s; r = start s
      in if i = 0 then Some (Exit (Some 1) (say (Bad_interface ifname) r))
         else let (skel, r) = call (bpf_open_and_load api) r
           in if skel = 0 then Some (Exit (Some 1) (say Open_failed r))
              else let cleanup = (\<lambda>err r. Exit (negated err)
                         (exec (bpf_destroy api skel) (exec (bpf_xdp_detach api i) r)));
                       (link, r) = call (attach_xdp api skel i) r
                in if link = 0
                   then let e = errno api (world r) in Some (cleanup (Some (- e)) (say (Xdp_failed e) r))
                   else let (ok, r) = call (signal_sigint api) r
                     in if \<not> ok
                        then let e = errno api (world r) in Some (cleanup (Some e) (say (Signal_failed e) r))
                        else let (rb, r) = call (ring_buffer_new api skel) r
                          in if rb = 0 then Some (cleanup None (say Ring_failed r))
                             else map_option (\<lambda>(stopped, r). if stopped then cleanup None r else Undefined r)
                               (while_not_stopped arrives (poll_round api (http_line src_last) rb) 0 0
                                  (say (Taken_over (if length argv > 1 then Some (argv ! 1) else None)) r)))"

section \<open>Library lemmas\<close>

lemmas run_simps = start_def say_def exec_def call_def negated_def

lemma filter_mset_all: "(\<And>x. x \<in># M \<Longrightarrow> P x) \<Longrightarrow> filter_mset P M = M"
  by (induction M) auto

lemma filter_mset_owner:
  assumes "\<forall>x \<in># M. owner x \<noteq> Some p"
  shows "filter_mset (\<lambda>x. owner x \<noteq> Some p) M = M"
  using assms by (simp add: filter_mset_all)

lemma filter_mset_replicate: "filter_mset P (replicate_mset n x) = (if P x then replicate_mset n x else {#})"
  by (induction n) auto

text \<open>An endless loop with an invariant under which the body is defined never returns.\<close>

lemma forever_None:
  assumes "P r" and body: "\<And>r. P r \<Longrightarrow> \<exists>r'. body r = Some r' \<and> P r'"
  shows "forever body r = None"
proof (rule ccontr)
  assume "forever body r \<noteq> None"
  then obtain y where "forever body r = Some y" by blast
  then have "body = body \<longrightarrow> \<not> P r"
  proof (rule forever.raw_induct [where P = "\<lambda>f r y. f = body \<longrightarrow> \<not> P r", rotated])
    fix loop f r y
    assume "\<And>f r y. loop f r = Some y \<Longrightarrow> f = body \<longrightarrow> \<not> P r"
      and "(case f r of None \<Rightarrow> Some r | Some r' \<Rightarrow> loop f r') = Some y"
    then show "f = body \<longrightarrow> \<not> P r"
      using body [of r] by (auto split: option.splits)
  qed
  with assms(1) show False by simp
qed

lemma forever_NULL: "body r = None \<Longrightarrow> forever body r = Some r"
  by (subst forever.simps) simp

text \<open>What the body keeps and what it establishes holds when the loop is left: at the signal
  (\<open>True\<close>), or where the body is undefined; without a signal it is left only there.\<close>

lemma while_not_stopped_induct:
  assumes "while_not_stopped arrives body k stop r = Some y" and "P r"
    and body: "\<And>r r'. P r \<Longrightarrow> body r = Some r' \<Longrightarrow> P r'"
  shows "P (snd y) \<and> (\<not> fst y \<longrightarrow> body (snd y) = None) \<and>
    (stop = 0 \<and> (\<forall>k. \<not> arrives k) \<longrightarrow> \<not> fst y)"
proof -
  let ?Q = "\<lambda>arr b k stop r y. arr = arrives \<longrightarrow> b = body \<longrightarrow> P r \<longrightarrow>
    P (snd y) \<and> (\<not> fst y \<longrightarrow> body (snd y) = None) \<and> (stop = (0::int) \<and> (\<forall>k. \<not> arrives k) \<longrightarrow> \<not> fst y)"
  have "?Q arrives body k stop r y"
  proof (rule while_not_stopped.raw_induct [where P = ?Q, OF _ assms(1)])
    fix loop arr b k stop r y
    assume IH: "\<And>arr b k stop r y. loop arr b k stop r = Some y \<Longrightarrow> ?Q arr b k stop r y"
      and res: "(let stop = if arr k then sig_int stop else stop
          in if stop \<noteq> 0 then Some (True, r)
             else case b r of None \<Rightarrow> Some (False, r) | Some r' \<Rightarrow> loop arr b (Suc k) stop r') = Some y"
    consider (stop) "arr k \<or> stop \<noteq> 0" | (undef) "\<not> arr k" "stop = 0" "b r = None"
      | (step) r' where "\<not> arr k" "stop = 0" "b r = Some r'" by fastforce
    then show "?Q arr b k stop r y"
    proof cases
      case stop
      then have "y = (True, r)" using res by (auto simp: sig_int_def split: if_splits)
      then show ?thesis using stop by auto
    next
      case undef
      then have "y = (False, r)" using res by simp
      then show ?thesis using undef by auto
    next
      case step
      then have "loop arr b (Suc k) 0 r' = Some y" using res by simp
      from IH [OF this] show ?thesis using step body [of r r'] by auto
    qed
  qed
  with assms(2) show ?thesis by simp
qed

lemmas while_not_stopped_inv = while_not_stopped_induct [THEN conjunct1]
lemmas while_not_stopped_body = while_not_stopped_induct [THEN conjunct2, THEN conjunct1]

lemma while_not_stopped_now: "arrives k \<Longrightarrow> while_not_stopped arrives body k stop r = Some (True, r)"
  by (subst while_not_stopped.simps) (simp add: sig_int_def)

lemma while_not_stopped_ends:
  assumes "arrives (k + n)"
  shows "while_not_stopped arrives body k stop r \<noteq> None"
  using assms
proof (induction n arbitrary: k stop r)
  case 0
  then show ?case by (subst while_not_stopped.simps) (simp add: sig_int_def)
next
  case (Suc n)
  then have "while_not_stopped arrives body (Suc k) stop' r' \<noteq> None" for stop' r'
    by (simp add: Suc.IH)
  then show ?case by (subst while_not_stopped.simps) (auto simp: Let_def split: option.splits)
qed

lemma while_not_stopped_None:
  assumes "\<And>k. \<not> arrives k" and "P r" and body: "\<And>r. P r \<Longrightarrow> \<exists>r'. body r = Some r' \<and> P r'"
  shows "while_not_stopped arrives body k 0 r = None"
proof (rule ccontr)
  assume "while_not_stopped arrives body k 0 r \<noteq> None"
  then obtain y where y: "while_not_stopped arrives body k 0 r = Some y" by blast
  have step: "P r'" if "P r" "body r = Some r'" for r r' using body [OF that(1)] that(2) by auto
  from while_not_stopped_induct [OF y, of P, OF assms(2)] step assms(1)
  have "P (snd y)" "body (snd y) = None" by blast+
  then show False using body by fastforce
qed

text \<open>The first \<open>n\<close> rounds of a loop, and what \<open>n\<close> polls of the ring buffer deliver.\<close>

fun rounds :: "('r \<Rightarrow> 'r option) \<Rightarrow> nat \<Rightarrow> 'r \<Rightarrow> 'r option" where
  "rounds body 0 r = Some r"
| "rounds body (Suc n) r = (case body r of None \<Rightarrow> None | Some r' \<Rightarrow> rounds body n r')"

fun delivered :: "('s, 'e) bpf_api \<Rightarrow> ptr \<Rightarrow> nat \<Rightarrow> 's \<Rightarrow> 'e list \<times> 's" where
  "delivered api rb 0 s = ([], s)"
| "delivered api rb (Suc n) s =
     (let (evs, s) = ring_buffer_poll api rb s; (more, s) = delivered api rb n s in (evs @ more, s))"

lemma while_not_stopped_rounds:
  assumes "arrives (k + n)" and "\<And>j. j < n \<Longrightarrow> \<not> arrives (k + j)" and "rounds body n r = Some r'"
  shows "while_not_stopped arrives body k 0 r = Some (True, r')"
  using assms
proof (induction n arbitrary: k r)
  case 0
  then show ?case by (subst while_not_stopped.simps) (simp add: sig_int_def)
next
  case (Suc n)
  then obtain r1 where r1: "body r = Some r1" "rounds body n r1 = Some r'"
    by (auto split: option.splits)
  have "\<not> arrives k" using Suc.prems(2) [of 0] by simp
  moreover have "while_not_stopped arrives body (Suc k) 0 r1 = Some (True, r')"
    by (rule Suc.IH [OF _ _ r1(2)]) (use Suc.prems(1) Suc.prems(2) [of "Suc j" for j] in auto)
  ultimately show ?case using r1(1) by (subst while_not_stopped.simps) simp
qed

lemma poll_rounds:
  assumes "rb \<noteq> 0" and "delivered api rb n (world r) = (evs, s')"
    and "\<And>e. e \<in> set evs \<Longrightarrow> callback e = Some (line e)"
  shows "rounds (poll_round api callback rb) n r =
    Some (r\<lparr>world := s', printed := printed r @ concat (map line evs)\<rparr>)"
  using assms(2,3)
proof (induction n arbitrary: r evs)
  case 0
  then show ?case by simp
next
  case (Suc n)
  obtain now s1 more where now: "ring_buffer_poll api rb (world r) = (now, s1)"
    and more: "delivered api rb n s1 = (more, s')" and evs: "evs = now @ more"
    using Suc.prems(1) by (auto simp: Let_def split: prod.splits)
  have those_map: "(\<And>e. e \<in> set es \<Longrightarrow> callback e = Some (line e)) \<Longrightarrow>
      those (map callback es) = Some (map line es)" for es
    by (induction es) simp_all
  have "those (map callback now) = Some (map line now)"
    using Suc.prems(2) evs by (intro those_map) simp
  then show ?case
    using now assms(1) Suc.IH [of "r\<lparr>world := s1, printed := printed r @ concat (map line now)\<rparr>" more]
      more evs Suc.prems(2)
    by (simp add: poll_round_def call_def)
qed

text \<open>A polling loop that SIGINT ends after \<open>n\<close> polls has printed the lines of what they delivered.\<close>

lemma session_loop:
  assumes "rb \<noteq> 0" and "arrives n" and "\<And>j. j < n \<Longrightarrow> \<not> arrives j"
    and "delivered api rb n (world r) = (evs, s')" and "\<And>e. e \<in> set evs \<Longrightarrow> callback e = Some (line e)"
  shows "while_not_stopped arrives (poll_round api callback rb) 0 0 r =
    Some (True, r\<lparr>world := s', printed := printed r @ concat (map line evs)\<rparr>)"
  by (rule while_not_stopped_rounds [of arrives 0 n])
     (use assms(2,3) poll_rounds [OF assms(1,4,5)] in simp_all)

text \<open>A loader that gives back everything it took can be run any number of times.\<close>

fun reruns :: "('s \<Rightarrow> ('s, 'l) outcome option) \<Rightarrow> nat \<Rightarrow> 's \<Rightarrow> 's option" where
  "reruns main 0 s = Some s"
| "reruns main (Suc n) s =
     (case main s of Some (Exit st r) \<Rightarrow> reruns main n (world r) | _ \<Rightarrow> None)"

locale clean_loader =
  fixes main :: "'s \<Rightarrow> ('s, 'l) outcome option" and held :: "'s \<Rightarrow> bobj multiset"
  assumes clean: "main s = Some (Exit st r) \<Longrightarrow> held (world r) = held s"
begin

lemma reruns_clean: "reruns main n s = Some s' \<Longrightarrow> held s' = held s"
  by (induction n arbitrary: s) (auto split: option.splits outcome.splits dest: clean)

end

lemma dot_loop:
  assumes "while_not_stopped arrives (\<lambda>r. Some (say Dot r)) k stop r = Some (b, r')"
  shows "b \<and> world r' = world r"
proof -
  have "world (snd (b, r')) = world r"
    by (rule while_not_stopped_inv [OF assms]) (auto simp: say_def)
  moreover have "\<not> fst (b, r') \<longrightarrow> Some (say Dot (snd (b, r'))) = None"
    by (rule while_not_stopped_body [OF assms, of "\<lambda>_. True"]) simp_all
  ultimately show ?thesis by simp
qed

context bpf_system
begin

lemmas laws = open_ok load_ok open_and_load_ok attach_ok uprobe_ok xdp_ok hook_create_ok
  tc_attach_ok tc_detach_ok ring_new_ok ring_poll_ok signal_ok

lemma poll_round_held:
  "poll_round api callback rb r = Some r' \<Longrightarrow> held (world r') = held (world r)"
  by (auto simp: poll_round_def run_simps dest!: ring_poll_ok split: prod.splits if_splits option.splits)

lemma poll_loop_held:
  assumes "while_not_stopped arrives (poll_round api callback rb) k stop r = Some (b, r')"
  shows "held (world r') = held (world r)"
proof -
  let ?P = "\<lambda>q. held (world q) = held (world r)"
  have "?P (snd (b, r'))"
    by (rule while_not_stopped_inv [OF assms]) (simp_all add: poll_round_held)
  then show ?thesis by simp
qed

lemma poll_loop_messages:
  assumes "while_not_stopped arrives (poll_round api callback rb) k stop r = Some (b, r')"
  shows "messages r' = messages r"
proof -
  let ?P = "\<lambda>q. messages q = messages r"
  have "?P (snd (b, r'))"
    by (rule while_not_stopped_inv [OF assms])
       (auto simp: poll_round_def call_def Let_def split: prod.splits option.splits if_splits)
  then show ?thesis by simp
qed

text \<open>Destroying a fresh skeleton gives back the skeleton and its links, and nothing else.\<close>

lemma destroy_owned:
  assumes "held s' = M + N" and "\<forall>x \<in># M. owner x \<noteq> Some p" and "\<forall>x \<in># N. owner x = Some p"
    and "p \<noteq> 0"
  shows "held (bpf_destroy api p s') = M"
proof -
  have "filter_mset (\<lambda>x. owner x \<noteq> Some p) N = {#}"
    using assms(3) by (auto simp: filter_mset_eq_mempty_iff)
  then show ?thesis using assms by (simp add: destroy_ok filter_mset_owner)
qed

lemma destroy_skel:
  assumes "held s' = held s + {#Skel p#}" and "\<forall>x \<in># held s. owner x \<noteq> Some p" and "p \<noteq> 0"
  shows "held (bpf_destroy api p s') = held s"
  by (rule destroy_owned [OF assms(1,2) _ assms(3)]) simp

lemma destroy_links:
  assumes "held s' = held s + {#Skel p#} + replicate_mset n (Link p)"
    and "\<forall>x \<in># held s. owner x \<noteq> Some p" and "p \<noteq> 0"
  shows "held (bpf_destroy api p s') = held s"
  using destroy_owned [of s' "held s" "{#Skel p#} + replicate_mset n (Link p)" p] assms
  by (auto simp: ac_simps)

lemma lsm_clean:
  assumes "lsm_control_main api s = Some (Exit st r)"
  shows "held (world r) = held s"
proof -
  obtain p s1 where o: "bpf_open_and_load api s = (p, s1)" by fastforce
  obtain err s2 where a: "bpf_attach api p s1 = (err, s2)" by fastforce
  show ?thesis
    using assms open_and_load_ok [OF o] attach_ok [OF a] o a
    by (auto simp: lsm_control_main_def run_simps destroy_ok [of 0] destroy_links split: if_splits)
qed

lemma kprobe_clean:
  assumes "kprobe_sendmsg_main api arrives s = Some (Exit st r)"
  shows "held (world r) = held s"
proof -
  obtain p s1 where o: "bpf_open_and_load api s = (p, s1)" by fastforce
  obtain err s2 where a: "bpf_attach api p s1 = (err, s2)" by fastforce
  obtain ok s3 where g: "signal_sigint api s2 = (ok, s3)" by fastforce
  show ?thesis
    using assms open_and_load_ok [OF o] attach_ok [OF a] signal_ok [OF g] o a g
    by (auto simp: kprobe_sendmsg_main_def run_simps destroy_links dest!: dot_loop [unfolded say_def] split: if_splits prod.splits)
qed

end

text \<open>The programs that print unlink events, fetched stock codes and packets fix the type of
  the events.\<close>

locale unlink_system = bpf_system api held
  for api :: "('s, unlink_event) bpf_api" and held

locale fetch_system = bpf_system api held
  for api :: "('s, fetch_event) bpf_api" and held

locale http_system = bpf_system api held
  for api :: "('s, http_event) bpf_api" and held

sublocale bpf_system \<subseteq> lsm: clean_loader "lsm_control_main api" held
  by unfold_locales (rule lsm_clean)

sublocale bpf_system \<subseteq> kprobe: clean_loader "kprobe_sendmsg_main api arrives" held for arrives
  by unfold_locales (rule kprobe_clean)

sublocale unlink_system \<subseteq> test: clean_loader "test_main api" held
proof
  fix s st r
  assume m: "test_main api s = Some (Exit st r)"
  obtain p s1 where o: "bpf_open api s = (p, s1)" by fastforce
  obtain err s2 where l: "bpf_load api p s1 = (err, s2)" by fastforce
  obtain err' s3 where a: "bpf_attach api p s2 = (err', s3)" by fastforce
  show "held (world r) = held s"
    using m open_ok [OF o] load_ok [OF l] attach_ok [OF a] o l a
    by (auto simp: test_main_def run_simps poll_forever_def destroy_skel destroy_links
        split: if_splits prod.splits)
qed

sublocale fetch_system \<subseteq> uprobe: clean_loader "uprobe_go_main api" held
proof
  fix s st r
  assume m: "uprobe_go_main api s = Some (Exit st r)"
  obtain p s1 where o: "bpf_open api s = (p, s1)" by fastforce
  obtain err s2 where l: "bpf_load api p s1 = (err, s2)" by fastforce
  obtain link s3 where a: "attach_uprobe_opts api p ''/home/sunder/bin/go/fetch'' ''main.FetchStock'' s2 = (link, s3)"
    by fastforce
  show "held (world r) = held s"
    using m open_ok [OF o] load_ok [OF l] uprobe_ok [OF a] o l a
    by (auto simp: uprobe_go_main_def run_simps poll_forever_def destroy_skel
        split: if_splits prod.splits)
qed

text \<open>The exits of tc_trace.c behind the attach that do not detach the filter: the last message
  tells them apart from all others.\<close>

definition keeps_filter :: "message list \<Rightarrow> bool" where
  "keeps_filter ms \<longleftrightarrow> ms \<noteq> [] \<and>
     (case last ms of Signal_failed e \<Rightarrow> True | Ring_failed \<Rightarrow> True | Detach_failed e \<Rightarrow> True | _ \<Rightarrow> False)"

text \<open>What a run leaves on the interface, by the result of \<open>bpf_tc_hook_create\<close> and the exit taken:
  a hook it made itself goes with all filters but its queueing discipline stays; on a hook that
  was there before, the filter stays on the exits above.\<close>

definition tc_leftover :: "nat \<Rightarrow> int \<Rightarrow> message list \<Rightarrow> bobj multiset" where
  "tc_leftover i err ms =
     (if err = 0 then {#Clsact i#}
      else if err = - EEXIST \<and> keeps_filter ms then {#Filter i 1 1#} else {#})"

lemma keeps_filter_simps [simp]:
  "keeps_filter (ms @ [Signal_failed e])" "keeps_filter (ms @ [Ring_failed])"
  "keeps_filter (ms @ [Detach_failed e])" "\<not> keeps_filter (ms @ [Watching n])"
  "\<not> keeps_filter (ms @ [Tc_attach_failed e])" "\<not> keeps_filter (ms @ [Hook_failed e])"
  by (simp_all add: keeps_filter_def)

lemmas keeps_filter_one [simp] = keeps_filter_simps [of "[]", simplified]

context http_system
begin

text \<open>The cleanup of tc_trace.c: skeleton and ring buffer go, and with the hook all filters of
  its direction.\<close>

lemma tc_cleanup_held:
  assumes "held (world r) = M + N + {#Skel p#} + (if rb = 0 then {#} else {#Ring rb#})"
    and "\<forall>x \<in># M. owner x \<noteq> Some p" and "\<forall>x \<in># N. owner x = None" and "p \<noteq> 0"
  shows "tc_cleanup api i hook rb p err r = Exit st r' \<Longrightarrow>
    st = Some (- err) \<and> messages r' = messages r \<and>
    held (world r') = (if hook then filter_mset (\<lambda>x. \<not> filter_of i x) (M + N) else M + N)"
proof -
  let ?keep = "filter_mset (\<lambda>x. owner x \<noteq> Some p)"
  have keep: "?keep M = M" "?keep N = N"
    using assms(2,3) by (auto intro!: filter_mset_all)
  have swap: "?keep (filter_mset (\<lambda>x. \<not> filter_of i x) X) = filter_mset (\<lambda>x. \<not> filter_of i x) (?keep X)" for X
    by (simp add: filter_filter_mset conj_commute)
  show "tc_cleanup api i hook rb p err r = Exit st r' \<Longrightarrow> ?thesis"
    using assms keep
    by (auto simp: tc_cleanup_def run_simps Let_def destroy_ok hook_destroy_ok ring_free_ok swap)
qed

lemma tc_flush:
  assumes "\<forall>x \<in># M. \<not> filter_of i x"
  shows "filter_mset (\<lambda>x. \<not> filter_of i x) M = M"
  using assms by (simp add: filter_mset_all)

lemma tc_watch_leaves:
  assumes w: "tc_watch api src_last arrives ifname i hook p err r = Some (Exit st r')"
    and M: "held (world r) = M + (if hook then {#Clsact i#} else {#}) + {#Filter i 1 1#} + {#Skel p#}"
    and own: "\<forall>x \<in># M. owner x \<noteq> Some p" "p \<noteq> 0"
    and filt: "hook \<longrightarrow> (\<forall>x \<in># M. \<not> filter_of i x)"
    and hook: "hook = (herr = 0)" "herr = 0 \<or> herr = - EEXIST"
  shows "held (world r') = M + tc_leftover i herr (messages r')"
proof -
  obtain rb s5 where n: "ring_buffer_new api p (world r) = (rb, s5)" by fastforce
  let ?C = "if hook then {#Clsact i#} else {#}"
  have fl: "hook \<Longrightarrow> filter_mset (\<lambda>x. \<not> filter_of i x) M = M" using filt by (simp add: tc_flush)
  show ?thesis
  proof (cases "rb = 0")
    case True
    let ?r = "say Ring_failed (r\<lparr>world := s5\<rparr>)"
    have "tc_cleanup api i hook 0 p err ?r = Exit st r'"
      using w n True by (simp add: tc_watch_def call_def)
    moreover have "held (world ?r) = M + (?C + {#Filter i 1 1#}) + {#Skel p#} + (if (0::ptr) = 0 then {#} else {#Ring 0#})"
      using ring_new_ok [OF n] M True by (simp add: say_def)
    ultimately have "held (world r') = (if hook then filter_mset (\<lambda>x. \<not> filter_of i x) (M + (?C + {#Filter i 1 1#}))
        else M + (?C + {#Filter i 1 1#}))" "messages r' = messages ?r"
      using tc_cleanup_held [of ?r M "?C + {#Filter i 1 1#}" p 0 i hook err st r'] own by auto
    then show ?thesis using fl hook
      by (auto simp: tc_leftover_def say_def)
  next
    case False
    let ?r = "say (Watching ifname) (r\<lparr>world := s5\<rparr>)"
    obtain q where q: "while_not_stopped arrives (poll_round api (http_line src_last) rb) 0 0 ?r = Some (True, q)"
      and d: "(let (err, r) = call (bpf_tc_detach api i 1 1) q
               in tc_cleanup api i hook rb p err (if err \<noteq> 0 then say (Detach_failed err) r else r)) = Exit st r'"
      using w n False by (auto simp: tc_watch_def call_def split: prod.splits if_splits)
    obtain err2 s6 where e: "bpf_tc_detach api i 1 1 (world q) = (err2, s6)" by fastforce
    let ?F = "if err2 = 0 then {#} else {#Filter i 1 1#}"
    let ?q = "if err2 \<noteq> 0 then say (Detach_failed err2) (q\<lparr>world := s6\<rparr>) else q\<lparr>world := s6\<rparr>"
    have "held (world ?q) = M + (?C + ?F) + {#Skel p#} + (if rb = 0 then {#} else {#Ring rb#})"
      using poll_loop_held [OF q] ring_new_ok [OF n] tc_detach_ok [OF e] M False by (auto simp: say_def)
    moreover have "tc_cleanup api i hook rb p err2 ?q = Exit st r'"
      using d e by (simp add: call_def)
    ultimately have "held (world r') = (if hook then filter_mset (\<lambda>x. \<not> filter_of i x) (M + (?C + ?F))
        else M + (?C + ?F))" "messages r' = messages ?q"
      using tc_cleanup_held [of ?q M "?C + ?F" p rb i hook err2 st r'] own by auto
    then show ?thesis using fl hook poll_loop_messages [OF q]
      by (auto simp: tc_leftover_def keeps_filter_def say_def split: if_splits)
  qed
qed

lemma tc_trace_leaves:
  assumes main: "tc_trace_main api src_last arrives argv s = Some (Exit st r)"
    and i: "i = if_nametoindex api (ifname_of argv) s"
    and o: "bpf_open_and_load api s = (p, s1)" and h: "bpf_tc_hook_create api i s1 = (err, s2)"
  shows "held (world r) = held s + (if i = 0 \<or> p = 0 then {#} else tc_leftover i err (messages r))"
proof (cases "i = 0 \<or> p = 0")
  case True
  then show ?thesis
    using main i o open_and_load_ok [OF o]
    by (auto simp: tc_trace_main_def run_simps Let_def split: prod.splits if_splits)
next
  case False
  obtain err' s3 where a: "bpf_tc_attach api i 1 1 s2 = (err', s3)" by fastforce
  obtain ok s4 where g: "signal_sigint api s3 = (ok, s4)" by fastforce
  note facts = open_and_load_ok [OF o] hook_create_ok [OF h] tc_attach_ok [OF a] signal_ok [OF g]
  let ?hook = "err = 0"
  let ?C = "if ?hook then {#Clsact i#} else {#}" and ?F = "if err' = 0 then {#Filter i 1 1#} else {#}"
  have p: "p \<noteq> 0" and own: "\<forall>x \<in># held s. owner x \<noteq> Some p" using False o facts by auto
  have fl: "?hook \<Longrightarrow> filter_mset (\<lambda>x. \<not> filter_of i x) (held s) = held s"
    using facts p by (intro tc_flush) auto
  have hs: "held s2 = held s + ?C + {#Skel p#}" "held s3 = held s + (?C + ?F) + {#Skel p#}" "held s4 = held s3"
    using facts p by auto
  note unf = tc_trace_main_def start_def say_def call_def Let_def
  consider (hook) "err \<noteq> 0" "err \<noteq> - EEXIST"
    | (attach) "err = 0 \<or> err = - EEXIST" "err' \<noteq> 0"
    | (signal) "err = 0 \<or> err = - EEXIST" "err' = 0" "\<not> ok"
    | (watch) "err = 0 \<or> err = - EEXIST" "err' = 0" "ok" by blast
  then show ?thesis
  proof cases
    case hook
    let ?r = "\<lparr>world = s2, messages = [Hook_failed err], printed = []\<rparr>"
    have "tc_cleanup api i False 0 p err ?r = Exit st r"
      using main False o h hook i by (simp add: unf)
    then show ?thesis using tc_cleanup_held [of ?r "held s" "{#}" p 0 i False err st r] hs hook own p False
      by (simp add: tc_leftover_def)
  next
    case attach
    let ?r = "\<lparr>world = s3, messages = [Tc_attach_failed err'], printed = []\<rparr>"
    have "tc_cleanup api i ?hook 0 p err' ?r = Exit st r"
      using main False o h a attach i by (auto simp: unf)
    then show ?thesis using tc_cleanup_held [of ?r "held s" ?C p 0 i ?hook err' st r] hs attach own p fl False
      by (auto simp: tc_leftover_def)
  next
    case signal
    let ?e = "errno api s4"
    let ?r = "\<lparr>world = s4, messages = [Signal_failed ?e], printed = []\<rparr>"
    have "tc_cleanup api i ?hook 0 p ?e ?r = Exit st r"
      using main False o h a g signal i by (auto simp: unf)
    then show ?thesis using tc_cleanup_held [of ?r "held s" "?C + ?F" p 0 i ?hook ?e st r] hs signal own p fl False
      by (auto simp: tc_leftover_def)
  next
    case watch
    let ?r = "\<lparr>world = s4, messages = [Started], printed = []\<rparr>"
    have "tc_watch api src_last arrives (ifname_of argv) i ?hook p 0 ?r = Some (Exit st r)"
      using main False o h a g watch i by (auto simp: unf)
    then have "held (world r) = held s + tc_leftover i err (messages r)"
      by (rule tc_watch_leaves) (use hs own p facts watch in auto)
    then show ?thesis using False by simp
  qed
qed

text \<open>The cleanup of xdp.c. While the link is there the detach is refused and the link goes with
  the skeleton; without it the detach takes whatever program the interface has.\<close>

lemma xdp_cleanup_linked:
  assumes "held q = M + N + {#Skel p#} + {#Xdp_link p i#}" and "\<forall>x \<in># M. owner x \<noteq> Some p"
    and "\<forall>x \<in># N. owner x = None" and "p \<noteq> 0"
  shows "held (bpf_destroy api p (bpf_xdp_detach api i q)) = M + N"
proof -
  have "\<exists>x \<in># held q. link_on i x" using assms(1) by auto
  then have "held (bpf_xdp_detach api i q) = (M + N) + ({#Skel p#} + {#Xdp_link p i#})"
    using assms(1) by (simp add: xdp_detach_ok ac_simps)
  then show ?thesis by (rule destroy_owned) (use assms in auto)
qed

lemma xdp_cleanup_unlinked:
  assumes "held q = M + {#Skel p#}" and "\<forall>x \<in># M. owner x \<noteq> Some p" and "p \<noteq> 0"
    and "\<forall>x \<in># M. \<not> link_on i x"
  shows "held (bpf_destroy api p (bpf_xdp_detach api i q)) = filter_mset (\<lambda>x. x \<noteq> Xdp_prog i) M"
proof -
  have "held (bpf_xdp_detach api i q) = filter_mset (\<lambda>x. x \<noteq> Xdp_prog i) M + {#Skel p#}"
    using assms by (auto simp: xdp_detach_ok)
  then show ?thesis by (rule destroy_owned) (use assms in auto)
qed

lemma xdp_linked_exit:
  assumes main: "xdp_main api src_last arrives argv s = Some (Exit st r)"
    and o: "bpf_open_and_load api s = (p, s1)" "p \<noteq> 0"
    and i: "i = if_nametoindex api (ifname_of argv) s" "i \<noteq> 0"
    and l: "attach_xdp api p i s1 = (l, s2)" "l \<noteq> 0"
  shows "\<exists>N. held (world r) = held s + N \<and> (N = {#} \<or> (\<exists>rb. N = {#Ring rb#})) \<and>
    (st = None \<or> (\<exists>e. e > 0 \<and> st = Some (- e)))"
proof -
  obtain ok s3 where g: "signal_sigint api s2 = (ok, s3)" by fastforce
  obtain rb s4 where n: "ring_buffer_new api p s3 = (rb, s4)" by fastforce
  note facts = open_and_load_ok [OF o(1)] xdp_ok [OF l(1)] signal_ok [OF g] ring_new_ok [OF n]
  let ?N = "if rb = 0 then {#} else {#Ring rb#}"
  have own: "\<forall>x \<in># held s. owner x \<noteq> Some p" using facts o(2) by simp
  have h3: "held s3 = held s + {#} + {#Skel p#} + {#Xdp_link p i#}"
    and h4: "held s4 = held s + ?N + {#Skel p#} + {#Xdp_link p i#}"
    using facts o(2) l(2) by auto
  note unf = xdp_main_def start_def say_def call_def exec_def negated_def Let_def
  have c3: "held (bpf_destroy api p (bpf_xdp_detach api i s3)) = held s"
    using xdp_cleanup_linked [OF h3 own _ o(2)] by simp
  have c4: "held (bpf_destroy api p (bpf_xdp_detach api i q)) = held s + ?N" if "held q = held s4" for q
    using xdp_cleanup_linked [of q "held s" ?N p i] h4 own o(2) that by simp
  consider "\<not> ok" | "ok" "rb = 0" | (loop) "ok" "rb \<noteq> 0" by blast
  then show ?thesis
  proof cases
    case loop
    obtain q q0 where w: "while_not_stopped arrives (poll_round api (http_line src_last) rb) 0 0 q0 = Some (True, q)"
      and "world q0 = s4" "st = None" "world r = bpf_destroy api p (bpf_xdp_detach api i (world q))"
      using main o l i g n loop by (auto simp: unf split: prod.splits if_splits)
    then show ?thesis using poll_loop_held [OF w] c4 [of "world q"] by auto
  qed (use main o l i g n facts(3) c3 c4 [of s4] in \<open>auto simp: unf\<close>)
qed

end

context unlink_system
begin
lemmas test_reruns = test.reruns_clean
end

context fetch_system
begin
lemmas uprobe_reruns = uprobe.reruns_clean
end

context bpf_system
begin
lemmas lsm_reruns = lsm.reruns_clean
  and kprobe_reruns = kprobe.reruns_clean
end

section \<open>An instance\<close>

text \<open>The system the witnesses run on: it keeps the objects themselves, hands out the next free
  pointer, has the interfaces lo (1) and eth0 (2), and can be told which calls fail. An XDP
  program on an interface makes attaching by link fail.\<close>

record 'e bsys =
  bobjs :: "bobj multiset"
  next_ptr :: ptr
  batches :: "'e list list"
  no_skel :: bool
  no_load :: bool
  no_attach :: bool
  no_signal :: bool
  no_ring :: bool

definition fresh_ptr :: "'e bsys \<Rightarrow> bool \<Rightarrow> ptr" where
  "fresh_ptr s fails =
     (if fails \<or> (\<exists>x \<in># bobjs s. owner x = Some (next_ptr s)) then 0 else next_ptr s)"

definition bsys_add :: "bobj \<Rightarrow> 'e bsys \<Rightarrow> 'e bsys" where
  "bsys_add x s = s\<lparr>bobjs := add_mset x (bobjs s), next_ptr := next_ptr s + 64\<rparr>"

definition bsys_keep :: "(bobj \<Rightarrow> bool) \<Rightarrow> 'e bsys \<Rightarrow> 'e bsys" where
  "bsys_keep P s = s\<lparr>bobjs := filter_mset P (bobjs s)\<rparr>"

definition bsys_skel :: "'e bsys \<Rightarrow> bool \<Rightarrow> ptr \<times> 'e bsys" where
  "bsys_skel s fails = (let p = fresh_ptr s fails in (p, if p = 0 then s else bsys_add (Skel p) s))"

definition bsys_link :: "bobj \<Rightarrow> bool \<Rightarrow> 'e bsys \<Rightarrow> ptr \<times> 'e bsys" where
  "bsys_link x fails s = (if fails then (0, s) else (4096, bsys_add x s))"

definition bsys_api :: "('e bsys, 'e) bpf_api" where
  "bsys_api = \<lparr>
     bpf_open = (\<lambda>s. bsys_skel s (no_skel s)),
     bpf_load = (\<lambda>p s. (if no_load s then -22 else 0, s)),
     bpf_open_and_load = (\<lambda>s. bsys_skel s (no_skel s \<or> no_load s)),
     bpf_attach = (\<lambda>p s. (if no_attach s then -1 else 0, bsys_add (Link p) s)),
     bpf_destroy = (\<lambda>p s. if p = 0 then s else bsys_keep (\<lambda>x. owner x \<noteq> Some p) s),
     attach_uprobe_opts = (\<lambda>p path func s. bsys_link (Link p) (no_attach s) s),
     attach_xdp = (\<lambda>p i s. bsys_link (Xdp_link p i) (no_attach s \<or> Xdp_prog i \<in># bobjs s) s),
     bpf_xdp_detach = (\<lambda>i s. if \<exists>x \<in># bobjs s. link_on i x then s else bsys_keep (\<lambda>x. x \<noteq> Xdp_prog i) s),
     bpf_tc_hook_create = (\<lambda>i s. if \<exists>x \<in># bobjs s. x = Clsact i \<or> filter_of i x then (-17, s)
        else (0, bsys_add (Clsact i) s)),
     bpf_tc_hook_destroy = (\<lambda>i. bsys_keep (\<lambda>x. \<not> filter_of i x)),
     bpf_tc_attach = (\<lambda>i h pr s. if no_attach s then (-22, s) else (0, bsys_add (Filter i h pr) s)),
     bpf_tc_detach = (\<lambda>i h pr s. (0, s\<lparr>bobjs := bobjs s - {#Filter i h pr#}\<rparr>)),
     ring_buffer_new = (\<lambda>p s. bsys_link (Ring 4096) (no_ring s) s),
     ring_buffer_poll = (\<lambda>rb s. (case batches s of [] \<Rightarrow> ([], s) | b # bs \<Rightarrow> (b, s\<lparr>batches := bs\<rparr>))),
     ring_buffer_free = (\<lambda>rb s. s\<lparr>bobjs := bobjs s - (if rb = 0 then {#} else {#Ring rb#})\<rparr>),
     if_nametoindex = (\<lambda>name s. if name = ''lo'' then 1 else if name = ''eth0'' then 2 else 0),
     signal_sigint = (\<lambda>s. (\<not> no_signal s, s)),
     errno = (\<lambda>s. 22)\<rparr>"

definition bsys_idle :: "'e bsys" where
  "bsys_idle = \<lparr>bobjs = {#}, next_ptr = 64, batches = [], no_skel = False, no_load = False,
     no_attach = False, no_signal = False, no_ring = False\<rparr>"

lemmas bsys_defs = bsys_api_def bsys_skel_def bsys_link_def bsys_add_def bsys_keep_def fresh_ptr_def

lemma bsys_system: "bpf_system (bsys_api :: ('e bsys, 'e) bpf_api) bobjs"
proof (unfold_locales, goal_cases)
  case 4
  then show ?case by (auto simp: bsys_defs intro!: exI [of _ 1])
qed (auto simp: bsys_defs Let_def split: if_splits list.splits)

interpretation bsys: bpf_system "bsys_api :: ('e bsys, 'e) bpf_api" bobjs
  by (rule bsys_system)

interpretation bsys_unlink: unlink_system "bsys_api :: (unlink_event bsys, unlink_event) bpf_api" bobjs
  unfolding unlink_system_def by (rule bsys_system)

interpretation bsys_fetch: fetch_system "bsys_api :: (fetch_event bsys, fetch_event) bpf_api" bobjs
  unfolding fetch_system_def by (rule bsys_system)

interpretation bsys_http: http_system "bsys_api :: (http_event bsys, http_event) bpf_api" bobjs
  unfolding http_system_def by (rule bsys_system)

section \<open>Properties\<close>

text \<open>Claim C24: on every path on which test.c, lsm_control.c, kprobe_sendmsg.c and uprobe_go.c
  return, they have given back every skeleton, link and buffer they took, so that running them
  any number of times leaves what was open before, whatever calls of libbpf fail.\<close>

theorem tracer_loaders_release:
  fixes u :: "('a, unlink_event) bpf_api" and f :: "('b, fetch_event) bpf_api" and g :: "('c, 'e) bpf_api"
  assumes "bpf_system u hu" and "bpf_system f hf" and "bpf_system g hg"
  shows "(reruns (test_main u) n s = Some s' \<longrightarrow> hu s' = hu s) \<and>
    (reruns (uprobe_go_main f) n t = Some t' \<longrightarrow> hf t' = hf t) \<and>
    (reruns (lsm_control_main g) n v = Some v' \<longrightarrow> hg v' = hg v) \<and>
    (reruns (kprobe_sendmsg_main g arrives) n v = Some v' \<longrightarrow> hg v' = hg v)"
  using unlink_system.test_reruns [of u hu n s s'] fetch_system.uprobe_reruns [of f hf n t t']
    bpf_system.lsm_reruns [OF assms(3)] bpf_system.kprobe_reruns [OF assms(3)] assms(1,2)
  by (simp add: unlink_system_def fetch_system_def)

definition bsys_refusing :: "'e bsys" where
  "bsys_refusing = bsys_idle\<lparr>no_attach := True, bobjs := {#Clsact 2, Skel 32#}\<rparr>"

lemma refusing_runs:
  "map_option bobjs (reruns (test_main bsys_api) 2 bsys_refusing) = Some {#Clsact 2, Skel 32#}"
  by code_simp

theorem tracer_loaders_release_witness:
  "\<exists>s'. reruns (test_main bsys_api) 2 bsys_refusing = Some s' \<and> bobjs s' = bobjs (bsys_refusing :: unlink_event bsys)"
proof -
  obtain s' where s': "reruns (test_main bsys_api) 2 bsys_refusing = Some s'"
    using refusing_runs by blast
  have "bobjs s' = bobjs (bsys_refusing :: unlink_event bsys)"
    using tracer_loaders_release [OF bsys_system bsys_system bsys_system] s' by blast
  then show ?thesis using s' by blast
qed

text \<open>Further: once its skeleton is loaded and attached and the ring buffer exists, test.c never
  returns, is never undefined, and has after any number of polls printed exactly one line
  (process number and file name) for each event the polls delivered, in order.\<close>

theorem test_prints_every_event:
  assumes "bpf_open api s = (p, s1)" and "p \<noteq> 0" and "bpf_load api p s1 = (0, s2)"
    and "bpf_attach api p s2 = (0, s3)" and "ring_buffer_new api p s3 = (rb, s4)" and "rb \<noteq> 0"
  shows "test_main api s = None \<and>
    rounds (poll_round api unlink_line rb) n \<lparr>world = s4, messages = [Started], printed = []\<rparr> =
      Some \<lparr>world = snd (delivered api rb n s4), messages = [Started],
        printed = map (\<lambda>e. (sint (ue_pid e), ue_filename e)) (fst (delivered api rb n s4))\<rparr>"
proof
  have total: "\<exists>ls. those (map unlink_line es) = Some ls" for es
    by (induction es) (auto simp: unlink_line_def)
  have "\<exists>r'. poll_round api unlink_line rb r = Some r'" for r
    using total [of "fst (ring_buffer_poll api rb (world r))"] assms(6)
    by (auto simp: poll_round_def call_def split: prod.splits)
  then have "forever (poll_round api unlink_line rb) r = None" for r
    by (intro forever_None [of "\<lambda>_. True"]) simp_all
  then show "test_main api s = None"
    using assms by (simp add: test_main_def run_simps poll_forever_def)
next
  have one: "concat (map (\<lambda>e. [h e]) es) = map h es" for h :: "'x \<Rightarrow> 'y" and es by (induction es) simp_all
  show "rounds (poll_round api unlink_line rb) n \<lparr>world = s4, messages = [Started], printed = []\<rparr> =
      Some \<lparr>world = snd (delivered api rb n s4), messages = [Started],
        printed = map (\<lambda>e. (sint (ue_pid e), ue_filename e)) (fst (delivered api rb n s4))\<rparr>"
    by (subst poll_rounds [where line = "\<lambda>e. [(sint (ue_pid e), ue_filename e)]", OF assms(6)])
       (simp_all add: unlink_line_def one)
qed

definition demo_unlinks :: "unlink_event list" where
  "demo_unlinks = [\<lparr>ue_pid = 7, ue_ret = 0, ue_filename = bytes_of ''a''\<rparr>, \<lparr>ue_pid = 8, ue_ret = -2, ue_filename = []\<rparr>]"

theorem test_prints_every_event_witness:
  "test_main bsys_api (bsys_idle\<lparr>batches := [demo_unlinks]\<rparr>) = None \<and>
    (\<exists>r s4. rounds (poll_round bsys_api unlink_line 4096) 3 \<lparr>world = s4, messages = [Started], printed = []\<rparr> = Some r \<and>
      printed r = [(7, bytes_of ''a''), (8, [])])"
proof -
  let ?s = "bsys_idle\<lparr>batches := [demo_unlinks]\<rparr>"
  let ?s1 = "snd (bpf_open bsys_api ?s)"
  let ?s3 = "snd (bpf_attach bsys_api 64 ?s1)"
  let ?s4 = "snd (ring_buffer_new bsys_api 64 ?s3)"
  have "printed \<lparr>world = snd (delivered bsys_api 4096 3 ?s4), messages = [Started],
        printed = map (\<lambda>e. (sint (ue_pid e), ue_filename e)) (fst (delivered bsys_api 4096 3 ?s4))\<rparr>
      = [(7, bytes_of ''a''), (8, [])]"
    by code_simp
  moreover have "bpf_open bsys_api ?s = (64, ?s1)" "bpf_load bsys_api 64 ?s1 = (0, ?s1)"
    "bpf_attach bsys_api 64 ?s1 = (0, ?s3)" "ring_buffer_new bsys_api 64 ?s3 = (4096, ?s4)"
    by (simp_all add: bsys_defs bsys_idle_def)
  ultimately show ?thesis
    using test_prints_every_event [of bsys_api ?s 64 ?s1 ?s1 ?s3 4096 ?s4 3] by auto
qed

lemma submitted_tc:
  assumes "\<forall>pkt \<in> set pkts. http_segment pkt \<longrightarrow> length (tcp_payload pkt) < 255"
  shows "submitted (\<lambda>pkt. tc_http_parse True (packet_read pkt) (bswap16 ETH_P_IP) pkt) pkts =
    map (\<lambda>pkt. event_of pkt (pad 256 (tcp_payload pkt))) (filter http_segment pkts)"
  using assms
  by (induction pkts)
     (auto simp: tc_http_parse_refines [OF probe_reads_packet_read] tc_spec_def)

definition report :: "bool \<Rightarrow> byte list \<Rightarrow> shown list" where
  "report src_last pkt =
     (if looks_http (tcp_payload pkt)
      then let addr = inet_ntoa (if src_last then src_ip (event_of pkt []) else dst_ip (event_of pkt []))
        in [\<lparr>from_ip = addr, from_port = sport_of pkt, to_ip = addr, to_port = dport_of pkt,
             shown_text = tcp_payload pkt\<rparr>]
      else [])"

lemma http_line_fits:
  assumes "length (tcp_payload pkt) < cap" and "0 \<notin> set (tcp_payload pkt)"
  shows "http_line src_last (event_of pkt (pad cap (tcp_payload pkt))) = Some (report src_last pkt)"
proof -
  have "cstr (pad cap (tcp_payload pkt)) = Some (tcp_payload pkt)" using assms by (simp add: cstr_pad)
  then show ?thesis
    by (simp add: http_line_def handle_event_def report_def event_of_def Let_def unat_port_of)
qed

text \<open>Claim C12: a whole session of tc_trace.c with the tap. When the set-up succeeds (the hook may
  be there already), the ring buffer has room for every record and delivers until SIGINT those the
  tap submitted for the packets of the interface, and the packets carry requests shorter than 255 bytes without NUL, the
  program prints the request of every port-80 segment that contains GET, POST or HTTP, in order
  and with its ports, and nothing else; it exits with 0 and leaves at most the queueing
  discipline it created.\<close>

theorem tc_trace_session:
  assumes "bpf_system api held"
    and "if_nametoindex api (ifname_of argv) s = i" "i \<noteq> 0"
    and "bpf_open_and_load api s = (p, s1)" "p \<noteq> 0"
    and "bpf_tc_hook_create api i s1 = (err, s2)" "err = 0 \<or> err = - EEXIST"
    and "bpf_tc_attach api i 1 1 s2 = (0, s3)"
    and "signal_sigint api s3 = (True, s4)"
    and "ring_buffer_new api p s4 = (rb, s5)" "rb \<noteq> 0"
    and "arrives n" "\<And>j. j < n \<Longrightarrow> \<not> arrives j"
    and "delivered api rb n s5 =
      (submitted (\<lambda>pkt. tc_http_parse True (packet_read pkt) (bswap16 ETH_P_IP) pkt) pkts, s6)"
    and "\<forall>pkt \<in> set pkts. http_segment pkt \<longrightarrow> length (tcp_payload pkt) < 255 \<and> 0 \<notin> set (tcp_payload pkt)"
    and "bpf_tc_detach api i 1 1 s6 = (0, s7)"
  shows "\<exists>r. tc_trace_main api src_last arrives argv s = Some (Exit (Some 0) r) \<and>
    printed r = concat (map (report src_last) (filter http_segment pkts)) \<and>
    (held (world r) = held s \<or> held (world r) = held s + {#Clsact i#})"
proof -
  let ?segs = "filter http_segment pkts"
  let ?evs = "map (\<lambda>pkt. event_of pkt (pad 256 (tcp_payload pkt))) ?segs"
  let ?r = "\<lparr>world = s5, messages = [Started, Watching (ifname_of argv)], printed = []\<rparr>"
  define line where "line = the \<circ> http_line src_last"
  have line: "map line ?evs = map (report src_last) ?segs"
    using assms(15) by (auto simp: line_def http_line_fits)
  have evs: "delivered api rb n (world ?r) = (?evs, s6)"
    using assms(14,15) by (simp add: submitted_tc)
  have "while_not_stopped arrives (poll_round api (http_line src_last) rb) 0 0 ?r =
      Some (True, ?r\<lparr>world := s6, printed := printed ?r @ concat (map line ?evs)\<rparr>)"
    by (rule session_loop [where arrives = arrives and n = n, OF assms(11-13) evs]) (use assms(15) in \<open>auto simp: line_def http_line_fits\<close>)
  then have loop: "while_not_stopped arrives (poll_round api (http_line src_last) rb) 0 0 ?r =
      Some (True, ?r\<lparr>world := s6, printed := concat (map (report src_last) ?segs)\<rparr>)"
    unfolding line by simp
  let ?q = "?r\<lparr>world := s7, printed := concat (map (report src_last) ?segs)\<rparr>"
  have "tc_trace_main api src_last arrives argv s = Some (tc_cleanup api i (err = 0) rb p 0 ?q)"
    using assms loop by (auto simp: tc_trace_main_def tc_watch_def start_def say_def call_def Let_def)
  moreover obtain r where r: "tc_cleanup api i (err = 0) rb p 0 ?q = Exit (Some 0) r"
      "printed r = printed ?q" "messages r = messages ?q"
    by (simp add: tc_cleanup_def run_simps Let_def)
  ultimately have main: "tc_trace_main api src_last arrives argv s = Some (Exit (Some 0) r)" by simp
  have "held (world r) = held s + tc_leftover i err (messages r)"
    using http_system.tc_trace_leaves [of api held, OF _ main _ assms(4,6)] assms(1-3,5)
    by (simp add: http_system_def)
  moreover have "\<not> keeps_filter (messages r)" using r by (simp add: keeps_filter_def)
  ultimately show ?thesis using main r assms(7) by (auto simp: tc_leftover_def)
qed

definition demo_traffic :: "byte list list" where
  "demo_traffic = [demo_packet, demo_request]"

definition bsys_tapped :: "http_event bsys" where
  "bsys_tapped = bsys_idle\<lparr>batches :=
     [submitted (\<lambda>pkt. tc_http_parse True (packet_read pkt) (bswap16 ETH_P_IP) pkt) demo_traffic]\<rparr>"

lemma demo_packet_no_http: "\<not> http_segment demo_packet"
  by code_simp

lemma demo_traffic_segments: "filter http_segment demo_traffic = [demo_request]"
  by (simp add: demo_traffic_def demo_packet_no_http demo_request_facts)

theorem tc_trace_session_witness:
  "\<exists>r. tc_trace_main bsys_api False (\<lambda>k. k = 2) [''tc_trace''] bsys_tapped = Some (Exit (Some 0) r) \<and>
    map shown_text (printed r) = [bytes_of ''GET /''] \<and>
    (bobjs (world r) = {#} \<or> bobjs (world r) = {#Clsact 1#})"
proof -
  let ?evs = "submitted (\<lambda>pkt. tc_http_parse True (packet_read pkt) (bswap16 ETH_P_IP) pkt) demo_traffic"
  let ?a = "bsys_api :: (http_event bsys, http_event) bpf_api"
  let ?s1 = "snd (bpf_open_and_load ?a bsys_tapped)"
  let ?s2 = "snd (bpf_tc_hook_create ?a 1 ?s1)"
  let ?s3 = "snd (bpf_tc_attach ?a 1 1 1 ?s2)"
  let ?s5 = "snd (ring_buffer_new ?a 64 ?s3)"
  let ?s6 = "snd (delivered ?a 4096 2 ?s5)"
  note d = bsys_defs bsys_tapped_def bsys_idle_def
  have fits: "\<forall>pkt \<in> set demo_traffic. http_segment pkt \<longrightarrow> length (tcp_payload pkt) < 255 \<and> 0 \<notin> set (tcp_payload pkt)"
    by (simp add: demo_traffic_def demo_packet_no_http demo_request_facts bytes_of_def)
  have "\<exists>r. tc_trace_main ?a False (\<lambda>k. k = 2) [''tc_trace''] bsys_tapped = Some (Exit (Some 0) r) \<and>
      printed r = concat (map (report False) (filter http_segment demo_traffic)) \<and>
      (bobjs (world r) = bobjs bsys_tapped \<or> bobjs (world r) = bobjs bsys_tapped + {#Clsact 1#})"
  proof (rule tc_trace_session [OF bsys_system])
    show "if_nametoindex ?a (ifname_of [''tc_trace'']) bsys_tapped = 1" by (simp add: d ifname_of_def)
    show "bpf_open_and_load ?a bsys_tapped = (64, ?s1)" by (simp add: d)
    show "bpf_tc_hook_create ?a 1 ?s1 = (0, ?s2)" by (simp add: d)
    show "bpf_tc_attach ?a 1 1 1 ?s2 = (0, ?s3)" by (simp add: d)
    show "signal_sigint ?a ?s3 = (True, ?s3)" by (simp add: d)
    show "ring_buffer_new ?a 64 ?s3 = (4096, ?s5)" by (simp add: d)
    show "delivered ?a 4096 2 ?s5 = (?evs, ?s6)" by (simp add: d numeral_2_eq_2)
    show "bpf_tc_detach ?a 1 1 1 ?s6 = (0, snd (bpf_tc_detach ?a 1 1 1 ?s6))" by (simp add: d)
    show "\<forall>pkt \<in> set demo_traffic. http_segment pkt \<longrightarrow> length (tcp_payload pkt) < 255 \<and> 0 \<notin> set (tcp_payload pkt)"
      by (rule fits)
  qed simp_all
  moreover have "looks_http (tcp_payload demo_request)" by code_simp
  then have "map shown_text (report False demo_request) = [bytes_of ''GET /'']"
    by (simp add: report_def Let_def demo_request_facts)
  ultimately show ?thesis
    by (auto simp: demo_traffic_segments) (simp_all add: bsys_tapped_def bsys_idle_def)
qed

text \<open>Claim C34: what tc_trace.c leaves behind, by its exits. Whatever fails, a run that returns has given
  back the skeleton and the ring buffer. When it made the hook itself, the queueing discipline stays
  and nothing else, whatever the exit. When the hook was there before, exactly the exits after a
  successful attach that report a failed signal handler, ring buffer or detach leave its filter
  attached, and every other exit leaves nothing. When the interface is unknown, the skeleton does not
  load or the hook can be neither made nor found, nothing is left.\<close>

theorem tc_trace_leftovers:
  assumes "bpf_system api held" and "tc_trace_main api src_last arrives argv s = Some (Exit st r)"
    and "i = if_nametoindex api (ifname_of argv) s"
    and "bpf_open_and_load api s = (p, s1)" and "bpf_tc_hook_create api i s1 = (err, s2)"
  shows "held (world r) = held s +
    (if i = 0 \<or> p = 0 then {#}
     else if err = 0 then {#Clsact i#}
     else if err = - EEXIST \<and> keeps_filter (messages r) then {#Filter i 1 1#}
     else {#})"
proof -
  have "http_system api held" using assms(1) by (simp add: http_system_def)
  from http_system.tc_trace_leaves [OF this assms(2-5)] show ?thesis by (simp only: tc_leftover_def)
qed

definition bsys_no_signal :: "http_event bsys" where
  "bsys_no_signal = bsys_idle\<lparr>bobjs := {#Clsact 1#}, no_signal := True\<rparr>"

lemma no_signal_run:
  "tc_trace_main bsys_api False (\<lambda>k. False) [''tc_trace''] bsys_no_signal =
    Some (Exit (Some (-22)) \<lparr>world = bsys_no_signal\<lparr>bobjs := {#Clsact 1, Filter 1 1 1#}, next_ptr := 192\<rparr>,
      messages = [Signal_failed 22], printed = []\<rparr>)"
  by code_simp

theorem tc_trace_leftovers_witness:
  "\<exists>st r. tc_trace_main bsys_api False (\<lambda>k. False) [''tc_trace''] bsys_no_signal = Some (Exit st r) \<and>
     bobjs (world r) = bobjs bsys_no_signal + {#Filter 1 1 1#}"
proof -
  let ?l = "bpf_open_and_load bsys_api bsys_no_signal"
  let ?h = "bpf_tc_hook_create bsys_api 1 (snd ?l)"
  have f: "1 = if_nametoindex bsys_api (ifname_of [''tc_trace'']) bsys_no_signal" "fst ?l \<noteq> 0" "fst ?h = - EEXIST"
    "- EEXIST \<noteq> 0" by code_simp+
  from tc_trace_leftovers [OF bsys_system no_signal_run f(1) prod.collapse [symmetric] prod.collapse [symmetric]] f(2-)
  have "bobjs (bsys_no_signal\<lparr>bobjs := {#Clsact 1, Filter 1 1 1#}, next_ptr := 192\<rparr>) =
      bobjs bsys_no_signal + {#Filter 1 1 1#}" by (simp add: keeps_filter_def)
  then show ?thesis using no_signal_run by auto
qed

text \<open>Further: xdp.c with its program attached by a link. However it ends, the link and the
  skeleton are gone and everything else that was attached, also to the interface, is still
  there; only the ring buffer object may be left to the exit of the process. After a normal end
  (SIGINT) the exit status is a value that was never assigned.\<close>

theorem xdp_exit_restores:
  assumes "bpf_system api held" and "xdp_main api src_last arrives argv s = Some (Exit st r)"
    and "bpf_open_and_load api s = (p, s1)" "p \<noteq> 0"
    and "i = if_nametoindex api (ifname_of argv) s" "i \<noteq> 0"
    and "attach_xdp api p i s1 = (l, s2)" "l \<noteq> 0"
  shows "(held (world r) = held s \<or> (\<exists>rb. held (world r) = held s + {#Ring rb#})) \<and>
    (st = None \<or> (\<exists>e. e > 0 \<and> st = Some (- e)))"
  using http_system.xdp_linked_exit [of api held, OF _ assms(2-)] assms(1)
  by (auto simp: http_system_def)

lemma xdp_idle_run:
  "xdp_main bsys_api False (\<lambda>k. k = 0) [''xdp'', ''eth0''] bsys_idle =
    Some (Exit None \<lparr>world = bsys_idle\<lparr>bobjs := {#Ring 4096#}, next_ptr := 256\<rparr>,
      messages = [Taken_over (Some ''eth0'')], printed = []\<rparr>)"
  by (simp add: xdp_main_def run_simps ifname_of_def bsys_defs bsys_idle_def Let_def while_not_stopped_now)

theorem xdp_exit_restores_witness:
  "\<exists>r. xdp_main bsys_api False (\<lambda>k. k = 0) [''xdp'', ''eth0''] bsys_idle = Some (Exit None r) \<and>
     (bobjs (world r) = {#} \<or> (\<exists>rb. bobjs (world r) = {#Ring rb#}))"
proof -
  let ?s1 = "snd (bpf_open_and_load bsys_api bsys_idle) :: http_event bsys"
  have "bpf_open_and_load bsys_api (bsys_idle :: http_event bsys) = (64, ?s1)"
    "attach_xdp bsys_api 64 2 ?s1 = (4096, snd (attach_xdp bsys_api 64 2 ?s1))"
    "2 = if_nametoindex bsys_api (ifname_of [''xdp'', ''eth0'']) (bsys_idle :: http_event bsys)"
    by (simp_all add: bsys_defs bsys_idle_def ifname_of_def)
  from xdp_exit_restores [OF bsys_system xdp_idle_run this(1) _ this(3) _ this(2)]
  have "bobjs (world \<lparr>world = bsys_idle\<lparr>bobjs := {#Ring 4096#}, next_ptr := 256\<rparr>,
      messages = [Taken_over (Some ''eth0'')], printed = [] :: shown list\<rparr>) = bobjs (bsys_idle :: http_event bsys)
    \<or> (\<exists>rb. bobjs (world \<lparr>world = bsys_idle\<lparr>bobjs := {#Ring 4096#}, next_ptr := 256\<rparr>,
      messages = [Taken_over (Some ''eth0'')], printed = [] :: shown list\<rparr>) =
        bobjs (bsys_idle :: http_event bsys) + {#Ring rb#})" by simp
  then show ?thesis
    unfolding xdp_idle_run by (simp add: bsys_idle_def)
qed

text \<open>Further: xdp.c run on an interface that already has an XDP program attached without a
  link: its own attach fails, and the clean-up, which detaches whatever program is there, takes
  the other program off the interface.\<close>

theorem xdp_failure_detaches_other:
  assumes "bpf_system api held" and "bpf_open_and_load api s = (p, s1)" "p \<noteq> 0"
    and "i = if_nametoindex api (ifname_of argv) s" "i \<noteq> 0"
    and "attach_xdp api p i s1 = (0, s2)" and "\<forall>x \<in># held s. \<not> link_on i x"
  shows "\<exists>r. xdp_main api src_last arrives argv s = Some (Exit (Some (errno api s2)) r) \<and>
    Xdp_prog i \<notin># held (world r) \<and> held (world r) = filter_mset (\<lambda>x. x \<noteq> Xdp_prog i) (held s)"
proof -
  have "held s2 = held s + {#Skel p#}" "\<forall>x \<in># held s. owner x \<noteq> Some p"
    using bpf_system.open_and_load_ok [OF assms(1,2)] bpf_system.xdp_ok [OF assms(1,6)] assms(3) by auto
  then have "held (bpf_destroy api p (bpf_xdp_detach api i s2)) = filter_mset (\<lambda>x. x \<noteq> Xdp_prog i) (held s)"
    using http_system.xdp_cleanup_unlinked [of api held s2 "held s" p i] assms(1,3,7)
    by (simp add: http_system_def)
  then show ?thesis
    using assms(2-6) by (simp add: xdp_main_def run_simps Let_def)
qed

definition bsys_filtered :: "http_event bsys" where
  "bsys_filtered = bsys_idle\<lparr>bobjs := {#Xdp_prog 2, Clsact 2#}\<rparr>"

theorem xdp_failure_detaches_other_witness:
  "\<exists>r. xdp_main bsys_api True (\<lambda>k. False) [''xdp'', ''eth0''] bsys_filtered = Some (Exit (Some 22) r) \<and>
     bobjs (world r) = {#Clsact 2#}"
proof -
  let ?s1 = "snd (bpf_open_and_load bsys_api bsys_filtered)"
  note d = bsys_defs bsys_filtered_def bsys_idle_def ifname_of_def
  have facts: "bpf_open_and_load bsys_api bsys_filtered = (64, ?s1)" "attach_xdp bsys_api 64 2 ?s1 = (0, ?s1)"
    "2 = if_nametoindex bsys_api (ifname_of [''xdp'', ''eth0'']) bsys_filtered"
    "\<forall>x \<in># bobjs bsys_filtered. \<not> link_on 2 x" "errno bsys_api ?s1 = 22"
    "filter_mset (\<lambda>x. x \<noteq> Xdp_prog 2) (bobjs bsys_filtered) = {#Clsact 2#}"
    by (simp_all add: d)
  from xdp_failure_detaches_other [OF bsys_system facts(1) _ facts(3) _ facts(2,4), of True "\<lambda>k. False"]
  show ?thesis unfolding facts(5,6) by auto
qed

text \<open>Further: set-up failures that the exit status hides. uprobe_go.c exits with 0 when the
  probe could not be attached, kprobe_sendmsg.c when the signal handler could not be installed
  and tc_trace.c when there is no ring buffer; lsm_control.c exits with an unassigned value when
  its skeleton could not be loaded. In each case the last message is a complaint.\<close>

theorem loaders_hide_failures:
  fixes f :: "('b, fetch_event) bpf_api" and g :: "('c, 'e) bpf_api" and h :: "('d, http_event) bpf_api"
  shows "(bpf_open f s = (p, s1) \<and> p \<noteq> 0 \<and> bpf_load f p s1 = (0, s2) \<and>
      fst (attach_uprobe_opts f p ''/home/sunder/bin/go/fetch'' ''main.FetchStock'' s2) = 0 \<longrightarrow>
      (\<exists>r. uprobe_go_main f s = Some (Exit (Some 0) r) \<and> last (messages r) = Uprobe_failed)) \<and>
    (bpf_open_and_load g t = (p, t1) \<and> p \<noteq> 0 \<and> bpf_attach g p t1 = (0, t2) \<and> \<not> fst (signal_sigint g t2) \<longrightarrow>
      (\<exists>r e. kprobe_sendmsg_main g arrives t = Some (Exit (Some 0) r) \<and> last (messages r) = Signal_failed e)) \<and>
    (fst (bpf_open_and_load g t) = 0 \<longrightarrow>
      (\<exists>r. lsm_control_main g t = Some (Exit None r) \<and> last (messages r) = Open_failed)) \<and>
    (bpf_open_and_load h v = (p, v1) \<and> p \<noteq> 0 \<and> if_nametoindex h (ifname_of argv) v = i \<and> i \<noteq> 0 \<and>
      bpf_tc_hook_create h i v1 = (0, v2) \<and> bpf_tc_attach h i 1 1 v2 = (0, v3) \<and>
      signal_sigint h v3 = (True, v4) \<and> fst (ring_buffer_new h p v4) = 0 \<longrightarrow>
      (\<exists>r. tc_trace_main h src_last arrives argv v = Some (Exit (Some 0) r) \<and> last (messages r) = Ring_failed))"
proof (intro conjI impI, goal_cases)
  case 1
  then show ?case by (auto simp: uprobe_go_main_def run_simps split: prod.splits)
next
  case 2
  then show ?case by (auto simp: kprobe_sendmsg_main_def run_simps split: prod.splits)
next
  case 3
  then show ?case by (auto simp: lsm_control_main_def run_simps split: prod.splits)
next
  case 4
  then show ?case
    by (auto simp: tc_trace_main_def tc_watch_def tc_cleanup_def run_simps Let_def split: prod.splits)
qed

definition bsys_no_load :: "'e bsys" where
  "bsys_no_load = bsys_idle\<lparr>no_load := True\<rparr>"

theorem loaders_hide_failures_witness:
  "\<exists>r. lsm_control_main bsys_api (bsys_no_load :: http_event bsys) = Some (Exit None r) \<and>
     last (messages r) = Open_failed"
proof -
  have "fst (bpf_open_and_load bsys_api (bsys_no_load :: http_event bsys)) = 0"
    by (simp add: bsys_defs bsys_no_load_def bsys_idle_def)
  then show ?thesis
    by (rule loaders_hide_failures [THEN conjunct2, THEN conjunct2, THEN conjunct1, rule_format])
qed

text \<open>Further: kprobe_sendmsg.c, tc_trace.c and xdp.c return (or reach undefined behaviour) in
  every environment in which SIGINT comes at some time; without it kprobe_sendmsg.c runs on
  for ever once it is set up.\<close>

theorem sigint_ends_loaders:
  "(arrives n \<longrightarrow> kprobe_sendmsg_main g arrives t \<noteq> None \<and>
      tc_trace_main h src_last arrives argv v \<noteq> None \<and> xdp_main h src_last arrives argv v \<noteq> None) \<and>
   ((\<forall>k. \<not> arrives k) \<and> bpf_open_and_load g t = (p, t1) \<and> p \<noteq> 0 \<and> bpf_attach g p t1 = (0, t2) \<and>
      fst (signal_sigint g t2) \<longrightarrow> kprobe_sendmsg_main g arrives t = None)"
proof (intro conjI impI, goal_cases)
  case 1
  then show ?case
    using while_not_stopped_ends [of arrives 0 n]
    by (auto simp: kprobe_sendmsg_main_def Let_def split: prod.splits)
next
  case 2
  then show ?case
    using while_not_stopped_ends [of arrives 0 n]
    by (auto simp: tc_trace_main_def tc_watch_def Let_def split: prod.splits)
next
  case 3
  then show ?case
    using while_not_stopped_ends [of arrives 0 n]
    by (auto simp: xdp_main_def Let_def split: prod.splits)
next
  case 4
  then have none: "while_not_stopped arrives (\<lambda>r. Some (say Dot r)) 0 0 r = None" for r
    by (intro while_not_stopped_None [where P = "\<lambda>_. True"]) auto
  obtain t3 where "signal_sigint g t2 = (True, t3)" using 4 by (cases "signal_sigint g t2") auto
  with 4 none show ?case by (auto simp: kprobe_sendmsg_main_def call_def start_def)
qed

theorem sigint_ends_loaders_witness:
  "kprobe_sendmsg_main bsys_api (\<lambda>k. k = 5) (bsys_idle :: http_event bsys) \<noteq> None \<and>
   tc_trace_main bsys_api True (\<lambda>k. k = 5) [''xdp''] bsys_idle \<noteq> None \<and>
   xdp_main bsys_api True (\<lambda>k. k = 5) [''xdp''] bsys_idle \<noteq> None"
  by (rule sigint_ends_loaders [THEN conjunct1, rule_format, of "\<lambda>k. k = 5" 5]) simp

end
