(* ===== verification/Sessions.thy ===== *)
theory Sessions
  imports Loaders
begin

text \<open>
  Sessions of the eBPF tools from the event in the kernel to the line on the terminal: the unlink
  tracer (src/eBPF/test.bpf.c) under its loader (src/eBPF/test.c), the argument probe
  (src/eBPF/uprobe_go.bpf.c) under src/eBPF/uprobe_go.c, and the XDP program (src/eBPF/xdp.bpf.c)
  under src/eBPF/xdp.c, and both taps on one interface. The session of tc_trace.c is in Loaders. What links the two sides is the
  ring buffer: the polls deliver, in order, the records the kernel side submitted.
\<close>

section \<open>Unlinked files\<close>





section \<open>Stock codes\<close>

text \<open>The records of a sequence of calls of the probed function: process, field of the reserved record
  and registers of each; calls that find no room leave none.\<close>

definition fetched :: "(u64 \<Rightarrow> byte list option) \<Rightarrow> (u64 \<Rightarrow> nat \<Rightarrow> byte list option) \<Rightarrow>
    (u32 \<times> byte list option \<times> go_regs) list \<Rightarrow> fetch_event list" where
  "fetched user_str read_user calls =
     map fst (List.map_filter (\<lambda>(pid, reserved, regs). uprobe_fetch_stock user_str read_user pid reserved regs) calls)"

lemma fetched_lines:
  assumes "\<forall>(pid, reserved, regs) \<in> set calls. reserved \<in> {None, Some (replicate 16 0)} \<and>
      read_user (bx regs) (min 15 (unat (cx regs))) = Some (code regs) \<and>
      length (code regs) = min 15 (unat (cx regs)) \<and> 0 \<notin> set (code regs)"
  shows "fetched user_str read_user calls =
    map (\<lambda>(pid, reserved, regs). \<lparr>fe_pid = pid, fe_stock_code = pad 16 (code regs)\<rparr>)
      (filter (\<lambda>(pid, reserved, regs). reserved \<noteq> None) calls)"
  using assms
proof (induction calls)
  case (Cons c calls)
  obtain pid reserved regs where c: "c = (pid, reserved, regs)" by (cases c)
  have rest: "fetched user_str read_user calls =
      map (\<lambda>(pid, reserved, regs). \<lparr>fe_pid = pid, fe_stock_code = pad 16 (code regs)\<rparr>)
        (filter (\<lambda>(pid, reserved, regs). reserved \<noteq> None) calls)"
    using Cons by simp
  have "uprobe_fetch_stock user_str read_user pid reserved regs = None" if "reserved = None"
    using that by (simp add: uprobe_fetch_stock_def)
  moreover have "\<exists>line. uprobe_fetch_stock user_str read_user pid reserved regs =
      Some (\<lparr>fe_pid = pid, fe_stock_code = pad 16 (code regs)\<rparr>, line)" if "reserved \<noteq> None"
  proof -
    have "reserved = Some (replicate 16 0)" using that Cons.prems c by auto
    then show ?thesis using Cons.prems c by (simp add: uprobe_fetch_stock_def Let_def unat_code_length pad_def)
  qed
  ultimately show ?case using rest c by (cases "reserved = None") (auto simp: fetched_def List.map_filter_simps)
qed (simp add: fetched_def List.map_filter_simps)

text \<open>Further: a session of uprobe_go.c. Once it is set up it is in the polling loop, and when the
  records come from memory that was zero and the string arguments can be read and have no NUL, it
  has printed after any number of polls the process and the first 15 bytes of the argument of every
  call of \<open>main.FetchStock\<close> that found room in the ring buffer, in order.\<close>

theorem fetch_session:
  assumes "bpf_open api s = (p, s1)" and "p \<noteq> 0" and "bpf_load api p s1 = (0, s2)"
    and "attach_uprobe_opts api p ''/home/sunder/bin/go/fetch'' ''main.FetchStock'' s2 = (l, s3)" and "l \<noteq> 0"
    and "ring_buffer_new api p s3 = (rb, s4)" and "rb \<noteq> 0"
    and "\<forall>(pid, reserved, regs) \<in> set calls. reserved \<in> {None, Some (replicate 16 0)} \<and>
      read_user (bx regs) (min 15 (unat (cx regs))) = Some (code regs) \<and>
      length (code regs) = min 15 (unat (cx regs)) \<and> 0 \<notin> set (code regs)"
    and "fst (delivered api rb n s4) = fetched user_str read_user calls"
  shows "\<exists>r0 r. uprobe_go_main api s = poll_forever api fetch_line rb r0 \<and>
    rounds (poll_round api fetch_line rb) n r0 = Some r \<and>
    printed r = map (\<lambda>(pid, reserved, regs). (sint pid, code regs))
      (filter (\<lambda>(pid, reserved, regs). reserved \<noteq> None) calls)"
proof -
  let ?calls = "filter (\<lambda>(pid, reserved, regs). reserved \<noteq> None) calls"
  let ?ev = "\<lambda>(pid, reserved, regs). \<lparr>fe_pid = pid, fe_stock_code = pad 16 (code regs)\<rparr>"
  let ?r = "\<lparr>world = s4, messages = [Started], printed = []\<rparr>"
  define line where "line = the \<circ> fetch_line"
  have one: "fetch_line (?ev c) = Some [case c of (pid, reserved, regs) \<Rightarrow> (sint pid, code regs)]" if "c \<in> set ?calls" for c
  proof -
    obtain pid reserved regs where c: "c = (pid, reserved, regs)" by (cases c)
    have "length (code regs) < 16" "0 \<notin> set (code regs)" using assms(8) that c by auto
    then show ?thesis using c by (simp add: fetch_line_def cstr_pad)
  qed
  have evs: "delivered api rb n (world ?r) = (map ?ev ?calls, snd (delivered api rb n s4))"
    using assms(9) fetched_lines [OF assms(8), of user_str] by (simp add: prod_eq_iff)
  have run: "rounds (poll_round api fetch_line rb) n ?r =
      Some (?r\<lparr>world := snd (delivered api rb n s4), printed := printed ?r @ concat (map line (map ?ev ?calls))\<rparr>)"
    by (rule poll_rounds [OF assms(7) evs]) (use one in \<open>force simp: line_def\<close>)
  have lines: "map line (map ?ev ?calls) = map (\<lambda>c. [case c of (pid, reserved, regs) \<Rightarrow> (sint pid, code regs)]) ?calls"
    using one by (auto simp: line_def)
  have "uprobe_go_main api s = poll_forever api fetch_line rb ?r"
    using assms(1-7) by (simp add: uprobe_go_main_def run_simps)
  then show ?thesis using run [unfolded lines] by - (rule exI [of _ ?r], simp add: concat_map_singleton)
qed

definition demo_call :: "u32 \<times> byte list option \<times> go_regs" where
  "demo_call = (7, Some (replicate 16 0), \<lparr>ax = 0, bx = 0xc000012000, cx = 2\<rparr>)"

definition demo_memory :: "u64 \<Rightarrow> nat \<Rightarrow> byte list option" where
  "demo_memory a n = Some (take n (bytes_of ''AAPL''))"

theorem fetch_session_witness:
  "\<exists>r0 r. uprobe_go_main bsys_api (bsys_idle\<lparr>batches := [fetched (\<lambda>a. None) demo_memory [demo_call]]\<rparr>) =
      poll_forever bsys_api fetch_line 4096 r0 \<and>
    rounds (poll_round bsys_api fetch_line 4096) 2 r0 = Some r \<and> printed r = [(7, bytes_of ''AA'')]"
proof -
  let ?s = "bsys_idle\<lparr>batches := [fetched (\<lambda>a. None) demo_memory [demo_call]]\<rparr>"
  let ?s1 = "snd (bpf_open bsys_api ?s)"
  let ?s3 = "snd (attach_uprobe_opts bsys_api 64 ''/home/sunder/bin/go/fetch'' ''main.FetchStock'' ?s1)"
  let ?s4 = "snd (ring_buffer_new bsys_api 64 ?s3)"
  have run: "bpf_open bsys_api ?s = (64, ?s1)" "bpf_load bsys_api 64 ?s1 = (0, ?s1)"
    "attach_uprobe_opts bsys_api 64 ''/home/sunder/bin/go/fetch'' ''main.FetchStock'' ?s1 = (4096, ?s3)"
    "ring_buffer_new bsys_api 64 ?s3 = (4096, ?s4)"
    "fst (delivered bsys_api 4096 2 ?s4) = fetched (\<lambda>a. None) demo_memory [demo_call]"
    by (simp_all add: bsys_defs bsys_idle_def numeral_2_eq_2)
  have "\<forall>(pid, reserved, regs) \<in> set [demo_call]. reserved \<in> {None, Some (replicate 16 0)} \<and>
      demo_memory (bx regs) (min 15 (unat (cx regs))) = Some (bytes_of ''AA'') \<and>
      length (bytes_of ''AA'') = min 15 (unat (cx regs)) \<and> 0 \<notin> set (bytes_of ''AA'')"
    by (simp add: demo_call_def demo_memory_def bytes_of_def)
  from fetch_session [OF run(1) _ run(2,3) _ run(4) _ this run(5)] show ?thesis by (auto simp: demo_call_def)
qed

section \<open>Requests under XDP\<close>

text \<open>The packets whose segment the XDP program reports: port 80, and not dropped.\<close>

definition xdp_reports :: "byte list \<Rightarrow> bool" where
  "xdp_reports pkt \<longleftrightarrow> ether_type pkt = 0x800 \<and> http_segment pkt \<and> dport_of pkt \<noteq> 8888"

lemma submitted_xdp:
  assumes "\<forall>pkt \<in> set pkts. xdp_reports pkt \<longrightarrow> length (tcp_payload pkt) < 256"
  shows "submitted (\<lambda>pkt. xdp_pass True (packet_read pkt) pkt) pkts =
    map (\<lambda>pkt. event_of pkt (pad 1024 (tcp_payload pkt))) (filter xdp_reports pkts)"
  using assms
  by (induction pkts)
     (auto simp: xdp_pass_refines [OF probe_reads_packet_read] xdp_spec_def xdp_reports_def http_segment_def
        tcp_segment_def)

text \<open>Claim C15: a session of xdp.c with the XDP program. When the set-up succeeds and the ring buffer
  has room for every record and delivers until SIGINT the records submitted for the packets of the
  interface, whose requests are shorter than 256 bytes and have no NUL, the program prints the request of every port-80 segment
  that contains GET, POST or HTTP and was not dropped for its destination port, in order and with
  its ports, and nothing else. It ends with a status that was never assigned, and everything that
  was attached before is as it was; the ring buffer is left to the exit of the process.\<close>

theorem xdp_session:
  assumes "bpf_system api held"
    and "i = if_nametoindex api (ifname_of argv) s" "i \<noteq> 0"
    and "bpf_open_and_load api s = (p, s1)" "p \<noteq> 0"
    and "attach_xdp api p i s1 = (l, s2)" "l \<noteq> 0"
    and "signal_sigint api s2 = (True, s3)"
    and "ring_buffer_new api p s3 = (rb, s4)" "rb \<noteq> 0"
    and "arrives n" "\<And>j. j < n \<Longrightarrow> \<not> arrives j"
    and "delivered api rb n s4 = (submitted (\<lambda>pkt. xdp_pass True (packet_read pkt) pkt) pkts, s5)"
    and "\<forall>pkt \<in> set pkts. xdp_reports pkt \<longrightarrow> length (tcp_payload pkt) < 256 \<and> 0 \<notin> set (tcp_payload pkt)"
  shows "\<exists>r. xdp_main api src_last arrives argv s = Some (Exit None r) \<and>
    printed r = concat (map (report src_last) (filter xdp_reports pkts)) \<and>
    (held (world r) = held s \<or> (\<exists>rb. held (world r) = held s + {#Ring rb#}))"
proof -
  let ?segs = "filter xdp_reports pkts"
  let ?evs = "map (\<lambda>pkt. event_of pkt (pad 1024 (tcp_payload pkt))) ?segs"
  let ?arg = "if length argv > 1 then Some (argv ! 1) else None"
  let ?r = "\<lparr>world = s4, messages = [Taken_over ?arg], printed = []\<rparr>"
  define line where "line = the \<circ> http_line src_last"
  have fits: "http_line src_last (event_of pkt (pad 1024 (tcp_payload pkt))) = Some (report src_last pkt)"
    if "pkt \<in> set ?segs" for pkt using assms(14) that by (intro http_line_fits) auto
  have evs: "delivered api rb n (world ?r) = (?evs, s5)"
    using assms(13,14) submitted_xdp [of pkts] by simp
  have "while_not_stopped arrives (poll_round api (http_line src_last) rb) 0 0 ?r =
      Some (True, ?r\<lparr>world := s5, printed := printed ?r @ concat (map line ?evs)\<rparr>)"
    by (rule session_loop [where arrives = arrives and n = n, OF assms(10-12) evs])
       (auto simp: line_def fits)
  moreover have line: "map line ?evs = map (report src_last) ?segs" using fits by (auto simp: line_def)
  ultimately have loop: "while_not_stopped arrives (poll_round api (http_line src_last) rb) 0 0 ?r =
      Some (True, ?r\<lparr>world := s5, printed := concat (map (report src_last) ?segs)\<rparr>)"
    unfolding line by simp
  then obtain r where main: "xdp_main api src_last arrives argv s = Some (Exit None r)"
      "printed r = concat (map (report src_last) ?segs)"
    using assms(2-10) by (simp add: xdp_main_def run_simps Let_def)
  then show ?thesis
    using http_system.xdp_linked_exit [of api held, OF _ main(1) assms(4,5,2,3,6,7)] assms(1)
    by (auto simp: http_system_def)
qed

definition bsys_watched :: "http_event bsys" where
  "bsys_watched = bsys_idle\<lparr>batches := [submitted (\<lambda>pkt. xdp_pass True (packet_read pkt) pkt) demo_traffic]\<rparr>"

theorem xdp_session_witness:
  "\<exists>r. xdp_main bsys_api False (\<lambda>k. k = 2) [''xdp'', ''eth0''] bsys_watched = Some (Exit None r) \<and>
    map shown_text (printed r) = [bytes_of ''GET /'']"
proof -
  let ?evs = "submitted (\<lambda>pkt. xdp_pass True (packet_read pkt) pkt) demo_traffic"
  let ?a = "bsys_api :: (http_event bsys, http_event) bpf_api"
  let ?s1 = "snd (bpf_open_and_load ?a bsys_watched)"
  let ?s2 = "snd (attach_xdp ?a 64 2 ?s1)"
  let ?s4 = "snd (ring_buffer_new ?a 64 ?s2)"
  let ?s5 = "snd (delivered ?a 4096 2 ?s4)"
  note d = bsys_defs bsys_watched_def bsys_idle_def
  have rep: "\<not> xdp_reports demo_packet" "xdp_reports demo_request"
    using demo_packet_no_http demo_request_facts by (simp_all add: xdp_reports_def)
  have "\<exists>r. xdp_main ?a False (\<lambda>k. k = 2) [''xdp'', ''eth0''] bsys_watched = Some (Exit None r) \<and>
      printed r = concat (map (report False) (filter xdp_reports demo_traffic)) \<and>
      (bobjs (world r) = bobjs bsys_watched \<or> (\<exists>rb. bobjs (world r) = bobjs bsys_watched + {#Ring rb#}))"
  proof (rule xdp_session [OF bsys_system])
    show "2 = if_nametoindex ?a (ifname_of [''xdp'', ''eth0'']) bsys_watched" by (simp add: d ifname_of_def)
    show "bpf_open_and_load ?a bsys_watched = (64, ?s1)" by (simp add: d)
    show "attach_xdp ?a 64 2 ?s1 = (4096, ?s2)" by (simp add: d)
    show "signal_sigint ?a ?s2 = (True, ?s2)" by (simp add: d)
    show "ring_buffer_new ?a 64 ?s2 = (4096, ?s4)" by (simp add: d)
    show "delivered ?a 4096 2 ?s4 = (?evs, ?s5)" by (simp add: d numeral_2_eq_2)
    show "\<forall>pkt \<in> set demo_traffic. xdp_reports pkt \<longrightarrow> length (tcp_payload pkt) < 256 \<and> 0 \<notin> set (tcp_payload pkt)"
      using rep by (simp add: demo_traffic_def demo_request_facts bytes_of_def)
  qed simp_all
  moreover have "looks_http (tcp_payload demo_request)" by code_simp
  then have "map shown_text (report False demo_request) = [bytes_of ''GET /'']"
    by (simp add: report_def Let_def demo_request_facts)
  ultimately show ?thesis using rep by (auto simp: demo_traffic_def)
qed

section \<open>Both taps on one interface\<close>

text \<open>The XDP program sees a packet first, and the traffic-control program only those it lets through, with
  the protocol of the Ethernet header.\<close>

definition xdp_passes :: "byte list \<Rightarrow> bool" where
  "xdp_passes pkt \<longleftrightarrow> map_option fst (xdp_pass True (packet_read pkt) pkt) = Some XDP_PASS"

definition skb_protocol :: "byte list \<Rightarrow> u16" where
  "skb_protocol pkt = le16 (pkt ! 12) (pkt ! 13)"

lemma skb_protocol_ip: "skb_protocol pkt = bswap16 ETH_P_IP \<longleftrightarrow> ether_type pkt = 0x800"
proof -
  have "skb_protocol pkt = bswap16 ETH_P_IP \<longleftrightarrow> bswap16 (skb_protocol pkt) = ETH_P_IP" by (metis bswap16_bswap16)
  then show ?thesis by (simp add: skb_protocol_def bswap16_le16_eq_iff ether_type_def ETH_P_IP_def)
qed

lemma xdp_passes_iff:
  assumes "14 \<le> length pkt"
  shows "xdp_passes pkt \<longleftrightarrow> \<not> (ether_type pkt = 0x800 \<and> tcp_segment pkt \<and> dport_of pkt = 8888)"
  using assms by (auto simp: xdp_passes_def xdp_pass_refines [OF probe_reads_packet_read] xdp_spec_def)

lemma submitted_tc_passed:
  assumes "\<forall>pkt \<in> set pkts. 14 \<le> length pkt \<and> (xdp_reports pkt \<longrightarrow> length (tcp_payload pkt) < 255)"
  shows "submitted (\<lambda>pkt. tc_http_parse True (packet_read pkt) (skb_protocol pkt) pkt) (filter xdp_passes pkts) =
    map (\<lambda>pkt. event_of pkt (pad 256 (tcp_payload pkt))) (filter xdp_reports pkts)"
  using assms
proof (induction pkts)
  case (Cons pkt pkts)
  have "xdp_reports pkt \<longleftrightarrow> xdp_passes pkt \<and> ether_type pkt = 0x800 \<and> http_segment pkt"
    using Cons.prems by (auto simp: xdp_passes_iff xdp_reports_def http_segment_def)
  with Cons show ?case
    by (auto simp: tc_http_parse_refines [OF probe_reads_packet_read] tc_spec_def skb_protocol_ip)
qed simp

text \<open>Claim C28: the two taps together. On an interface with both programs attached, whatever traffic
  arrives, the reader of the traffic-control tap prints the same lines as the reader of the XDP tap,
  in the same order, when the requests are shorter than 255 bytes and have no NUL and both ring
  buffers have room for every record: the segments the XDP program drops reach neither.\<close>

theorem taps_in_line:
  assumes "\<forall>pkt \<in> set pkts. 14 \<le> length pkt \<and>
      (xdp_reports pkt \<longrightarrow> length (tcp_payload pkt) < 255 \<and> 0 \<notin> set (tcp_payload pkt))"
  shows "map (http_line src_last) (submitted (\<lambda>pkt. tc_http_parse True (packet_read pkt) (skb_protocol pkt) pkt)
        (filter xdp_passes pkts)) =
    map (http_line src_last) (submitted (\<lambda>pkt. xdp_pass True (packet_read pkt) pkt) pkts) \<and>
    map (http_line src_last) (submitted (\<lambda>pkt. xdp_pass True (packet_read pkt) pkt) pkts) =
      map (\<lambda>pkt. Some (report src_last pkt)) (filter xdp_reports pkts)"
proof -
  have tc: "submitted (\<lambda>pkt. tc_http_parse True (packet_read pkt) (skb_protocol pkt) pkt) (filter xdp_passes pkts) =
      map (\<lambda>pkt. event_of pkt (pad 256 (tcp_payload pkt))) (filter xdp_reports pkts)"
    by (rule submitted_tc_passed) (use assms in auto)
  have xdp: "submitted (\<lambda>pkt. xdp_pass True (packet_read pkt) pkt) pkts =
      map (\<lambda>pkt. event_of pkt (pad 1024 (tcp_payload pkt))) (filter xdp_reports pkts)"
    by (rule submitted_xdp) (use assms in force)
  have line: "http_line src_last (event_of pkt (pad cap (tcp_payload pkt))) = Some (report src_last pkt)"
    if "pkt \<in> set (filter xdp_reports pkts)" "255 \<le> cap" for pkt cap
    using assms that by (intro http_line_fits) auto
  show ?thesis unfolding tc xdp by (simp add: line)
qed

theorem taps_in_line_witness:
  "map (http_line False) (submitted (\<lambda>pkt. tc_http_parse True (packet_read pkt) (skb_protocol pkt) pkt)
     (filter xdp_passes [demo_packet, demo_request])) = [Some (report False demo_request)]"
proof -
  have rep: "\<not> xdp_reports demo_packet" "xdp_reports demo_request"
    using demo_packet_no_http demo_request_facts by (simp_all add: xdp_reports_def)
  have "14 \<le> length demo_packet" "14 \<le> length demo_request" by code_simp+
  then show ?thesis using taps_in_line [of "[demo_packet, demo_request]" False] rep
    by (simp add: demo_request_facts bytes_of_def)
qed

end
