(* ===== verification/Uring.thy ===== *)
theory Uring
  imports Prelude "HOL-Library.Multiset"
begin

text \<open>
  The interface of liburing that the file copiers of src/io_uring use, as a parameter of
  their models: a record of operations on an abstract ring state, and the locale \<open>uring\<close> with
  the behaviour the man pages promise.
  \<^item> \<open>queue_sqe\<close> is \<open>io_uring_get_sqe\<close> (\<open>None\<close> is the NULL it returns on a full submission queue)
    with the \<open>io_uring_prep_*\<close> and \<open>io_uring_sqe_set_data\<close> calls that fill the entry;
  \<^item> \<open>submit\<close> is \<open>io_uring_submit\<close>;
  \<^item> \<open>wait_cqe\<close> is \<open>io_uring_wait_cqe\<close> and \<open>peek_cqe\<close> is \<open>io_uring_peek_cqe\<close>; \<open>Inl\<close> is an error
    code, and \<open>None\<close> of \<open>wait_cqe\<close> is waiting for ever;
  \<^item> \<open>cqe_seen\<close> is \<open>io_uring_cqe_seen\<close>, which retires the completion at the head of the queue:
    until then the next wait returns it again.
  A request carries what the program passed: transfer direction, file offset, length, for a
  write the bytes at the buffer address, and the user data. A completion returns the user
  data, the result and, for a read, the bytes the kernel stored in the buffer.
\<close>

datatype rw = Rd | Wr

record 'u sqe =
  sq_kind :: rw
  sq_off :: nat
  sq_len :: nat
  sq_bytes :: "byte list"
  sq_data :: 'u

datatype 'u cqe = Cqe (cq_data: 'u) (cq_res: int) (cq_bytes: "byte list")

record ('r, 'u) ring_api =
  queue_sqe :: "'u sqe \<Rightarrow> 'r \<Rightarrow> 'r option"
  submit :: "'r \<Rightarrow> int \<times> 'r"
  wait_cqe :: "'r \<Rightarrow> ((int + 'u cqe) \<times> 'r) option"
  peek_cqe :: "'r \<Rightarrow> (int + 'u cqe) \<times> 'r"
  cqe_seen :: "'r \<Rightarrow> 'r"

definition EAGAIN :: int where "EAGAIN = 11"

text \<open>
  How a stretch of C code ends: a NULL dereference, a \<open>return\<close> (or \<open>exit\<close>) with its status,
  or control passing on.
\<close>

datatype ('r, 'a) flow = Crash | Return int 'r | Go 'a

text \<open>The effect of one completion on the destination file, for a stable source file: a
  successful read delivers the bytes of the source (and at least one unless at its end), a
  successful write stores a prefix of its bytes, a failure changes nothing.\<close>

definition completion_of :: "byte list \<Rightarrow> 'u sqe \<Rightarrow> 'u cqe \<Rightarrow> byte list \<Rightarrow> byte list \<Rightarrow> bool" where
  "completion_of src s c d d' \<longleftrightarrow> cq_data c = sq_data s \<and>
     (if cq_res c < 0 then d' = d
      else nat (cq_res c) \<le> sq_len s \<and>
        (case sq_kind s of
           Rd \<Rightarrow> cq_bytes c = file_part src (sq_off s) (nat (cq_res c)) \<and>
                 length (cq_bytes c) = nat (cq_res c) \<and> d' = d
         | Wr \<Rightarrow> d' = pwrite d (sq_off s) (take (nat (cq_res c)) (sq_bytes s))))"

text \<open>
  The ring as its user sees it: \<open>queued\<close> are the entries filled and not yet submitted, \<open>flight\<close>
  the requests submitted and not yet completed, \<open>head\<close> the completion taken and not yet retired,
  \<open>dst\<close> the destination file. Completions come in any order; \<open>adm\<close> says which results are to be
  expected of a request, so that a client can state what it needs of the file system (no
  error, full transfers).
\<close>

locale uring =
  fixes api :: "('r, 'u) ring_api"
    and depth :: nat
    and src :: "byte list"
    and queued :: "'r \<Rightarrow> 'u sqe list"
    and flight :: "'r \<Rightarrow> 'u sqe multiset"
    and head :: "'r \<Rightarrow> 'u cqe option"
    and dst :: "'r \<Rightarrow> byte list"
    and adm :: "'u sqe \<Rightarrow> int \<Rightarrow> bool"
  assumes queue_ok: "length (queued r) < depth \<Longrightarrow>
      \<exists>r'. queue_sqe api s r = Some r' \<and> queued r' = queued r @ [s] \<and> flight r' = flight r \<and>
        head r' = head r \<and> dst r' = dst r"
    and queue_full: "depth \<le> length (queued r) \<Longrightarrow> queue_sqe api s r = None"
    and submit_obs: "submit api r = (n, r') \<Longrightarrow> n = int (length (queued r)) \<and> queued r' = [] \<and>
      flight r' = flight r + mset (queued r) \<and> head r' = head r \<and> dst r' = dst r"
    and wait_obs: "head r = None \<Longrightarrow> flight r \<noteq> {#} \<Longrightarrow>
      \<exists>s c r'. wait_cqe api r = Some (Inr c, r') \<and>
        s \<in># flight r \<and> flight r' = flight r - {#s#} \<and> queued r' = queued r \<and> head r' = Some c \<and>
        completion_of src s c (dst r) (dst r') \<and> adm s (cq_res c)"
    and wait_head: "head r = Some c \<Longrightarrow> wait_cqe api r = Some (Inr c, r)"
    and peek_obs: "head r = None \<Longrightarrow> peek_cqe api r = (x, r') \<Longrightarrow> queued r' = queued r \<and>
      (case x of
         Inl e \<Rightarrow> e = - EAGAIN \<and> flight r' = flight r \<and> head r' = None \<and> dst r' = dst r
       | Inr c \<Rightarrow> \<exists>s. s \<in># flight r \<and> flight r' = flight r - {#s#} \<and> head r' = Some c \<and>
           completion_of src s c (dst r) (dst r') \<and> adm s (cq_res c))"
    and peek_head: "head r = Some c \<Longrightarrow> peek_cqe api r = (Inr c, r)"
    and seen_obs: "head (cqe_seen api r) = None \<and> queued (cqe_seen api r) = queued r \<and>
      flight (cqe_seen api r) = flight r \<and> dst (cqe_seen api r) = dst r"
begin

text \<open>Everything handed to the ring and not completed yet.\<close>

definition pending :: "'r \<Rightarrow> 'u sqe multiset" where
  "pending r = flight r + mset (queued r)"

text \<open>The state between two steps of a client: nothing filled, nothing to retire.\<close>

definition quiet :: "'r \<Rightarrow> bool" where
  "quiet r \<longleftrightarrow> queued r = [] \<and> head r = None"

lemma queued_le_pending: "length (queued r) \<le> size (pending r)"
  by (simp add: pending_def)

lemma queue_pending:
  assumes "length (queued r) < depth"
  obtains r' where "queue_sqe api s r = Some r'" "pending r' = add_mset s (pending r)"
    "dst r' = dst r" "queued r' = queued r @ [s]" "head r' = head r"
  using queue_ok [OF assms, of s] by (auto simp: pending_def)

lemma submit_pending:
  assumes "submit api r = (n, r')"
  shows "pending r' = pending r" "queued r' = []" "dst r' = dst r" "0 \<le> n"
    "n = int (length (queued r))" "head r' = head r"
  using submit_obs [OF assms] by (auto simp: pending_def)

lemma seen_pending [simp]:
  "pending (cqe_seen api r) = pending r" "dst (cqe_seen api r) = dst r"
  "queued (cqe_seen api r) = queued r" "head (cqe_seen api r) = None"
  "quiet (cqe_seen api r) \<longleftrightarrow> queued r = []"
  using seen_obs [of r] by (auto simp: pending_def quiet_def)

lemma wait_pending:
  assumes "pending r \<noteq> {#}" and "quiet r"
  obtains s c r' where "wait_cqe api r = Some (Inr c, r')" "s \<in># pending r"
    "pending r' = pending r - {#s#}" "queued r' = []" "completion_of src s c (dst r) (dst r')"
    "adm s (cq_res c)"
  using wait_obs [of r] assms by (auto simp: pending_def quiet_def)

lemma peek_pending:
  assumes "peek_cqe api r = (x, r')" and "quiet r"
  shows "queued r' = []"
    and "x = Inl e \<Longrightarrow> e = - EAGAIN \<and> pending r' = pending r \<and> dst r' = dst r \<and> quiet r'"
    and "x = Inr c \<Longrightarrow> \<exists>s. s \<in># pending r \<and> pending r' = pending r - {#s#} \<and>
      completion_of src s c (dst r) (dst r') \<and> adm s (cq_res c)"
  using peek_obs [OF _ assms(1)] assms(2) by (auto simp: pending_def quiet_def)

end

section \<open>The files of a copy\<close>

text \<open>What \<open>fstat\<close> and the block-device \<open>ioctl\<close> tell about a file descriptor.\<close>

datatype stat_result = Stat_Fails | Block_Device "nat option" | Regular nat | Other_File

text \<open>A position of the destination that already holds its final byte.\<close>

definition settled :: "byte list \<Rightarrow> byte list \<Rightarrow> nat \<Rightarrow> bool" where
  "settled src d p \<longleftrightarrow> p < length d \<and> d ! p = src ! p"

lemma file_part_append: "file_part f off m @ file_part f (off + m) n = file_part f off (m + n)"
  by (simp add: file_part_def take_add add.commute)

lemma take_file_part: "m \<le> n \<Longrightarrow> take m (file_part f off n) = file_part f off m"
  by (simp add: file_part_def min_def)

lemma drop_file_part: "drop m (file_part f off n) = file_part f (off + m) (n - m)"
  by (simp add: file_part_def drop_take add.commute)

lemma pwrite_settles:
  assumes "off + n \<le> length src"
  shows "settled src d p \<Longrightarrow> settled src (pwrite d off (file_part src off n)) p"
    and "p \<in> {off ..< off + n} \<Longrightarrow> settled src (pwrite d off (file_part src off n)) p"
    and "length d \<le> length src \<Longrightarrow> length (pwrite d off (file_part src off n)) \<le> length src"
proof -
  have len: "length (file_part src off n) = n" using assms by simp
  show "settled src d p \<Longrightarrow> settled src (pwrite d off (file_part src off n)) p"
    using len by (auto simp: settled_def length_pwrite nth_pwrite nth_file_part)
  show "settled src (pwrite d off (file_part src off n)) p" if "p \<in> {off ..< off + n}"
  proof -
    have "n \<noteq> 0" using that by auto
    then have "file_part src off n \<noteq> []" using len by (metis list.size(3))
    then show ?thesis
      using that len by (auto simp: settled_def length_pwrite nth_pwrite nth_file_part)
  qed
  show "length d \<le> length src \<Longrightarrow> length (pwrite d off (file_part src off n)) \<le> length src"
    using len assms by (auto simp: length_pwrite)
qed

section \<open>A reference ring\<close>

text \<open>Memory that is always available.\<close>

definition malloc_ok :: "nat \<Rightarrow> byte list option" where
  "malloc_ok n = Some (replicate n 0)"



text \<open>
  A ring that completes requests in order and in full: the instance that shows that the laws
  of the locale can hold together, on which the witnesses of the copiers run.
\<close>

record 'u fifo =
  fifo_queued :: "'u sqe list"
  fifo_flight :: "'u sqe list"
  fifo_head :: "'u cqe option"
  fifo_dst :: "byte list"

definition full_result :: "byte list \<Rightarrow> 'u sqe \<Rightarrow> int \<Rightarrow> bool" where
  "full_result src s n \<longleftrightarrow>
     n = int (case sq_kind s of Rd \<Rightarrow> min (sq_len s) (length src - sq_off s) | Wr \<Rightarrow> sq_len s)"

definition fifo_complete :: "byte list \<Rightarrow> 'u sqe \<Rightarrow> byte list \<Rightarrow> 'u cqe \<times> byte list" where
  "fifo_complete src s d =
     (case sq_kind s of
        Rd \<Rightarrow> (let bs = file_part src (sq_off s) (sq_len s)
               in (Cqe (sq_data s) (int (length bs)) bs, d))
      | Wr \<Rightarrow> (Cqe (sq_data s) (int (sq_len s)) [], pwrite d (sq_off s) (take (sq_len s) (sq_bytes s))))"

definition fifo_peek :: "byte list \<Rightarrow> 'u fifo \<Rightarrow> (int + 'u cqe) \<times> 'u fifo" where
  "fifo_peek src r = (case fifo_head r of
      Some c \<Rightarrow> (Inr c, r)
    | None \<Rightarrow> (case fifo_flight r of
        [] \<Rightarrow> (Inl (- EAGAIN), r)
      | s # rest \<Rightarrow> (let (c, d) = fifo_complete src s (fifo_dst r)
          in (Inr c, r\<lparr>fifo_flight := rest, fifo_head := Some c, fifo_dst := d\<rparr>))))"

definition fifo_api :: "byte list \<Rightarrow> nat \<Rightarrow> ('u fifo, 'u) ring_api" where
  "fifo_api src depth = \<lparr>
     queue_sqe = (\<lambda>s r. if length (fifo_queued r) < depth
        then Some (r\<lparr>fifo_queued := fifo_queued r @ [s]\<rparr>) else None),
     submit = (\<lambda>r. (int (length (fifo_queued r)),
        r\<lparr>fifo_queued := [], fifo_flight := fifo_flight r @ fifo_queued r\<rparr>)),
     wait_cqe = (\<lambda>r. if fifo_head r = None \<and> fifo_flight r = [] then None
        else Some (fifo_peek src r)),
     peek_cqe = fifo_peek src,
     cqe_seen = fifo_head_update (\<lambda>_. None)\<rparr>"

definition fifo_empty :: "'u fifo" where
  "fifo_empty = \<lparr>fifo_queued = [], fifo_flight = [], fifo_head = None, fifo_dst = []\<rparr>"

lemma fifo_complete_ok:
  "fifo_complete src s d = (c, d') \<Longrightarrow> completion_of src s c d d' \<and> full_result src s (cq_res c)"
  by (auto simp: fifo_complete_def completion_of_def full_result_def Let_def file_part_def min_def
      split: rw.splits prod.splits)

lemma fifo_peek_ok:
  "fifo_peek src r = (x, r') \<Longrightarrow> fifo_head r = None \<Longrightarrow> fifo_queued r' = fifo_queued r \<and>
      (case x of
         Inl e \<Rightarrow> e = - EAGAIN \<and> fifo_flight r = [] \<and> r' = r
       | Inr c \<Rightarrow> \<exists>s. s \<in># mset (fifo_flight r) \<and> mset (fifo_flight r') = mset (fifo_flight r) - {#s#} \<and>
           fifo_head r' = Some c \<and>
           completion_of src s c (fifo_dst r) (fifo_dst r') \<and> full_result src s (cq_res c))"
  by (fastforce simp: fifo_peek_def dest: fifo_complete_ok split: list.splits prod.splits)

interpretation fifo: uring "fifo_api src depth" depth src fifo_queued
    "\<lambda>r. mset (fifo_flight r)" fifo_head fifo_dst "full_result src"
proof unfold_locales
  fix r :: "'a fifo"
  assume h: "fifo_head r = None" and "mset (fifo_flight r) \<noteq> {#}"
  then have ne: "fifo_flight r \<noteq> []" by simp
  obtain x r' where p: "fifo_peek src r = (x, r')" by fastforce
  with ne h obtain c where "x = Inr c" by (auto simp: fifo_peek_def split: list.splits prod.splits)
  with p ne fifo_peek_ok [OF p h]
  show "\<exists>s c r'. wait_cqe (fifo_api src depth) r = Some (Inr c, r') \<and> s \<in># mset (fifo_flight r) \<and>
      mset (fifo_flight r') = mset (fifo_flight r) - {#s#} \<and> fifo_queued r' = fifo_queued r \<and>
      fifo_head r' = Some c \<and>
      completion_of src s c (fifo_dst r) (fifo_dst r') \<and> full_result src s (cq_res c)"
    by (auto simp: fifo_api_def)
next
  fix r :: "'a fifo" and x r'
  assume h: "fifo_head r = None" and "peek_cqe (fifo_api src depth) r = (x, r')"
  then have "fifo_peek src r = (x, r')" by (simp add: fifo_api_def)
  from fifo_peek_ok [OF this h] h
  show "fifo_queued r' = fifo_queued r \<and>
      (case x of
         Inl e \<Rightarrow> e = - EAGAIN \<and> mset (fifo_flight r') = mset (fifo_flight r) \<and> fifo_head r' = None \<and>
           fifo_dst r' = fifo_dst r
       | Inr c \<Rightarrow> \<exists>s. s \<in># mset (fifo_flight r) \<and> mset (fifo_flight r') = mset (fifo_flight r) - {#s#} \<and>
           fifo_head r' = Some c \<and>
           completion_of src s c (fifo_dst r) (fifo_dst r') \<and> full_result src s (cq_res c))"
    by (auto split: sum.splits)
qed (auto simp: fifo_api_def fifo_peek_def)

end
