(* ===== verification/Copy_Pipelined.thy ===== *)
theory Copy_Pipelined
  imports Uring
begin

text \<open>
  The pipelined copier src/io_uring/file_uring2.c: at most 64 reads and writes of up to 32 KiB
  in flight, a completed read turned into a write of the same block, short transfers and
  \<open>EAGAIN\<close> results resubmitted. Each C function is a definition with the ring as its state; the
  loops that depend on the completions are partial functions whose value \<open>None\<close> is a run that
  does not end.

  A \<open>struct io_data\<close> is owned by exactly one request at a time, so it travels by value as the
  user data of that request, with the buffer the program allocates behind it. \<open>malloc\<close> is the
  argument \<open>alloc\<close>, which yields the (arbitrary) contents of a new buffer or \<open>None\<close>. File sizes
  and offsets are natural numbers; \<open>write_left\<close>, \<open>reads\<close> and \<open>writes\<close> are integers, and the
  invariant keeps them where the unsigned counters of the program do not wrap around.
\<close>

section \<open>Model\<close>

definition BUF_SIZE :: nat where "BUF_SIZE = 32 * 1024"
definition DEPTH :: nat where "DEPTH = 64"

record io_data =
  is_read :: bool
  first_offset :: nat
  io_offset :: nat
  first_len :: nat
  iov_base :: nat
  iov_len :: nat
  io_buf :: "byte list"

text \<open>The second argument is what \<open>*size\<close> holds before the call.\<close>

fun get_file_size :: "stat_result \<Rightarrow> nat \<Rightarrow> int \<times> nat" where
  "get_file_size Stat_Fails old = (-1, old)"
| "get_file_size (Block_Device None) old = (-1, old)"
| "get_file_size (Block_Device (Some bytes)) old = (0, bytes)"
| "get_file_size (Regular st_size) old = (0, st_size)"
| "get_file_size Other_File old = (-1, old)"

text \<open>The entry \<open>queue_prepped\<close> fills, a \<open>readv\<close> from the source or a \<open>writev\<close> to the
  destination of the one vector of the request.\<close>

definition request :: "io_data \<Rightarrow> io_data sqe" where
  "request data =
     (if is_read data
      then \<lparr>sq_kind = Rd, sq_off = io_offset data, sq_len = iov_len data, sq_bytes = [],
            sq_data = data\<rparr>
      else \<lparr>sq_kind = Wr, sq_off = io_offset data, sq_len = iov_len data,
            sq_bytes = take (iov_len data) (drop (iov_base data) (io_buf data)),
            sq_data = data\<rparr>)"

definition queue_prepped :: "('r, io_data) ring_api \<Rightarrow> io_data \<Rightarrow> 'r \<Rightarrow> 'r option" where
  "queue_prepped api data r = queue_sqe api (request data) r"

definition queue_read ::
  "(nat \<Rightarrow> byte list option) \<Rightarrow> ('r, io_data) ring_api \<Rightarrow> nat \<Rightarrow> nat \<Rightarrow> 'r \<Rightarrow> int \<times> 'r" where
  "queue_read alloc api sz offset r =
     (case alloc sz of
        None \<Rightarrow> (1, r)
      | Some buf \<Rightarrow>
          (let data = \<lparr>is_read = True, first_offset = offset, io_offset = offset,
                 first_len = sz, iov_base = 0, iov_len = sz, io_buf = buf\<rparr>
           in case queue_sqe api \<lparr>sq_kind = Rd, sq_off = offset, sq_len = sz, sq_bytes = [],
                  sq_data = data\<rparr> r of
                None \<Rightarrow> (1, r)
              | Some r' \<Rightarrow> (0, r')))"

definition queue_write :: "('r, io_data) ring_api \<Rightarrow> io_data \<Rightarrow> 'r \<Rightarrow> 'r option" where
  "queue_write api data r =
     (let data' = data\<lparr>is_read := False, io_offset := first_offset data, iov_base := 0,
            iov_len := first_len data\<rparr>
      in map_option (\<lambda>r'. snd (submit api r')) (queue_prepped api data' r))"

text \<open>The first inner loop of \<open>copy_file\<close>: queue reads while the ring has room.\<close>

function fill_reads ::
  "(nat \<Rightarrow> byte list option) \<Rightarrow> ('r, io_data) ring_api \<Rightarrow> nat \<Rightarrow> int \<Rightarrow> int \<Rightarrow> nat \<Rightarrow> 'r \<Rightarrow>
     nat \<times> int \<times> nat \<times> 'r" where
  "fill_reads alloc api insize reads writes offset r =
     (if insize = 0 \<or> reads + writes \<ge> int DEPTH then (insize, reads, offset, r)
      else let this_size = (if insize > BUF_SIZE then BUF_SIZE else insize) in
        case queue_read alloc api this_size offset r of
          (ret, r') \<Rightarrow>
            if ret \<noteq> 0 then (insize, reads, offset, r')
            else fill_reads alloc api (insize - this_size) (reads + 1) writes
                   (offset + this_size) r')"
  by pat_completeness auto
termination
  by (relation "measure (\<lambda>(alloc, api, insize, reads, writes, offset, r). insize)")
     (auto simp: BUF_SIZE_def)

declare fill_reads.simps [simp del]

record 'r copy_state =
  c_left :: int
  c_reads :: int
  c_writes :: int
  c_ring :: 'r

text \<open>
  The body of the second inner loop for one completion: the buffer has received the bytes of a
  completed read. Continuing is \<open>Go\<close>, and \<open>Return 1\<close> the failure of the copy.
\<close>

definition reap_step ::
  "('r, io_data) ring_api \<Rightarrow> io_data cqe \<Rightarrow> 'r copy_state \<Rightarrow> ('r, 'r copy_state) flow" where
  "reap_step api c st =
     (let data = cq_data c; res = cq_res c in
      if res < 0 then
        (if res = - EAGAIN then
           (case queue_prepped api data (c_ring st) of
              None \<Rightarrow> Crash
            | Some r \<Rightarrow> Go (st\<lparr>c_ring := cqe_seen api (snd (submit api r))\<rparr>))
         else Return 1 (c_ring st))
      else
        (case (if is_read data then st_bytes (io_buf data) (iov_base data) (cq_bytes c)
               else Some (io_buf data)) of
           None \<Rightarrow> Crash
         | Some buf \<Rightarrow>
             (let data = data\<lparr>io_buf := buf\<rparr> in
              if nat res \<noteq> iov_len data then
                (case queue_prepped api (data\<lparr>iov_base := iov_base data + nat res,
                        iov_len := iov_len data - nat res,
                        io_offset := io_offset data + nat res\<rparr>) (c_ring st) of
                   None \<Rightarrow> Crash
                 | Some r \<Rightarrow> Go (st\<lparr>c_ring := cqe_seen api (snd (submit api r))\<rparr>))
              else if is_read data then
                (case queue_write api data (c_ring st) of
                   None \<Rightarrow> Crash
                 | Some r \<Rightarrow> Go (st\<lparr>c_left := c_left st - int (first_len data),
                       c_reads := c_reads st - 1, c_writes := c_writes st + 1,
                       c_ring := cqe_seen api r\<rparr>))
              else Go (st\<lparr>c_writes := c_writes st - 1, c_ring := cqe_seen api (c_ring st)\<rparr>))))"

text \<open>The second inner loop: the first completion is waited for, the others are taken as long
  as there are any.\<close>

partial_function (option) reap ::
  "('r, io_data) ring_api \<Rightarrow> bool \<Rightarrow> 'r copy_state \<Rightarrow> ('r, 'r copy_state) flow option" where
  "reap api got_comp st =
     (if c_left st = 0 then Some (Go st)
      else Option.bind
        (if got_comp then Some (peek_cqe api (c_ring st)) else wait_cqe api (c_ring st))
        (\<lambda>(x, r). case x of
            Inl e \<Rightarrow> Some (if got_comp \<and> e = - EAGAIN then Go (st\<lparr>c_ring := r\<rparr>) else Return 1 r)
          | Inr c \<Rightarrow> (case reap_step api c (st\<lparr>c_ring := r\<rparr>) of
                Go st' \<Rightarrow> reap api True st'
              | stop \<Rightarrow> Some stop)))"

text \<open>The outer loop. A failing \<open>io_uring_submit\<close> leaves it with a \<open>break\<close>.\<close>

partial_function (option) copy_loop ::
  "(nat \<Rightarrow> byte list option) \<Rightarrow> ('r, io_data) ring_api \<Rightarrow> nat \<Rightarrow> nat \<Rightarrow> 'r copy_state \<Rightarrow>
     ('r, 'r copy_state) flow option" where
  "copy_loop alloc api insize offset st =
     (if insize = 0 \<and> c_left st = 0 then Some (Go st)
      else case fill_reads alloc api insize (c_reads st) (c_writes st) offset (c_ring st) of
        (insize', reads', offset', r) \<Rightarrow>
          (case (if reads' \<noteq> c_reads st then submit api r else (0, r)) of
             (ret, r') \<Rightarrow>
               if ret < 0 then Some (Go (st\<lparr>c_reads := reads', c_ring := r'\<rparr>))
               else Option.bind (reap api False (st\<lparr>c_reads := reads', c_ring := r'\<rparr>))
                 (\<lambda>fl. case fl of
                    Go st' \<Rightarrow> copy_loop alloc api insize' offset' st'
                  | stop \<Rightarrow> Some stop)))"

text \<open>The last loop: wait for the outstanding writes.\<close>

partial_function (option) drain ::
  "('r, io_data) ring_api \<Rightarrow> int \<Rightarrow> 'r \<Rightarrow> ('r, 'r copy_state) flow option" where
  "drain api writes r =
     (if writes = 0 then Some (Return 0 r)
      else Option.bind (wait_cqe api r)
        (\<lambda>(x, r'). case x of
            Inl e \<Rightarrow> Some (Return 1 r')
          | Inr c \<Rightarrow> if cq_res c < 0 then Some (Return 1 r') 
              else drain api (writes - 1) (cqe_seen api r')))"

definition copy_file ::
  "(nat \<Rightarrow> byte list option) \<Rightarrow> ('r, io_data) ring_api \<Rightarrow> 'r \<Rightarrow> nat \<Rightarrow> ('r, 'r copy_state) flow option"
where
  "copy_file alloc api ring insize =
     Option.bind
       (copy_loop alloc api insize 0
          \<lparr>c_left = int insize, c_reads = 0, c_writes = 0, c_ring = ring\<rparr>)
       (\<lambda>fl. case fl of Go st \<Rightarrow> drain api (c_writes st) (c_ring st) | stop \<Rightarrow> Some stop)"

text \<open>\<open>main\<close>: the results of \<open>open\<close>, \<open>io_uring_queue_init\<close> and \<open>fstat\<close> are its arguments; \<open>exit\<close> is
  \<open>Return\<close>.\<close>

definition main2 ::
  "(nat \<Rightarrow> byte list option) \<Rightarrow> ('r, io_data) ring_api \<Rightarrow> int \<Rightarrow> int \<Rightarrow> int \<Rightarrow> int \<Rightarrow> stat_result \<Rightarrow>
     nat \<Rightarrow> 'r \<Rightarrow> ('r, 'r copy_state) flow option" where
  "main2 alloc api argc source_fd dest_fd init st uninit ring =
     (if argc \<noteq> 3 then Some (Return 1 ring)
      else if source_fd = -1 then Some (Return (-1) ring)
      else if dest_fd = -1 then Some (Return (-1) ring)
      else if init < 0 then Some (Return (-1) ring)
      else case get_file_size st uninit of
          (ret, insize) \<Rightarrow>
            if ret \<noteq> 0 then Some (Return (-1) ring) else copy_file alloc api ring insize)"

section \<open>Requests and the destination file\<close>

definition wf_data :: "byte list \<Rightarrow> io_data \<Rightarrow> bool" where
  "wf_data src d \<longleftrightarrow> 0 < iov_len d \<and> iov_base d + iov_len d = first_len d \<and>
     io_offset d = first_offset d + iov_base d \<and> length (io_buf d) = first_len d \<and>
     first_offset d + first_len d \<le> length src \<and>
     (if is_read d then take (iov_base d) (io_buf d) = file_part src (first_offset d) (iov_base d)
      else io_buf d = file_part src (first_offset d) (first_len d))"

definition wf_req :: "byte list \<Rightarrow> io_data sqe \<Rightarrow> bool" where
  "wf_req src s \<longleftrightarrow> s = request (sq_data s) \<and> wf_data src (sq_data s)"

text \<open>The positions a request still has to settle.\<close>

definition todo :: "io_data sqe \<Rightarrow> nat set" where
  "todo s = (let d = sq_data s in
     if is_read d then {first_offset d ..< first_offset d + first_len d}
     else {io_offset d ..< io_offset d + iov_len d})"

definition rd :: "io_data sqe \<Rightarrow> bool" where
  "rd s \<longleftrightarrow> is_read (sq_data s)"

lemma sq_data_request [simp]: "sq_data (request d) = d"
  by (simp add: request_def)

lemma wf_req_request: "wf_req src (request d) \<longleftrightarrow> wf_data src d"
  by (simp add: wf_req_def)

text \<open>The bytes of a completed read arrive behind those of the earlier parts.\<close>

lemma recv_data:
  assumes "wf_data src d" and "is_read d" and "n \<le> iov_len d"
  shows "\<exists>buf. st_bytes (io_buf d) (iov_base d) (file_part src (io_offset d) n) = Some buf \<and>
    length buf = first_len d \<and>
    take (iov_base d + n) buf = file_part src (first_offset d) (iov_base d + n)"
proof -
  let ?bs = "file_part src (io_offset d) n"
  let ?buf = "take (iov_base d) (io_buf d) @ ?bs @ drop (iov_base d + n) (io_buf d)"
  have len: "length ?bs = n" using assms by (auto simp: wf_data_def)
  have "st_bytes (io_buf d) (iov_base d) ?bs = Some ?buf" "length ?buf = first_len d"
    using assms len by (auto simp: st_bytes_def wf_data_def)
  moreover have "take (iov_base d + n) ?buf = take (iov_base d) (io_buf d) @ ?bs"
    using assms len by (auto simp: wf_data_def)
  moreover have "\<dots> = file_part src (first_offset d) (iov_base d + n)"
    using assms by (simp add: wf_data_def file_part_append)
  ultimately show ?thesis by metis
qed

lemma write_bytes:
  assumes "wf_data src d" and "\<not> is_read d" and "n \<le> iov_len d"
  shows "take n (take (iov_len d) (drop (iov_base d) (io_buf d))) = file_part src (io_offset d) n"
proof -
  have "iov_len d = first_len d - iov_base d" using assms by (auto simp: wf_data_def)
  then show ?thesis using assms by (simp add: wf_data_def drop_file_part take_file_part)
qed

section \<open>The invariant of the copy\<close>

text \<open>Sums over the pending requests.\<close>

definition tally :: "(io_data sqe \<Rightarrow> nat) \<Rightarrow> io_data sqe multiset \<Rightarrow> nat" where
  "tally f P = (\<Sum>s \<in># P. f s)"

lemma tally_simps [simp]:
  "tally f {#} = 0" "tally f (add_mset s P) = f s + tally f P"
  by (simp_all add: tally_def)

lemma tally_eq_0: "tally f P = 0 \<longleftrightarrow> (\<forall>s \<in># P. f s = 0)"
  by (induction P) auto

definition copy_inv ::
  "byte list \<Rightarrow> nat \<Rightarrow> nat \<Rightarrow> int \<Rightarrow> int \<Rightarrow> int \<Rightarrow> io_data sqe multiset \<Rightarrow> byte list \<Rightarrow> bool" where
  "copy_inv src insize offset left reads writes P d \<longleftrightarrow>
     offset + insize = length src \<and> length d \<le> length src \<and>
     (\<forall>s \<in># P. wf_req src s) \<and>
     reads = int (tally (\<lambda>s. if rd s then 1 else 0) P) \<and>
     writes = int (tally (\<lambda>s. if rd s then 0 else 1) P) \<and> reads + writes \<le> int DEPTH \<and>
     left = int insize + int (tally (\<lambda>s. if rd s then first_len (sq_data s) else 0) P) \<and>
     (\<forall>p < offset. settled src d p \<or> (\<exists>s \<in># P. p \<in> todo s))"

text \<open>What is left to do, as a number: every completion makes it smaller.\<close>

definition work :: "io_data sqe \<Rightarrow> nat" where
  "work s = (let d = sq_data s in
     if is_read d then iov_len d + first_len d + 2 else iov_len d + 1)"

definition works :: "nat \<Rightarrow> io_data sqe multiset \<Rightarrow> nat" where
  "works insize P = 4 * insize + tally work P"

lemma size_counts:
  "size P = tally (\<lambda>s. if rd s then 1 else 0) P + tally (\<lambda>s. if rd s then 0 else 1) P"
  by (induction P) auto

lemma copy_inv_size:
  "copy_inv src insize offset left reads writes P d \<Longrightarrow> int (size P) = reads + writes"
  by (simp add: copy_inv_def size_counts)

text \<open>The three ways a completion changes what is pending: a request continued, a read turned
  into a write, a write finished.\<close>

lemma copy_inv_continue:
  assumes "copy_inv src insize offset left reads writes (add_mset s Q) d"
    and "wf_req src s'" and "rd s' = rd s" and "first_len (sq_data s') = first_len (sq_data s)"
    and "\<And>p. settled src d p \<Longrightarrow> settled src d' p"
    and "\<And>p. p \<in> todo s \<Longrightarrow> p \<in> todo s' \<or> settled src d' p"
    and "length d' \<le> length src"
  shows "copy_inv src insize offset left reads writes (add_mset s' Q) d'"
  using assms unfolding copy_inv_def by auto

lemma copy_inv_read_done:
  assumes "copy_inv src insize offset left reads writes (add_mset s Q) d"
    and "wf_req src s'" and "rd s" and "\<not> rd s'" and "todo s \<subseteq> todo s'"
  shows "copy_inv src insize offset (left - int (first_len (sq_data s))) (reads - 1) (writes + 1)
    (add_mset s' Q) d"
  using assms unfolding copy_inv_def by auto

lemma copy_inv_write_done:
  assumes "copy_inv src insize offset left reads writes (add_mset s Q) d"
    and "\<not> rd s"
    and "\<And>p. settled src d p \<Longrightarrow> settled src d' p" and "\<And>p. p \<in> todo s \<Longrightarrow> settled src d' p"
    and "length d' \<le> length src"
  shows "copy_inv src insize offset left reads (writes - 1) Q d'"
  using assms unfolding copy_inv_def by auto

text \<open>A new read moves a block from the unread rest of the source into the ring.\<close>

definition new_read :: "nat \<Rightarrow> nat \<Rightarrow> byte list \<Rightarrow> io_data" where
  "new_read offset sz buf = \<lparr>is_read = True, first_offset = offset, io_offset = offset,
     first_len = sz, iov_base = 0, iov_len = sz, io_buf = buf\<rparr>"

lemma copy_inv_new_read:
  assumes "copy_inv src insize offset left reads writes P d"
    and "0 < t" and "t \<le> insize" and "reads + writes < int DEPTH" and "length buf = t"
  shows "copy_inv src (insize - t) (offset + t) left (reads + 1) writes
    (add_mset (request (new_read offset t buf)) P) d"
proof -
  have "wf_data src (new_read offset t buf)"
    using assms by (simp add: wf_data_def new_read_def copy_inv_def file_part_def)
  moreover have "settled src d p \<or> p \<in> todo (request (new_read offset t buf)) \<or>
      (\<exists>s \<in># P. p \<in> todo s)" if "p < offset + t" for p
  proof (cases "p < offset")
    case True
    then show ?thesis using assms(1) by (auto simp: copy_inv_def)
  next
    case False
    then show ?thesis using that by (simp add: todo_def new_read_def)
  qed
  ultimately show ?thesis
    using assms by (auto simp: copy_inv_def wf_req_request rd_def new_read_def)
qed

lemma works_new_read:
  "0 < t \<Longrightarrow> t \<le> insize \<Longrightarrow>
     works (insize - t) (add_mset (request (new_read offset t buf)) P) \<le> works insize P"
  by (simp add: works_def work_def new_read_def)

lemma copy_inv_no_reads:
  assumes "copy_inv src 0 offset 0 reads writes P d"
  shows "reads = 0"
proof -
  have "\<forall>s \<in># P. (if rd s then first_len (sq_data s) else 0) = 0"
    using assms by (simp add: copy_inv_def tally_eq_0)
  moreover have "0 < first_len (sq_data s)" if "s \<in># P" for s
    using assms that by (auto simp: copy_inv_def wf_req_def wf_data_def)
  ultimately have "\<forall>s \<in># P. \<not> rd s" by (metis less_irrefl)
  then show ?thesis using assms by (simp add: copy_inv_def tally_eq_0)
qed

text \<open>With nothing pending and nothing left, the destination is the source.\<close>

lemma copy_inv_settled:
  assumes "copy_inv src 0 offset 0 reads writes {#} d"
  shows "d = src"
proof (rule nth_equalityI)
  have "settled src d p" if "p < length src" for p
    using assms that by (auto simp: copy_inv_def)
  moreover have "length d \<le> length src" using assms by (simp add: copy_inv_def)
  ultimately show "length d = length src" and "\<And>p. p < length d \<Longrightarrow> d ! p = src ! p"
    by (auto simp: settled_def le_less)
qed

section \<open>The loops over any ring\<close>

text \<open>
  What the copier needs beyond the ring laws: a request inside the file makes progress or fails
  for good, and memory is available. Short reads and short writes are allowed. A transfer that
  fails with \<open>-EAGAIN\<close> is queued again; a ring on which it fails so for ever keeps the copier busy for
  ever.
\<close>

locale faulty = uring api DEPTH src queued flight head dst adm
  for api :: "('r, io_data) ring_api" and src and queued :: "'r \<Rightarrow> io_data sqe list"
    and flight and head and dst and adm +
  fixes alloc :: "nat \<Rightarrow> byte list option"
  assumes adm_outcome: "adm s n \<Longrightarrow> 0 < sq_len s \<Longrightarrow> sq_off s < length src \<Longrightarrow> 0 < n \<or> n < 0 \<and> n \<noteq> - EAGAIN"
    and alloc_ok: "\<exists>b. alloc m = Some b \<and> length b = m"
begin

text \<open>Some transfer inside the file may fail.\<close>

definition fails :: bool where
  "fails \<longleftrightarrow> (\<exists>s n. adm s n \<and> 0 < sq_len s \<and> sq_off s < length src \<and> n < 0)"

lemma queue_prepped_ok:
  assumes "size (pending r) < DEPTH"
  obtains r' where "queue_prepped api d r = Some r'" "pending r' = add_mset (request d) (pending r)"
    "dst r' = dst r"
  using queue_pending [of r "request d"] assms queued_le_pending [of r]
  unfolding queue_prepped_def by (metis le_less_trans)

text \<open>One resubmission: the request goes back in flight.\<close>

lemma resubmit_ok:
  assumes "size (pending r) < DEPTH"
  obtains r' where "queue_prepped api d r = Some r'"
    "pending (snd (submit api r')) = add_mset (request d) (pending r)"
    "queued (snd (submit api r')) = []" "dst (snd (submit api r')) = dst r"
proof -
  obtain r' where r': "queue_prepped api d r = Some r'"
    "pending r' = add_mset (request d) (pending r)" "dst r' = dst r"
    using queue_prepped_ok [OF assms] by metis
  obtain n r'' where "submit api r' = (n, r'')" by fastforce
  with submit_pending [OF this] r' that show thesis by simp
qed

definition inv :: "nat \<Rightarrow> nat \<Rightarrow> 'r copy_state \<Rightarrow> bool" where
  "inv insize offset st \<longleftrightarrow> quiet (c_ring st) \<and>
     copy_inv src insize offset (c_left st) (c_reads st) (c_writes st)
       (pending (c_ring st)) (dst (c_ring st))"

text \<open>Handling a completion keeps the invariant, whichever request it is for and however
  much of it was transferred, and leaves less to do.\<close>

lemma reap_step_read:
  assumes pre: "copy_inv src insize offset (c_left st) (c_reads st) (c_writes st)
      (add_mset (request dt) Q) (dst (c_ring st))"
    and ring: "pending (c_ring st) = Q" and room: "size Q < DEPTH"
    and wf: "wf_data src dt" and rd: "is_read dt"
    and n: "0 < n" "n \<le> iov_len dt"
    and c: "c = Cqe dt (int n) (file_part src (io_offset dt) n)"
  shows "\<exists>st'. reap_step api c st = Go st' \<and> inv insize offset st' \<and>
    works insize (pending (c_ring st')) < works insize (add_mset (request dt) Q)"
proof -
  obtain buf where buf:
    "st_bytes (io_buf dt) (iov_base dt) (file_part src (io_offset dt) n) = Some buf"
    "length buf = first_len dt"
    "take (iov_base dt + n) buf = file_part src (first_offset dt) (iov_base dt + n)"
    using recv_data [OF wf rd n(2)] by auto
  note resubmit = resubmit_ok [of "c_ring st", unfolded ring, OF room]
  show ?thesis
  proof (cases "n = iov_len dt")
    case full: True
    define dw where "dw = dt\<lparr>io_buf := buf, is_read := False, io_offset := first_offset dt,
      iov_base := 0, iov_len := first_len dt\<rparr>"
    have wfw: "wf_data src dw" using wf buf full by (auto simp: wf_data_def dw_def)
    obtain r' where r': "queue_prepped api dw (c_ring st) = Some r'"
      "pending (snd (submit api r')) = add_mset (request dw) Q"
      "queued (snd (submit api r')) = []" "dst (snd (submit api r')) = dst (c_ring st)"
      using resubmit [of dw] by metis
    have "copy_inv src insize offset (c_left st - int (first_len dt)) (c_reads st - 1)
        (c_writes st + 1) (add_mset (request dw) Q) (dst (c_ring st))"
      using copy_inv_read_done [OF pre, of "request dw"] wfw rd
      by (auto simp: wf_req_request rd_def todo_def dw_def Let_def)
    moreover have "works insize (add_mset (request dw) Q) < works insize (add_mset (request dt) Q)"
      using rd by (simp add: works_def work_def dw_def Let_def)
    ultimately show ?thesis
      using r' rd full buf by (simp add: reap_step_def c inv_def queue_write_def dw_def Let_def)
  next
    case short: False
    define dr where "dr = dt\<lparr>io_buf := buf, iov_base := iov_base dt + n,
      iov_len := iov_len dt - n, io_offset := io_offset dt + n\<rparr>"
    have wfr: "wf_data src dr" using wf buf short n rd by (auto simp: wf_data_def dr_def)
    obtain r' where r': "queue_prepped api dr (c_ring st) = Some r'"
      "pending (snd (submit api r')) = add_mset (request dr) Q"
      "queued (snd (submit api r')) = []" "dst (snd (submit api r')) = dst (c_ring st)"
      using resubmit [of dr] by metis
    have "copy_inv src insize offset (c_left st) (c_reads st) (c_writes st)
        (add_mset (request dr) Q) (dst (c_ring st))"
      using pre
      by (rule copy_inv_continue)
         (use wfr rd pre in \<open>auto simp: wf_req_request rd_def todo_def dr_def Let_def copy_inv_def\<close>)
    moreover have "works insize (add_mset (request dr) Q) < works insize (add_mset (request dt) Q)"
      using rd n by (simp add: works_def work_def dr_def Let_def)
    ultimately show ?thesis
      using r' rd short buf by (simp add: reap_step_def c inv_def dr_def Let_def)
  qed
qed

lemma reap_step_write:
  assumes pre: "copy_inv src insize offset (c_left st) (c_reads st) (c_writes st)
      (add_mset (request dt) Q) d"
    and ring: "pending (c_ring st) = Q" "queued (c_ring st) = []" and room: "size Q < DEPTH"
    and wf: "wf_data src dt" and wr: "\<not> is_read dt"
    and n: "0 < n" "n \<le> iov_len dt"
    and c: "cq_data c = dt" "cq_res c = int n"
    and d': "dst (c_ring st) = pwrite d (io_offset dt) (file_part src (io_offset dt) n)"
  shows "\<exists>st'. reap_step api c st = Go st' \<and> inv insize offset st' \<and>
    works insize (pending (c_ring st')) < works insize (add_mset (request dt) Q)"
proof -
  have offs: "io_offset dt + n \<le> length src" using wf n by (auto simp: wf_data_def)
  note settles = pwrite_settles [OF offs, where d = d, folded d']
  have short_dst: "length (dst (c_ring st)) \<le> length src"
    using settles(3) pre by (simp add: copy_inv_def)
  show ?thesis
  proof (cases "n = iov_len dt")
    case full: True
    have "copy_inv src insize offset (c_left st) (c_reads st) (c_writes st - 1) Q (dst (c_ring st))"
      using pre
      by (rule copy_inv_write_done)
         (use settles short_dst wr full in \<open>auto simp: rd_def todo_def Let_def\<close>)
    moreover have "works insize Q < works insize (add_mset (request dt) Q)"
      by (simp add: works_def work_def Let_def)
    ultimately show ?thesis
      using wr full ring by (simp add: reap_step_def c inv_def Let_def)
  next
    case short: False
    define dw where "dw = dt\<lparr>iov_base := iov_base dt + n,
      iov_len := iov_len dt - n, io_offset := io_offset dt + n\<rparr>"
    have wfw: "wf_data src dw" using wf short n wr by (auto simp: wf_data_def dw_def)
    obtain r' where r': "queue_prepped api dw (c_ring st) = Some r'"
      "pending (snd (submit api r')) = add_mset (request dw) Q"
      "queued (snd (submit api r')) = []" "dst (snd (submit api r')) = dst (c_ring st)"
      using resubmit_ok [of "c_ring st", unfolded ring(1), OF room, of dw] by metis
    have rest: "p \<in> todo (request dw) \<or> settled src (dst (c_ring st)) p"
      if "p \<in> todo (request dt)" for p
      using that settles(2) [of p] wr n
      by (cases "p < io_offset dt + n") (auto simp: todo_def dw_def Let_def)
    have "copy_inv src insize offset (c_left st) (c_reads st) (c_writes st)
        (add_mset (request dw) Q) (dst (c_ring st))"
      using pre
      by (rule copy_inv_continue)
         (use wfw wr settles(1) short_dst rest in \<open>auto simp: wf_req_request rd_def dw_def\<close>)
    moreover have "works insize (add_mset (request dw) Q) < works insize (add_mset (request dt) Q)"
      using wr n by (simp add: works_def work_def dw_def Let_def)
    ultimately show ?thesis
      using r' wr short by (simp add: reap_step_def c inv_def dw_def Let_def)
  qed
qed

lemma reap_step_ok:
  assumes pre: "copy_inv src insize offset (c_left st) (c_reads st) (c_writes st) (add_mset s Q) d"
    and ring: "pending (c_ring st) = Q" "queued (c_ring st) = []"
    and compl: "completion_of src s c d (dst (c_ring st))" and adm: "adm s (cq_res c)"
  shows "(\<exists>st'. reap_step api c st = Go st' \<and> inv insize offset st' \<and>
      works insize (pending (c_ring st')) < works insize (add_mset s Q)) \<or>
    fails \<and> reap_step api c st = Return 1 (c_ring st)"
proof -
  define dt n where "dt = sq_data s" and "n = nat (cq_res c)"
  have wf: "wf_data src dt" and s: "s = request dt"
    using pre by (auto simp: copy_inv_def wf_req_def dt_def)
  have lens: "sq_len s = iov_len dt" "sq_off s = io_offset dt" by (simp_all add: s request_def)
  have inside: "0 < sq_len s" "sq_off s < length src" using wf lens by (auto simp: wf_data_def)
  show ?thesis
  proof (cases "0 < cq_res c")
    case False
    then have "cq_res c < 0" "cq_res c \<noteq> - EAGAIN" using adm_outcome [OF adm inside] by auto
    then show ?thesis using adm inside by (auto simp: reap_step_def fails_def)
  next
    case pos: True
    have n: "0 < n" "n \<le> iov_len dt" "cq_res c = int n"
      using pos compl lens by (auto simp: n_def completion_of_def)
    have room: "size Q < DEPTH"
      using copy_inv_size [OF pre] pre by (auto simp: copy_inv_def)
    have dc: "cq_data c = dt" using compl by (simp add: completion_of_def dt_def)
    show ?thesis
    proof (cases "is_read dt")
      case True
      then have "dst (c_ring st) = d" "c = Cqe dt (int n) (file_part src (io_offset dt) n)"
        using compl pos dc by (cases c, auto simp: completion_of_def s request_def n_def)+
      with reap_step_read [OF _ ring(1) room wf True n(1,2)] pre show ?thesis by (simp add: s)
    next
      case False
      have "dst (c_ring st) = pwrite d (io_offset dt) (file_part src (io_offset dt) n)"
        using compl pos False write_bytes [OF wf False n(2)]
        by (auto simp: completion_of_def s request_def n_def)
      with reap_step_write [OF _ ring room wf False n(1,2) dc n(3)] pre show ?thesis by (simp add: s)
    qed
  qed
qed

lemma reap_ok:
  assumes "inv insize offset st" and "got_comp \<or> c_left st = 0 \<or> pending (c_ring st) \<noteq> {#}"
  shows "(\<exists>st'. reap api got_comp st = Some (Go st') \<and> inv insize offset st' \<and>
      works insize (pending (c_ring st')) \<le> works insize (pending (c_ring st)) \<and>
      (\<not> got_comp \<longrightarrow> c_left st \<noteq> 0 \<longrightarrow>
        works insize (pending (c_ring st')) < works insize (pending (c_ring st)))) \<or>
    fails \<and> (\<exists>r. reap api got_comp st = Some (Return 1 r))"
  using assms
proof (induction "works insize (pending (c_ring st))" arbitrary: st got_comp rule: less_induct)
  case less
  define P where "P = pending (c_ring st)"
  have q: "quiet (c_ring st)" and ci: "copy_inv src insize offset (c_left st) (c_reads st)
      (c_writes st) P (dst (c_ring st))"
    using less.prems by (simp_all add: inv_def P_def)
  have taken: ?case if x: "(if got_comp then Some (peek_cqe api (c_ring st))
        else wait_cqe api (c_ring st)) = Some (Inr c, r)" and left: "c_left st \<noteq> 0"
      and s: "s \<in># P" "pending r = P - {#s#}" "queued r = []"
        "completion_of src s c (dst (c_ring st)) (dst r)" "adm s (cq_res c)" for c r s
  proof -
    consider st1 where "reap_step api c (st\<lparr>c_ring := r\<rparr>) = Go st1" "inv insize offset st1"
        "works insize (pending (c_ring st1)) < works insize P"
      | "fails" "reap_step api c (st\<lparr>c_ring := r\<rparr>) = Return 1 r"
      using reap_step_ok [where st = "st\<lparr>c_ring := r\<rparr>" and s = s and Q = "P - {#s#}"
          and insize = insize and offset = offset and d = "dst (c_ring st)" and c = c] ci s by auto
    then show ?thesis
    proof cases
      case (1 st1)
      then consider st' where "reap api True st1 = Some (Go st')" "inv insize offset st'"
          "works insize (pending (c_ring st')) \<le> works insize (pending (c_ring st1))"
        | r' where "fails" "reap api True st1 = Some (Return 1 r')"
        using less.hyps [of st1 True] by (auto simp: P_def)
      moreover have unroll: "reap api got_comp st = reap api True st1" using x left 1(1) by (subst reap.simps) simp
      ultimately show ?thesis using 1 by cases (auto simp: P_def)
    next
      case 2
      then have "reap api got_comp st = Some (Return 1 r)" using x left by (subst reap.simps) simp
      then show ?thesis using 2(1) by blast
    qed
  qed
  show ?case
  proof (cases "c_left st = 0 \<or> got_comp")
    case False
    then have ne: "pending (c_ring st) \<noteq> {#}" using less.prems(2) by simp
    from wait_pending [OF ne q] obtain s c r where "wait_cqe api (c_ring st) = Some (Inr c, r)"
      "s \<in># P" "pending r = P - {#s#}" "queued r = []"
      "completion_of src s c (dst (c_ring st)) (dst r)" "adm s (cq_res c)"
      unfolding P_def by metis
    with False taken [of c r s] show ?thesis by simp
  next
    case True
    obtain x r where pk: "peek_cqe api (c_ring st) = (x, r)" by fastforce
    note obs = peek_pending [OF pk q]
    show ?thesis
    proof (cases "c_left st = 0")
      case True
      then show ?thesis using less.prems by (subst reap.simps) simp
    next
      case left: False
      with True have got: got_comp by simp
      show ?thesis
      proof (cases x)
        case (Inl e)
        then show ?thesis
          using obs left got pk less.prems(1) by (subst reap.simps) (simp add: inv_def)
      next
        case (Inr c)
        with obs(3) obtain s where "s \<in># P" "pending r = P - {#s#}"
          "completion_of src s c (dst (c_ring st)) (dst r)" "adm s (cq_res c)"
          unfolding P_def by blast
        with obs(1) pk got left Inr taken [of c r s] show ?thesis by simp
      qed
    qed
  qed
qed

lemma queue_read_ok:
  assumes "size (pending r) < DEPTH"
  obtains b r' where "queue_read alloc api t offset r = (0, r')" "length b = t"
    "pending r' = add_mset (request (new_read offset t b)) (pending r)" "dst r' = dst r"
    "head r' = head r"
proof -
  obtain b where b: "alloc t = Some b" "length b = t" using alloc_ok by blast
  have "length (queued r) < DEPTH" using assms queued_le_pending [of r] by simp
  from queue_pending [OF this, of "request (new_read offset t b)"] obtain r' where
    "queue_sqe api (request (new_read offset t b)) r = Some r'"
    "pending r' = add_mset (request (new_read offset t b)) (pending r)" "dst r' = dst r"
    "head r' = head r"
    by metis
  with b that show thesis
    by (simp add: queue_read_def request_def new_read_def Let_def)
qed

lemma fill_reads_ok:
  assumes "copy_inv src insize offset left reads writes (pending r) (dst r)"
  shows "\<exists>insize' reads' offset' r'.
    fill_reads alloc api insize reads writes offset r = (insize', reads', offset', r') \<and>
    copy_inv src insize' offset' left reads' writes (pending r') (dst r') \<and>
    works insize' (pending r') \<le> works insize (pending r) \<and>
    (insize' = 0 \<or> int DEPTH \<le> reads' + writes) \<and> reads \<le> reads' \<and> (reads' = reads \<longrightarrow> r' = r) \<and>
    head r' = head r"
  using assms
proof (induction insize arbitrary: reads offset r rule: less_induct)
  case (less insize)
  show ?case
  proof (cases "insize = 0 \<or> reads + writes \<ge> int DEPTH")
    case True
    then show ?thesis using less.prems by (subst fill_reads.simps) auto
  next
    case False
    define t where "t = (if insize > BUF_SIZE then BUF_SIZE else insize)"
    have t: "0 < t" "t \<le> insize" using False by (auto simp: t_def BUF_SIZE_def)
    have "size (pending r) < DEPTH" using copy_inv_size [OF less.prems] False by simp
    from queue_read_ok [OF this, of t offset] obtain b r1 where r1:
      "queue_read alloc api t offset r = (0, r1)" "length b = t"
      "pending r1 = add_mset (request (new_read offset t b)) (pending r)" "dst r1 = dst r"
      "head r1 = head r" .
    have "copy_inv src (insize - t) (offset + t) left (reads + 1) writes (pending r1) (dst r1)"
      using copy_inv_new_read [OF less.prems t _ r1(2)] False r1 by simp
    then obtain insize' reads' offset' r' where rec:
      "fill_reads alloc api (insize - t) (reads + 1) writes (offset + t) r1 =
        (insize', reads', offset', r')"
      "copy_inv src insize' offset' left reads' writes (pending r') (dst r')"
      "works insize' (pending r') \<le> works (insize - t) (pending r1)"
      "insize' = 0 \<or> int DEPTH \<le> reads' + writes" "reads + 1 \<le> reads'" "head r' = head r1"
      using less.IH [of "insize - t" "offset + t" "reads + 1" r1] t by auto
    moreover have "works (insize - t) (pending r1) \<le> works insize (pending r)"
      using works_new_read [OF t] r1 by simp
    moreover have "fill_reads alloc api insize reads writes offset r =
        fill_reads alloc api (insize - t) (reads + 1) writes (offset + t) r1"
      using False r1(1) by (subst fill_reads.simps) (simp add: t_def [symmetric] Let_def)
    ultimately show ?thesis using r1(5) by auto
  qed
qed

text \<open>While something is left to write, something is in flight after the reads are queued.\<close>

lemma copy_inv_pending:
  assumes "copy_inv src insize offset left reads writes P d" and "left \<noteq> 0"
    and "insize = 0 \<or> int DEPTH \<le> reads + writes"
  shows "P \<noteq> {#}"
  using assms by (auto simp: copy_inv_def DEPTH_def)

lemma copy_loop_ok:
  assumes "inv insize offset st"
  shows "(\<exists>offset' st'. copy_loop alloc api insize offset st = Some (Go st') \<and>
      inv 0 offset' st' \<and> c_left st' = 0) \<or>
    fails \<and> (\<exists>r. copy_loop alloc api insize offset st = Some (Return 1 r))"
  using assms
proof (induction "works insize (pending (c_ring st))" arbitrary: insize offset st rule: less_induct)
  case less
  show ?case
  proof (cases "insize = 0 \<and> c_left st = 0")
    case True
    then show ?thesis using less.prems by (subst copy_loop.simps) auto
  next
    case False
    have q: "quiet (c_ring st)" and ci: "copy_inv src insize offset (c_left st) (c_reads st)
        (c_writes st) (pending (c_ring st)) (dst (c_ring st))"
      using less.prems by (simp_all add: inv_def)
    have left: "c_left st \<noteq> 0" using ci False by (auto simp: copy_inv_def)
    from fill_reads_ok [OF ci] obtain insize' reads' offset' r' where f:
      "fill_reads alloc api insize (c_reads st) (c_writes st) offset (c_ring st) =
        (insize', reads', offset', r')"
      "copy_inv src insize' offset' (c_left st) reads' (c_writes st) (pending r') (dst r')"
      "works insize' (pending r') \<le> works insize (pending (c_ring st))"
      "insize' = 0 \<or> int DEPTH \<le> reads' + c_writes st" "reads' = c_reads st \<longrightarrow> r' = c_ring st"
      "head r' = head (c_ring st)"
      by blast
    obtain ret r2 where sub: "(if reads' \<noteq> c_reads st then submit api r' else (0, r')) = (ret, r2)"
      by fastforce
    have r2: "pending r2 = pending r'" "dst r2 = dst r'" "quiet r2" "0 \<le> ret"
      using sub f(5,6) q submit_pending [of r' ret r2] by (auto simp: quiet_def split: if_splits)
    define st1 where "st1 = st\<lparr>c_reads := reads', c_ring := r2\<rparr>"
    have i1: "inv insize' offset' st1" using f(2) r2 by (simp add: inv_def st1_def)
    have "pending (c_ring st1) \<noteq> {#}"
      using copy_inv_pending [OF f(2) left f(4)] r2 by (simp add: st1_def)
    with reap_ok [OF i1, of False] left consider st2 where "reap api False st1 = Some (Go st2)"
        "inv insize' offset' st2" "works insize' (pending (c_ring st2)) < works insize' (pending r')"
      | r where "fails" "reap api False st1 = Some (Return 1 r)"
      using r2 by (auto simp: st1_def)
    then show ?thesis
    proof cases
      case (1 st2)
      have unroll: "copy_loop alloc api insize offset st = copy_loop alloc api insize' offset' st2"
        using f(1) sub r2(4) 1(1) False by (subst copy_loop.simps) (auto simp: st1_def)
      have "works insize' (pending (c_ring st2)) < works insize (pending (c_ring st))" using 1(3) f(3) by simp
      from less.hyps [OF this 1(2)] show ?thesis unfolding unroll .
    next
      case (2 r)
      have "copy_loop alloc api insize offset st = Some (Return 1 r)"
        using f(1) sub r2(4) 2(2) False by (subst copy_loop.simps) (auto simp: st1_def)
      then show ?thesis using 2(1) by blast
    qed
  qed
qed

end

text \<open>A ring on which transfers make progress.\<close>

locale pipelined = faulty +
  assumes adm_progress: "adm s n \<Longrightarrow> 0 < sq_len s \<Longrightarrow> sq_off s < length src \<Longrightarrow> 0 < n"
begin

lemma fails_not: "\<not> fails"
  using adm_progress by (fastforce simp: fails_def)

lemma copy_loop_whole:
  assumes "queued ring = []" and "head ring = None" and "flight ring = {#}" and "dst ring = []"
  shows "\<exists>st. copy_loop alloc api (length src) 0
      \<lparr>c_left = int (length src), c_reads = 0, c_writes = 0, c_ring = ring\<rparr> = Some (Go st) \<and>
    c_left st = 0 \<and> c_reads st = 0 \<and> 0 \<le> c_writes st \<and> c_writes st \<le> 64 \<and>
    c_writes st = int (size (flight (c_ring st)))"
proof -
  let ?st = "\<lparr>c_left = int (length src), c_reads = 0, c_writes = 0, c_ring = ring\<rparr>"
  have "inv (length src) 0 ?st" using assms by (simp add: inv_def copy_inv_def pending_def quiet_def)
  from copy_loop_ok [OF this] obtain offset st where st:
    "copy_loop alloc api (length src) 0 ?st = Some (Go st)" "inv 0 offset st" "c_left st = 0"
    using fails_not by blast
  then have ci: "copy_inv src 0 offset 0 (c_reads st) (c_writes st) (flight (c_ring st))
      (dst (c_ring st))"
    by (auto simp: inv_def pending_def quiet_def)
  then show ?thesis
    using st copy_inv_no_reads [OF ci] copy_inv_size [OF ci]
    by (auto simp: copy_inv_def DEPTH_def)
qed

end

text \<open>The last loop takes completions for finished: it needs whole writes.\<close>

locale faulty_full = faulty +
  assumes adm_write: "adm s n \<Longrightarrow> sq_kind s = Wr \<Longrightarrow> 0 \<le> n \<Longrightarrow> n = int (sq_len s)"
begin

lemma drain_ok:
  assumes "copy_inv src 0 offset 0 0 writes (pending r) (dst r)" and "quiet r"
  shows "(\<exists>r'. drain api writes r = Some (Return 0 r') \<and> pending r' = {#} \<and>
      copy_inv src 0 offset 0 0 0 {#} (dst r')) \<or>
    fails \<and> (\<exists>r'. drain api writes r = Some (Return 1 r'))"
  using assms
proof (induction "size (pending r)" arbitrary: writes r)
  case 0
  then have "pending r = {#}" "writes = 0" by (auto simp: copy_inv_def)
  with 0 show ?case by (subst drain.simps) simp
next
  case (Suc m)
  have ne: "pending r \<noteq> {#}" using Suc.hyps by auto
  from wait_pending [OF ne Suc.prems(2)] obtain s c r1 where s:
    "wait_cqe api r = Some (Inr c, r1)" "s \<in># pending r" "pending r1 = pending r - {#s#}"
    "queued r1 = []" "completion_of src s c (dst r) (dst r1)" "adm s (cq_res c)" .
  then obtain Q where Q: "pending r = add_mset s Q" "pending r1 = Q" by (metis add_mset_remove_trivial_If)
  have pre: "copy_inv src 0 offset 0 0 writes (add_mset s Q) (dst r)"
    using Suc.prems Q by simp
  have wr: "\<not> rd s" "wf_req src s" using pre by (auto simp: copy_inv_def split: if_splits)
  let ?d = "sq_data s"
  have sq: "sq_kind s = Wr" "sq_len s = iov_len ?d" "sq_off s = io_offset ?d"
    "sq_bytes s = take (iov_len ?d) (drop (iov_base ?d) (io_buf ?d))"
    using wr by (metis request_def rd_def wf_req_def sqe.select_convs)+
  have offs: "io_offset ?d + iov_len ?d \<le> length src" and inside: "0 < sq_len s" "sq_off s < length src"
    using wr sq by (auto simp: wf_req_def wf_data_def)
  have some: "writes \<noteq> 0" using pre wr by (simp add: copy_inv_def)
  show ?case
  proof (cases "cq_res c < 0")
    case True
    then have "drain api writes r = Some (Return 1 r1)" using s(1) some by (subst drain.simps) simp
    then show ?thesis using True s(6) inside by (auto simp: fails_def)
  next
    case False
    then have res: "cq_res c = int (iov_len ?d)" using adm_write [OF s(6)] sq by simp
    have d1: "dst r1 = pwrite (dst r) (io_offset ?d) (file_part src (io_offset ?d) (iov_len ?d))"
      using s(5) res sq wr write_bytes [of src ?d "iov_len ?d"]
      by (simp add: completion_of_def wf_req_def rd_def)
    note settles = pwrite_settles [OF offs, where d = "dst r", folded d1]
    have "copy_inv src 0 offset 0 0 (writes - 1) (pending r1) (dst r1)"
      unfolding Q(2) using pre
      by (rule copy_inv_write_done)
         (use wr settles pre in \<open>auto simp: rd_def todo_def Let_def copy_inv_def\<close>)
    moreover have "drain api writes r = drain api (writes - 1) (cqe_seen api r1)"
      using s(1) res some by (subst drain.simps) simp
    ultimately show ?thesis
      using Suc.hyps(1) [of "cqe_seen api r1" "writes - 1"] Suc.hyps(2) Q s(4) by auto
  qed
qed

lemma copy_file_outcome:
  assumes "queued r = []" and "head r = None" and "flight r = {#}" and "dst r = []"
  shows "(\<exists>r'. copy_file alloc api r (length src) = Some (Return 0 r') \<and> dst r' = src \<and>
      flight r' = {#} \<and> queued r' = []) \<or>
    fails \<and> (\<exists>r'. copy_file alloc api r (length src) = Some (Return 1 r'))"
proof -
  let ?st = "\<lparr>c_left = int (length src), c_reads = 0, c_writes = 0, c_ring = r\<rparr>"
  have "inv (length src) 0 ?st"
    using assms by (simp add: inv_def copy_inv_def pending_def quiet_def)
  from copy_loop_ok [OF this] consider offset st where
      "copy_loop alloc api (length src) 0 ?st = Some (Go st)" "inv 0 offset st" "c_left st = 0"
    | r' where "fails" "copy_loop alloc api (length src) 0 ?st = Some (Return 1 r')"
    by blast
  then show ?thesis
  proof cases
    case (1 offset st)
    have ci: "copy_inv src 0 offset 0 (c_reads st) (c_writes st) (pending (c_ring st)) (dst (c_ring st))"
      and q: "quiet (c_ring st)" using 1 by (simp_all add: inv_def)
    have "c_reads st = 0" by (rule copy_inv_no_reads [OF ci])
    with drain_ok [of offset "c_writes st" "c_ring st"] ci q consider r' where
        "drain api (c_writes st) (c_ring st) = Some (Return 0 r')" "pending r' = {#}"
        "copy_inv src 0 offset 0 0 0 {#} (dst r')"
      | r' where "fails" "drain api (c_writes st) (c_ring st) = Some (Return 1 r')" by auto
    then show ?thesis
    proof cases
      case (1 r')
      then show ?thesis using \<open>copy_loop alloc api (length src) 0 ?st = Some (Go st)\<close> copy_inv_settled
        by (auto simp: copy_file_def pending_def)
    next
      case (2 r')
      then show ?thesis using \<open>copy_loop alloc api (length src) 0 ?st = Some (Go st)\<close> by (auto simp: copy_file_def)
    qed
  qed (auto simp: copy_file_def)
qed

end

text \<open>A ring on which nothing fails.\<close>

locale pipelined_full = pipelined +
  assumes whole_write: "adm s n \<Longrightarrow> sq_kind s = Wr \<Longrightarrow> n = int (sq_len s)"

sublocale pipelined_full \<subseteq> faulty_full
  by unfold_locales (rule whole_write)

context pipelined_full
begin

lemma copy_file_ok:
  assumes "queued r = []" and "head r = None" and "flight r = {#}" and "dst r = []"
  shows "\<exists>r'. copy_file alloc api r (length src) = Some (Return 0 r') \<and> dst r' = src \<and>
    flight r' = {#} \<and> queued r' = []"
  using copy_file_outcome [OF assms] fails_not by blast

end

section \<open>The reference ring\<close>

interpretation fifo_pipe: pipelined_full "fifo_api src DEPTH" src fifo_queued
    "\<lambda>r. mset (fifo_flight r)" fifo_head fifo_dst "full_result src" malloc_ok
  by unfold_locales (auto simp: full_result_def malloc_ok_def split: rw.splits)

section \<open>Properties\<close>

text \<open>Claim C3: over any ring that keeps the liburing contract, with completions in any order,
  reads of any positive length and whole writes, the pipelined copier started on a regular
  file ends with status 0, leaves no request behind, and the destination has exactly the bytes
  of the source.\<close>

theorem file_uring2_copies:
  assumes "pipelined_full api src queued flight head dst adm alloc"
    and "queued ring = []" and "head ring = None" and "flight ring = {#}" and "dst ring = []"
    and "source_fd \<noteq> -1" and "dest_fd \<noteq> -1" and "0 \<le> init"
  shows "\<exists>ring'. main2 alloc api 3 source_fd dest_fd init (Regular (length src)) uninit ring =
      Some (Return 0 ring') \<and> dst ring' = src \<and> flight ring' = {#} \<and> queued ring' = []"
  using pipelined_full.copy_file_ok [OF assms(1-5)] assms(6-) by (simp add: main2_def)

theorem file_uring2_copies_witness:
  "\<exists>ring'. main2 malloc_ok (fifo_api [1, 2, 3] DEPTH) 3 4 5 0 (Regular (length [1, 2, 3 :: byte])) 0
      fifo_empty = Some (Return 0 ring') \<and> fifo_dst ring' = [1, 2, 3]"
  using file_uring2_copies [OF fifo_pipe.pipelined_full_axioms [of "[1, 2, 3]"],
      of fifo_empty 4 5 0 0]
  by (auto simp: fifo_empty_def)

text \<open>Claim C7: also when writes come back short, the copying loop ends without failure: the
  submission queue never overflows (no entry pointer is NULL), the counters of reads and writes
  in flight stay between 0 and 64, and at its end the whole source has been read.\<close>

theorem copy_loop_ends:
  assumes "pipelined api src queued flight head dst adm alloc"
    and "queued ring = []" and "head ring = None" and "flight ring = {#}" and "dst ring = []"
  shows "\<exists>st. copy_loop alloc api (length src) 0
      \<lparr>c_left = int (length src), c_reads = 0, c_writes = 0, c_ring = ring\<rparr> = Some (Go st) \<and>
    c_left st = 0 \<and> c_reads st = 0 \<and> 0 \<le> c_writes st \<and> c_writes st \<le> 64 \<and>
    c_writes st = int (size (flight (c_ring st)))"
  using assms by (rule pipelined.copy_loop_whole)

theorem copy_loop_ends_witness:
  "\<exists>st. copy_loop malloc_ok (fifo_api [1, 2] DEPTH) (length [1, 2 :: byte]) 0
      \<lparr>c_left = int (length [1, 2 :: byte]), c_reads = 0, c_writes = 0, c_ring = fifo_empty\<rparr> =
        Some (Go st) \<and> c_left st = 0 \<and> c_writes st \<le> 64"
  using copy_loop_ends [OF fifo_pipe.pipelined_axioms, of fifo_empty "[1, 2]"]
  by (auto simp: fifo_empty_def)

text \<open>Further: when \<open>io_uring_submit\<close> fails for the reads queued first, the copy reports the
  error on stderr only and returns 0, the status of a complete copy, although nothing was
  copied.\<close>

theorem copy_file_hides_submit_failure:
  assumes "fill_reads alloc api insize 0 0 0 ring = (insize', reads', offset', r)"
    and "insize \<noteq> 0" and "reads' \<noteq> 0" and "submit api r = (err, r')" and "err < 0"
  shows "copy_file alloc api ring insize = Some (Return 0 r')"
proof -
  have "copy_loop alloc api insize 0
      \<lparr>c_left = int insize, c_reads = 0, c_writes = 0, c_ring = ring\<rparr> =
    Some (Go \<lparr>c_left = int insize, c_reads = reads', c_writes = 0, c_ring = r'\<rparr>)"
    using assms by (subst copy_loop.simps) simp
  then show ?thesis by (simp add: copy_file_def drain.simps)
qed

definition broken_api :: "(io_data fifo, io_data) ring_api" where
  "broken_api = (fifo_api [1] DEPTH)\<lparr>submit := \<lambda>r. (- 5, r)\<rparr>"

theorem copy_file_hides_submit_failure_witness:
  "\<exists>r'. copy_file malloc_ok broken_api fifo_empty 1 = Some (Return 0 r') \<and> fifo_dst r' = []"
proof -
  have f: "fill_reads malloc_ok broken_api 1 0 0 0 fifo_empty =
      (0, 1, 1, fifo_empty\<lparr>fifo_queued := [request (new_read 0 1 [0])]\<rparr>)"
    by (simp add: fill_reads.simps queue_read_def malloc_ok_def broken_api_def fifo_api_def
        fifo_empty_def DEPTH_def BUF_SIZE_def request_def new_read_def Let_def)
  have "copy_file malloc_ok broken_api fifo_empty 1 =
      Some (Return 0 (fifo_empty\<lparr>fifo_queued := [request (new_read 0 1 [0])]\<rparr>))"
    by (rule copy_file_hides_submit_failure [OF f, of "- 5"]) (simp_all add: broken_api_def)
  then show ?thesis by (simp add: fifo_empty_def)
qed

text \<open>Further: the final loop counts any non-negative completion as a finished write: a write
  that transferred fewer bytes than asked for is not resumed and the copy still returns 0.\<close>

theorem drain_ignores_short_write:
  assumes "wait_cqe api ring = Some (Inr (Cqe data (int n) bs), ring')" and "n < iov_len data"
  shows "drain api 1 ring = Some (Return 0 (cqe_seen api ring'))"
  using assms(1) by (subst drain.simps) (simp add: drain.simps)

definition short_write_api :: "(byte list, io_data) ring_api" where
  "short_write_api = \<lparr>queue_sqe = (\<lambda>s d. Some d), submit = (\<lambda>d. (0, d)),
     wait_cqe = (\<lambda>d. Some (Inr (Cqe (new_read 0 2 [7, 8]) (int 1) []), d @ [7])),
     peek_cqe = (\<lambda>d. (Inl (- EAGAIN), d)), cqe_seen = (\<lambda>d. d)\<rparr>"

theorem drain_ignores_short_write_witness:
  "drain short_write_api 1 [] = Some (Return 0 [7])"
  using drain_ignores_short_write [of short_write_api "[]" "new_read 0 2 [7, 8]" 1 "[]" "[7]"]
  by (simp add: short_write_api_def new_read_def)

end
