(* ===== verification/Copy_Faults.thy ===== *)
theory Copy_Faults
  imports Copy_Pipelined
begin

text \<open>
  The pipelined copier of src/io_uring/file_uring2.c on a file system whose transfers may fail: what
  it reports, and a ring over a disk with bad blocks on which that can be seen.
\<close>

section \<open>A disk with bad blocks\<close>

text \<open>The reference ring of Uring, in which the requests that \<open>bad\<close> holds of fail with an input/output
  error and change nothing.\<close>

definition EIO :: int where "EIO = 5"

definition disk_result :: "('u sqe \<Rightarrow> bool) \<Rightarrow> byte list \<Rightarrow> 'u sqe \<Rightarrow> int \<Rightarrow> bool" where
  "disk_result bad src s n \<longleftrightarrow> (if bad s then n = - EIO else full_result src s n)"

definition disk_complete :: "('u sqe \<Rightarrow> bool) \<Rightarrow> byte list \<Rightarrow> 'u sqe \<Rightarrow> byte list \<Rightarrow> 'u cqe \<times> byte list" where
  "disk_complete bad src s d = (if bad s then (Cqe (sq_data s) (- EIO) [], d) else fifo_complete src s d)"

definition disk_peek :: "('u sqe \<Rightarrow> bool) \<Rightarrow> byte list \<Rightarrow> 'u fifo \<Rightarrow> (int + 'u cqe) \<times> 'u fifo" where
  "disk_peek bad src r = (case fifo_head r of
      Some c \<Rightarrow> (Inr c, r)
    | None \<Rightarrow> (case fifo_flight r of
        [] \<Rightarrow> (Inl (- EAGAIN), r)
      | s # rest \<Rightarrow> (case disk_complete bad src s (fifo_dst r) of
          (c, d) \<Rightarrow> (Inr c, r\<lparr>fifo_flight := rest, fifo_head := Some c, fifo_dst := d\<rparr>))))"

definition disk_api :: "('u sqe \<Rightarrow> bool) \<Rightarrow> byte list \<Rightarrow> nat \<Rightarrow> ('u fifo, 'u) ring_api" where
  "disk_api bad src depth = (fifo_api src depth)\<lparr>
     wait_cqe := (\<lambda>r. if fifo_head r = None \<and> fifo_flight r = [] then None else Some (disk_peek bad src r)),
     peek_cqe := disk_peek bad src\<rparr>"

lemma disk_complete_ok:
  "disk_complete bad src s d = (c, d') \<Longrightarrow> completion_of src s c d d' \<and> disk_result bad src s (cq_res c)"
  using fifo_complete_ok [of src s d c d']
  by (auto simp: disk_complete_def disk_result_def completion_of_def EIO_def split: if_splits)

lemma disk_peek_ok:
  "disk_peek bad src r = (x, r') \<Longrightarrow> fifo_head r = None \<Longrightarrow> fifo_queued r' = fifo_queued r \<and>
      (case x of
         Inl e \<Rightarrow> e = - EAGAIN \<and> fifo_flight r = [] \<and> r' = r
       | Inr c \<Rightarrow> \<exists>s. s \<in># mset (fifo_flight r) \<and> mset (fifo_flight r') = mset (fifo_flight r) - {#s#} \<and>
           fifo_head r' = Some c \<and>
           completion_of src s c (fifo_dst r) (fifo_dst r') \<and> disk_result bad src s (cq_res c))"
  by (fastforce simp: disk_peek_def dest: disk_complete_ok split: list.splits prod.splits)

interpretation disk: uring "disk_api bad src depth" depth src fifo_queued
    "\<lambda>r. mset (fifo_flight r)" fifo_head fifo_dst "disk_result bad src" for bad src depth
proof unfold_locales
  fix r :: "'a fifo"
  assume h: "fifo_head r = None" and "mset (fifo_flight r) \<noteq> {#}"
  then have ne: "fifo_flight r \<noteq> []" by simp
  obtain x r' where p: "disk_peek bad src r = (x, r')" by fastforce
  with ne h obtain c where "x = Inr c" by (auto simp: disk_peek_def split: list.splits prod.splits)
  with p ne disk_peek_ok [OF p h]
  show "\<exists>s c r'. wait_cqe (disk_api bad src depth) r = Some (Inr c, r') \<and> s \<in># mset (fifo_flight r) \<and>
      mset (fifo_flight r') = mset (fifo_flight r) - {#s#} \<and> fifo_queued r' = fifo_queued r \<and>
      fifo_head r' = Some c \<and>
      completion_of src s c (fifo_dst r) (fifo_dst r') \<and> disk_result bad src s (cq_res c)"
    by (auto simp: disk_api_def)
next
  fix r :: "'a fifo" and x r'
  assume h: "fifo_head r = None" and "peek_cqe (disk_api bad src depth) r = (x, r')"
  then have "disk_peek bad src r = (x, r')" by (simp add: disk_api_def)
  from disk_peek_ok [OF this h] h
  show "fifo_queued r' = fifo_queued r \<and>
      (case x of
         Inl e \<Rightarrow> e = - EAGAIN \<and> mset (fifo_flight r') = mset (fifo_flight r) \<and> fifo_head r' = None \<and>
           fifo_dst r' = fifo_dst r
       | Inr c \<Rightarrow> \<exists>s. s \<in># mset (fifo_flight r) \<and> mset (fifo_flight r') = mset (fifo_flight r) - {#s#} \<and>
           fifo_head r' = Some c \<and>
           completion_of src s c (fifo_dst r) (fifo_dst r') \<and> disk_result bad src s (cq_res c))"
    by (auto split: sum.splits)
qed (auto simp: disk_api_def fifo_api_def disk_peek_def)

interpretation disk_pipe: faulty_full "disk_api bad src DEPTH" src fifo_queued
    "\<lambda>r. mset (fifo_flight r)" fifo_head fifo_dst "disk_result bad src" malloc_ok for bad src
  by unfold_locales
     (auto simp: disk_result_def full_result_def malloc_ok_def EIO_def EAGAIN_def split: rw.splits if_splits)

section \<open>Properties\<close>

text \<open>Claim C8: what file_uring2.c reports when transfers fail. Over any ring that keeps the liburing
  contract, takes every submission and makes whole writes, with completions in any order, reads of
  any length, and any transfer failing with any error but \<open>-EAGAIN\<close>, and with memory for every
  request, the copier ends without a NULL dereference: either with status 0, no request left behind
  and a destination equal to the source, or with status 1. Outside that range it can report success
  for an incomplete copy (\<open>copy_file_hides_submit_failure\<close>, \<open>drain_ignores_short_write\<close>).\<close>

theorem file_uring2_reports_failures:
  assumes "faulty_full api src queued flight head dst adm alloc"
    and "queued ring = []" and "head ring = None" and "flight ring = {#}" and "dst ring = []"
    and "source_fd \<noteq> -1" and "dest_fd \<noteq> -1" and "0 \<le> init"
  shows "\<exists>status ring'. main2 alloc api 3 source_fd dest_fd init (Regular (length src)) uninit ring =
      Some (Return status ring') \<and>
    (status = 0 \<and> dst ring' = src \<and> flight ring' = {#} \<and> queued ring' = [] \<or> status = 1)"
  using faulty_full.copy_file_outcome [OF assms(1-5)] assms(6-) by (auto simp: main2_def)

theorem file_uring2_reports_failures_witness:
  "\<exists>status ring'. main2 malloc_ok (disk_api (\<lambda>s. sq_kind s = Wr) [1, 2, 3] DEPTH) 3 4 5 0
      (Regular (length [1, 2, 3 :: byte])) 0 fifo_empty = Some (Return status ring') \<and>
    (status = 0 \<and> fifo_dst ring' = [1, 2, 3] \<or> status = 1)"
  using file_uring2_reports_failures [OF disk_pipe.faulty_full_axioms
      [of "\<lambda>s. sq_kind s = Wr" "[1, 2, 3]"], of fifo_empty 4 5 0 0]
  by (auto simp: fifo_empty_def)

end
