(* ===== verification/Copy_Batched.thy ===== *)
theory Copy_Batched
  imports Uring
begin

text \<open>
  The batched copiers src/io_uring/file_uring_single_buffer.c and
  src/io_uring/file_uring_multi_buffer.c: up to 64 reads are queued and submitted together, then
  their completions are collected and turned into writes (\<open>read_cqe_recv\<close>), then the completions
  of the writes are collected (\<open>write_cqe_recv\<close>), and the next batch starts. The two programs
  have the same text except for the requests: the first reads into a fixed buffer and writes
  as many bytes as were read, the second reads into a vector and writes the whole vector back.
  That difference is a parameter of the shared loops (\<open>rreq\<close> builds the read of a block,
  \<open>wreq\<close> the write for a completed read), instantiated once per program.

  \<open>exit\<close> is \<open>Return\<close>; a NULL from \<open>malloc\<close> or \<open>io_uring_get_sqe\<close> is dereferenced by the programs
  and is \<open>Crash\<close>. The value \<open>None\<close> is a run that waits for ever. The argument of \<open>alloc\<close> is the
  number of buffer bytes a block needs: the first program allocates a structure whose buffer
  has room for every block, the second one that is as long as the block.
\<close>

section \<open>Model\<close>

definition BATCH :: nat where "BATCH = 64"
definition BLOCK :: nat where "BLOCK = 32 * 1024"

record file_data =
  fd_offset :: nat
  fd_len :: nat
  fd_buf :: "byte list"

fun file_size :: "stat_result \<Rightarrow> int" where
  "file_size Stat_Fails = -1"
| "file_size (Block_Device None) = -1"
| "file_size (Block_Device (Some bytes)) = int bytes"
| "file_size (Regular st_size) = int st_size"
| "file_size Other_File = -1"

text \<open>Taking one completion: the first of a batch is waited for, for the others a peek that
  finds nothing falls back to waiting.\<close>

definition take_cqe :: "('r, 'u) ring_api \<Rightarrow> bool \<Rightarrow> 'r \<Rightarrow> ((int + 'u cqe) \<times> 'r) option" where
  "take_cqe api block r =
     (if block then wait_cqe api r
      else case peek_cqe api r of
          (Inl e, r') \<Rightarrow> if e = - EAGAIN then wait_cqe api r' else Some (Inl e, r')
        | (Inr c, r') \<Rightarrow> Some (Inr c, r'))"

fun read_cqe_recv ::
  "(file_data cqe \<Rightarrow> file_data sqe) \<Rightarrow> ('r, file_data) ring_api \<Rightarrow> bool \<Rightarrow> nat \<Rightarrow> 'r \<Rightarrow>
     ('r, 'r) flow option" where
  "read_cqe_recv wreq api block 0 r =
     (case submit api r of (ret, r') \<Rightarrow> Some (if ret < 0 then Return 1 r' else Go r'))"
| "read_cqe_recv wreq api block (Suc n) r =
     Option.bind (take_cqe api block r) (\<lambda>(x, r'). case x of
         Inl e \<Rightarrow> Some (Return 1 r')
       | Inr c \<Rightarrow>
           if cq_res c < 0 then read_cqe_recv wreq api False n (cqe_seen api r')
           else case queue_sqe api (wreq c) r' of
               None \<Rightarrow> Some Crash
             | Some r'' \<Rightarrow> read_cqe_recv wreq api False n (cqe_seen api r''))"

text \<open>An error or a failed write ends the collection early; the failed completion stays at the
  head of the queue.\<close>

fun write_cqe_recv :: "('r, file_data) ring_api \<Rightarrow> nat \<Rightarrow> 'r \<Rightarrow> 'r option" where
  "write_cqe_recv api 0 r = Some r"
| "write_cqe_recv api (Suc n) r =
     Option.bind (wait_cqe api r) (\<lambda>(x, r'). case x of
         Inl e \<Rightarrow> Some r'
       | Inr c \<Rightarrow> if cq_res c < 0 then Some r' else write_cqe_recv api n (cqe_seen api r'))"

text \<open>The loop of \<open>main\<close>; its variable \<open>flag\<close> is 1 at the start of every round, and 2 only
  between the two collections of a batch.\<close>

partial_function (option) batch_loop ::
  "(nat \<Rightarrow> nat \<Rightarrow> byte list \<Rightarrow> file_data sqe) \<Rightarrow> (file_data cqe \<Rightarrow> file_data sqe) \<Rightarrow>
     (nat \<Rightarrow> byte list option) \<Rightarrow> ('r, file_data) ring_api \<Rightarrow>
     int \<Rightarrow> int \<Rightarrow> nat \<Rightarrow> nat \<Rightarrow> 'r \<Rightarrow> ('r, 'r) flow option" where
  "batch_loop rreq wreq alloc api file_sz insize offset reads r =
     (let this_size = (if int BLOCK > insize then insize else int BLOCK) in
      if insize > 0 then
        (case alloc (nat this_size) of
           None \<Rightarrow> Some Crash
         | Some buf \<Rightarrow>
             (case queue_sqe api (rreq offset (nat this_size) buf) r of
                None \<Rightarrow> Some Crash
              | Some r1 \<Rightarrow>
                  if this_size = insize \<or> reads + 1 \<ge> BATCH then
                    (case submit api r1 of (ret, r2) \<Rightarrow>
                       if ret < 0 then Some (Return 1 r2)
                       else Option.bind (read_cqe_recv wreq api True (reads + 1) r2)
                         (\<lambda>fl. case fl of
                            Go r3 \<Rightarrow> Option.bind (write_cqe_recv api (reads + 1) r3)
                              (\<lambda>r4. if int offset + this_size \<ge> file_sz then Some (Return 0 r4)
                                    else batch_loop rreq wreq alloc api file_sz
                                      (insize - this_size) (offset + nat this_size) 0 r4)
                          | stop \<Rightarrow> Some stop))
                  else if int offset + this_size \<ge> file_sz then Some (Return 0 r1)
                  else batch_loop rreq wreq alloc api file_sz
                         (insize - this_size) (offset + nat this_size) (reads + 1) r1))
      else if int offset \<ge> file_sz then Some (Return 0 r)
      else batch_loop rreq wreq alloc api file_sz insize offset reads r)"

text \<open>\<open>main\<close> of both programs: the results of the two \<open>open\<close> calls, of \<open>io_uring_queue_init\<close> and
  of \<open>fstat\<close> are its arguments.\<close>

definition batch_main ::
  "(nat \<Rightarrow> nat \<Rightarrow> byte list \<Rightarrow> file_data sqe) \<Rightarrow> (file_data cqe \<Rightarrow> file_data sqe) \<Rightarrow>
     (nat \<Rightarrow> byte list option) \<Rightarrow> ('r, file_data) ring_api \<Rightarrow> int \<Rightarrow> int \<Rightarrow> int \<Rightarrow> int \<Rightarrow> stat_result \<Rightarrow>
     'r \<Rightarrow> ('r, 'r) flow option" where
  "batch_main rreq wreq alloc api argc source_fd dest_fd init st ring =
     (if argc \<noteq> 3 then Some (Return 1 ring)
      else if source_fd = -1 then Some (Return (-1) ring)
      else if dest_fd = -1 then Some (Return (-1) ring)
      else if init < 0 then Some (Return (-1) ring)
      else (let file_sz = file_size st
            in batch_loop rreq wreq alloc api file_sz file_sz 0 0 ring))"

text \<open>The single-buffer program: \<open>io_uring_prep_read\<close> into \<open>data->buffer\<close>, and
  \<open>io_uring_prep_write\<close> of the bytes read. The buffer holds what the read delivered.\<close>

definition single_read :: "nat \<Rightarrow> nat \<Rightarrow> byte list \<Rightarrow> file_data sqe" where
  "single_read offset this_size buf = \<lparr>sq_kind = Rd, sq_off = offset, sq_len = this_size,
     sq_bytes = [], sq_data = \<lparr>fd_offset = offset, fd_len = this_size, fd_buf = buf\<rparr>\<rparr>"

definition received :: "file_data cqe \<Rightarrow> byte list" where
  "received c = cq_bytes c @ drop (length (cq_bytes c)) (fd_buf (cq_data c))"

definition single_write :: "file_data cqe \<Rightarrow> file_data sqe" where
  "single_write c = (let bytes_read = nat (cq_res c); data = (cq_data c)\<lparr>fd_buf := received c\<rparr> in
     \<lparr>sq_kind = Wr, sq_off = fd_offset data, sq_len = bytes_read,
      sq_bytes = take bytes_read (fd_buf data), sq_data = data\<rparr>)"

text \<open>The multi-buffer program: \<open>io_uring_prep_readv\<close> into the vector behind the struct, and
  \<open>io_uring_prep_writev\<close> of the whole vector.\<close>

definition multi_read :: "nat \<Rightarrow> nat \<Rightarrow> byte list \<Rightarrow> file_data sqe" where
  "multi_read offset this_size buf = \<lparr>sq_kind = Rd, sq_off = offset, sq_len = this_size,
     sq_bytes = [], sq_data = \<lparr>fd_offset = offset, fd_len = this_size, fd_buf = buf\<rparr>\<rparr>"

definition multi_write :: "file_data cqe \<Rightarrow> file_data sqe" where
  "multi_write c = (let data = (cq_data c)\<lparr>fd_buf := received c\<rparr> in
     \<lparr>sq_kind = Wr, sq_off = fd_offset data, sq_len = fd_len data,
      sq_bytes = take (fd_len data) (fd_buf data), sq_data = data\<rparr>)"

definition single_main ::
  "(nat \<Rightarrow> byte list option) \<Rightarrow> ('r, file_data) ring_api \<Rightarrow> int \<Rightarrow> int \<Rightarrow> int \<Rightarrow> int \<Rightarrow> stat_result \<Rightarrow>
     'r \<Rightarrow> ('r, 'r) flow option" where
  "single_main = batch_main single_read single_write"

definition multi_main ::
  "(nat \<Rightarrow> byte list option) \<Rightarrow> ('r, file_data) ring_api \<Rightarrow> int \<Rightarrow> int \<Rightarrow> int \<Rightarrow> int \<Rightarrow> stat_result \<Rightarrow>
     'r \<Rightarrow> ('r, 'r) flow option" where
  "multi_main = batch_main multi_read multi_write"

section \<open>The loops over a ring with whole transfers\<close>

definition span :: "'u sqe \<Rightarrow> nat set" where
  "span s = {sq_off s ..< sq_off s + sq_len s}"

definition good_write :: "byte list \<Rightarrow> 'u sqe \<Rightarrow> bool" where
  "good_write src s \<longleftrightarrow> sq_kind s = Wr \<and> sq_off s + sq_len s \<le> length src \<and>
     sq_bytes s = file_part src (sq_off s) (sq_len s)"

text \<open>
  What makes either program a copier: a block read in full is written back to where it came
  from, the file system transfers whole blocks, and memory is available.
\<close>

locale batched = uring api BATCH src queued flight head dst "full_result src"
  for api :: "('r, file_data) ring_api" and src and queued :: "'r \<Rightarrow> file_data sqe list"
    and flight and head and dst +
  fixes rreq :: "nat \<Rightarrow> nat \<Rightarrow> byte list \<Rightarrow> file_data sqe"
    and wreq :: "file_data cqe \<Rightarrow> file_data sqe"
    and alloc :: "nat \<Rightarrow> byte list option"
  assumes rreq_shape: "sq_kind (rreq off n b) = Rd" "sq_off (rreq off n b) = off"
      "sq_len (rreq off n b) = n"
    and wreq_shape: "length b = n \<Longrightarrow> length bs = n \<Longrightarrow>
      wreq (Cqe (sq_data (rreq off n b)) (int n) bs) = \<lparr>sq_kind = Wr, sq_off = off, sq_len = n,
        sq_bytes = bs, sq_data = sq_data (wreq (Cqe (sq_data (rreq off n b)) (int n) bs))\<rparr>"
    and alloc_ok: "\<exists>b. alloc m = Some b \<and> length b = m"
begin

definition good_read :: "file_data sqe \<Rightarrow> bool" where
  "good_read s \<longleftrightarrow> (\<exists>off n b. s = rreq off n b \<and> length b = n \<and> off + n \<le> length src)"

lemma take_cqe_ok:
  assumes "head r = None" and "flight r \<noteq> {#}"
  obtains s c r' where "take_cqe api block r = Some (Inr c, r')" "s \<in># flight r"
    "flight r' = flight r - {#s#}" "queued r' = queued r" "head r' = Some c"
    "completion_of src s c (dst r) (dst r')" "full_result src s (cq_res c)"
proof (cases block)
  case True
  from wait_obs [OF assms] obtain s c r' where "wait_cqe api r = Some (Inr c, r')"
    "s \<in># flight r" "flight r' = flight r - {#s#}" "queued r' = queued r" "head r' = Some c"
    "completion_of src s c (dst r) (dst r')" "full_result src s (cq_res c)" by blast
  with that [of c r' s] True show thesis by (simp add: take_cqe_def)
next
  case False
  obtain x r1 where pk: "peek_cqe api r = (x, r1)" by fastforce
  note obs = peek_obs [OF assms(1) pk]
  show thesis
  proof (cases x)
    case (Inl e)
    with obs have r1: "e = - EAGAIN" "flight r1 = flight r" "queued r1 = queued r" "head r1 = None"
      "dst r1 = dst r" by auto
    with wait_obs [of r1] assms(2) obtain s c r' where "wait_cqe api r1 = Some (Inr c, r')"
      "s \<in># flight r" "flight r' = flight r - {#s#}" "queued r' = queued r" "head r' = Some c"
      "completion_of src s c (dst r) (dst r')" "full_result src s (cq_res c)" by metis
    with that [of c r' s] False Inl pk r1 show thesis by (simp add: take_cqe_def)
  next
    case (Inr c)
    with that [of c r1] False pk obs show thesis by (auto simp: take_cqe_def)
  qed
qed

text \<open>A whole read becomes a write of the same bytes to the same place.\<close>

lemma good_read_completes:
  assumes "good_read s" and "completion_of src s c d d'" and "full_result src s (cq_res c)"
  shows "0 \<le> cq_res c" "good_write src (wreq c)" "span (wreq c) = span s" "d' = d"
proof -
  obtain off n b where s: "s = rreq off n b" "length b = n" "off + n \<le> length src"
    using assms(1) by (auto simp: good_read_def)
  then have res: "cq_res c = int n" using assms(3) by (simp add: full_result_def rreq_shape)
  then have c: "c = Cqe (sq_data (rreq off n b)) (int n) (file_part src off n)"
    "length (file_part src off n) = n" and "d' = d"
    using assms(2) s by (cases c, auto simp: completion_of_def rreq_shape)+
  note w = wreq_shape [OF s(2) c(2), of off, folded c(1)]
  have "sq_kind (wreq c) = Wr \<and> sq_off (wreq c) = off \<and> sq_len (wreq c) = n \<and>
      sq_bytes (wreq c) = file_part src off n"
    by (subst w, subst w, subst w, subst w) simp
  with res s \<open>d' = d\<close> show "0 \<le> cq_res c" "good_write src (wreq c)" "span (wreq c) = span s" "d' = d"
    by (simp_all add: good_write_def span_def rreq_shape)
qed

lemma read_cqe_recv_ok:
  assumes "head r = None" and "size (flight r) = n" and "\<forall>s \<in># flight r. good_read s"
    and "\<forall>s \<in> set (queued r). good_write src s" and "length (queued r) + n \<le> BATCH"
  shows "\<exists>r'. read_cqe_recv wreq api block n r = Some (Go r') \<and> head r' = None \<and> queued r' = [] \<and>
    size (flight r') = length (queued r) + n \<and> (\<forall>s \<in># flight r'. good_write src s) \<and>
    (\<Union>s \<in> set_mset (flight r'). span s) =
      (\<Union>s \<in> set_mset (flight r). span s) \<union> (\<Union>s \<in> set (queued r). span s) \<and> dst r' = dst r"
  using assms
proof (induction n arbitrary: r block)
  case 0
  obtain m r' where "submit api r = (m, r')" by fastforce
  with submit_obs [OF this] 0 show ?case by auto
next
  case (Suc n)
  then have ne: "flight r \<noteq> {#}" by auto
  from take_cqe_ok [OF Suc.prems(1) ne, of block] obtain s c r1 where t:
    "take_cqe api block r = Some (Inr c, r1)" "s \<in># flight r" "flight r1 = flight r - {#s#}"
    "queued r1 = queued r" "completion_of src s c (dst r) (dst r1)" "full_result src s (cq_res c)"
    by metis
  note g = good_read_completes [OF _ t(5,6)]
  have gs: "good_read s" using Suc.prems(3) t(2) by blast
  from queue_ok [of r1 "wreq c"] Suc.prems(5) t(4) obtain r2 where r2:
    "queue_sqe api (wreq c) r1 = Some r2" "queued r2 = queued r @ [wreq c]" "flight r2 = flight r1"
    "dst r2 = dst r1" by auto
  let ?r = "cqe_seen api r2"
  have obs: "head ?r = None" "queued ?r = queued r @ [wreq c]" "flight ?r = flight r - {#s#}"
    "dst ?r = dst r"
    using seen_obs [of r2] r2 t(3) g(4) [OF gs] by auto
  obtain Q where Q: "flight r = add_mset s Q" using t(2) by (metis insert_DiffM)
  obtain r' where r': "read_cqe_recv wreq api False n ?r = Some (Go r')" "head r' = None"
    "queued r' = []" "size (flight r') = length (queued ?r) + n"
    "\<forall>s \<in># flight r'. good_write src s"
    "(\<Union>s \<in> set_mset (flight r'). span s) =
      (\<Union>s \<in> set_mset (flight ?r). span s) \<union> (\<Union>s \<in> set (queued ?r). span s)" "dst r' = dst ?r"
    using Suc.IH [of ?r False] obs Q g(2) [OF gs] Suc.prems by auto
  moreover have "read_cqe_recv wreq api block (Suc n) r = read_cqe_recv wreq api False n ?r"
    using t(1) r2(1) g(1) [OF gs] by simp
  ultimately show ?case using obs Q g(3) [OF gs] by auto
qed

lemma write_cqe_recv_ok:
  assumes "head r = None" and "queued r = []" and "size (flight r) = n"
    and "\<forall>s \<in># flight r. good_write src s" and "length (dst r) \<le> length src"
  shows "\<exists>r'. write_cqe_recv api n r = Some r' \<and> head r' = None \<and> queued r' = [] \<and> flight r' = {#} \<and>
    length (dst r') \<le> length src \<and>
    (\<forall>p. settled src (dst r) p \<or> p \<in> (\<Union>s \<in> set_mset (flight r). span s) \<longrightarrow> settled src (dst r') p)"
  using assms
proof (induction n arbitrary: r)
  case 0
  then show ?case by auto
next
  case (Suc n)
  then have ne: "flight r \<noteq> {#}" by auto
  from wait_obs [OF Suc.prems(1) ne] obtain s c r1 where t:
    "wait_cqe api r = Some (Inr c, r1)" "s \<in># flight r" "flight r1 = flight r - {#s#}"
    "queued r1 = queued r" "completion_of src s c (dst r) (dst r1)" "full_result src s (cq_res c)"
    by blast
  have g: "good_write src s" using Suc.prems(4) t(2) by blast
  then have offs: "sq_off s + sq_len s \<le> length src" by (simp add: good_write_def)
  have d1: "dst r1 = pwrite (dst r) (sq_off s) (file_part src (sq_off s) (sq_len s))"
    and res: "0 \<le> cq_res c"
    using t(5,6) g by (auto simp: completion_of_def full_result_def good_write_def)
  note settles = pwrite_settles [OF offs, where d = "dst r", folded d1]
  obtain Q where Q: "flight r = add_mset s Q" using t(2) by (metis insert_DiffM)
  let ?r = "cqe_seen api r1"
  have obs: "head ?r = None" "queued ?r = []" "flight ?r = Q" "dst ?r = dst r1"
    using seen_obs [of r1] t(3,4) Q Suc.prems(2) by auto
  have "write_cqe_recv api (Suc n) r = write_cqe_recv api n ?r" using t(1) res by simp
  moreover have "length (dst ?r) \<le> length src" using settles(3) Suc.prems(5) obs by simp
  ultimately show ?case
    using Suc.IH [of ?r] obs Q Suc.prems(3,4) settles(1,2) by (auto simp: span_def)
qed

text \<open>One round after another: \<open>offset\<close> bytes have been asked for, and each of them is in the
  destination or belongs to a queued read.\<close>

definition round_inv :: "nat \<Rightarrow> nat \<Rightarrow> nat \<Rightarrow> 'r \<Rightarrow> bool" where
  "round_inv insize offset reads r \<longleftrightarrow> offset + insize = length src \<and> head r = None \<and>
     flight r = {#} \<and> length (queued r) = reads \<and> reads < BATCH \<and>
     (\<forall>s \<in> set (queued r). good_read s) \<and> length (dst r) \<le> length src \<and>
     (\<forall>p < offset. settled src (dst r) p \<or> (\<exists>s \<in> set (queued r). p \<in> span s)) \<and>
     (insize = 0 \<longrightarrow> reads = 0)"

lemma collect_batch:
  assumes "head r = None" and "flight r = {#}" and "length (queued r) = n" and "n \<le> BATCH"
    and "\<forall>s \<in> set (queued r). good_read s" and "length (dst r) \<le> length src"
  shows "\<exists>m r2 r3 r4. submit api r = (m, r2) \<and> 0 \<le> m \<and>
    read_cqe_recv wreq api True n r2 = Some (Go r3) \<and> write_cqe_recv api n r3 = Some r4 \<and>
    head r4 = None \<and> queued r4 = [] \<and> flight r4 = {#} \<and> length (dst r4) \<le> length src \<and>
    (\<forall>p. settled src (dst r) p \<or> (\<exists>s \<in> set (queued r). p \<in> span s) \<longrightarrow> settled src (dst r4) p)"
proof -
  obtain m r2 where sub: "submit api r = (m, r2)" by fastforce
  note o2 = submit_obs [OF sub]
  obtain r3 where r3: "read_cqe_recv wreq api True n r2 = Some (Go r3)" "head r3 = None"
    "queued r3 = []" "size (flight r3) = n" "\<forall>s \<in># flight r3. good_write src s"
    "(\<Union>s \<in> set_mset (flight r3). span s) = (\<Union>s \<in> set (queued r). span s)" "dst r3 = dst r"
    using read_cqe_recv_ok [of r2 n True] o2 assms by auto
  with write_cqe_recv_ok [of r3 n] assms(6) obtain r4 where "write_cqe_recv api n r3 = Some r4"
    "head r4 = None" "queued r4 = []" "flight r4 = {#}" "length (dst r4) \<le> length src"
    "\<forall>p. settled src (dst r) p \<or> p \<in> (\<Union>s \<in> set (queued r). span s) \<longrightarrow> settled src (dst r4) p"
    by auto
  with sub o2 r3 show ?thesis by auto
qed

lemma round_inv_done:
  assumes "round_inv 0 offset reads r"
  shows "dst r = src"
proof (rule nth_equalityI)
  have "settled src (dst r) p" if "p < length src" for p
    using assms that by (auto simp: round_inv_def)
  moreover have "length (dst r) \<le> length src" using assms by (simp add: round_inv_def)
  ultimately show "length (dst r) = length src" and "\<And>p. p < length (dst r) \<Longrightarrow> dst r ! p = src ! p"
    by (auto simp: settled_def le_less)
qed

text \<open>Queueing the read of the next block.\<close>

lemma queue_block:
  assumes "round_inv insize offset reads r" and "0 < t" and "t \<le> insize"
  obtains b r1 where "alloc t = Some b" "queue_sqe api (rreq offset t b) r = Some r1"
    "head r1 = None" "flight r1 = {#}" "length (queued r1) = reads + 1"
    "\<forall>s \<in> set (queued r1). good_read s" "dst r1 = dst r"
    "\<forall>p < offset + t. settled src (dst r) p \<or> (\<exists>s \<in> set (queued r1). p \<in> span s)"
proof -
  obtain b where b: "alloc t = Some b" "length b = t" using alloc_ok by blast
  from queue_ok [of r "rreq offset t b"] assms(1) obtain r1 where r1:
    "queue_sqe api (rreq offset t b) r = Some r1" "queued r1 = queued r @ [rreq offset t b]"
    "flight r1 = flight r" "head r1 = head r" "dst r1 = dst r"
    by (auto simp: round_inv_def)
  have "offset + t \<le> length src" using assms by (simp add: round_inv_def)
  then have "good_read (rreq offset t b)" unfolding good_read_def using b by blast
  moreover have "settled src (dst r) p \<or> (\<exists>s \<in> set (queued r1). p \<in> span s)" if "p < offset + t" for p
    using that assms(1) r1(2)
    by (cases "p < offset") (auto simp: round_inv_def span_def rreq_shape)
  ultimately show thesis
    using that [of b r1] b r1 assms(1) by (simp add: round_inv_def)
qed

lemma batch_loop_ok:
  assumes "round_inv insize offset reads r"
  shows "\<exists>r'. batch_loop rreq wreq alloc api (int (length src)) (int insize) offset reads r =
      Some (Return 0 r') \<and> dst r' = src \<and> flight r' = {#} \<and> queued r' = []"
  using assms
proof (induction insize arbitrary: offset reads r rule: less_induct)
  case (less insize)
  have tot: "offset + insize = length src" using less.prems by (simp add: round_inv_def)
  show ?case
  proof (cases "insize = 0")
    case True
    with less.prems have inv0: "round_inv 0 offset reads r" by simp
    then have "dst r = src" "flight r = {#}" "queued r = []" "offset = length src"
      using round_inv_done [OF inv0] unfolding round_inv_def by auto
    with True show ?thesis by (subst batch_loop.simps) (simp add: Let_def)
  next
    case False
    define t where "t = (if BLOCK > insize then insize else BLOCK)"
    have t: "0 < t" "t \<le> insize" using False by (auto simp: t_def BLOCK_def)
    have this_size: "(if int BLOCK > int insize then int insize else int BLOCK) = int t"
      by (simp add: t_def)
    from queue_block [OF less.prems t] obtain b r1 where q:
      "alloc t = Some b" "queue_sqe api (rreq offset t b) r = Some r1"
      "head r1 = None" "flight r1 = {#}" "length (queued r1) = reads + 1"
      "\<forall>s \<in> set (queued r1). good_read s" "dst r1 = dst r"
      "\<forall>p < offset + t. settled src (dst r) p \<or> (\<exists>s \<in> set (queued r1). p \<in> span s)" .
    have ends: "int (length src) \<le> int offset + int t \<longleftrightarrow> t = insize" using tot t by auto
    have rest: "int insize - int t = int (insize - t)" and pos: "0 < insize" using t by simp_all
    show ?thesis
    proof (cases "t = insize \<or> reads + 1 \<ge> BATCH")
      case full: True
      from collect_batch [of r1 "reads + 1"] q less.prems obtain m r2 r3 r4 where c:
        "submit api r1 = (m, r2)" "0 \<le> m" "read_cqe_recv wreq api True (reads + 1) r2 = Some (Go r3)"
        "write_cqe_recv api (reads + 1) r3 = Some r4" "head r4 = None" "queued r4 = []"
        "flight r4 = {#}" "length (dst r4) \<le> length src"
        "\<forall>p. settled src (dst r1) p \<or> (\<exists>s \<in> set (queued r1). p \<in> span s) \<longrightarrow> settled src (dst r4) p"
        by (auto simp: round_inv_def)
      have inv4: "round_inv (insize - t) (offset + t) 0 r4"
        using c(5-9) q(7,8) tot t by (auto simp: round_inv_def BATCH_def)
      have step: "batch_loop rreq wreq alloc api (int (length src)) (int insize) offset reads r =
          (if t = insize then Some (Return 0 r4)
           else batch_loop rreq wreq alloc api (int (length src)) (int (insize - t)) (offset + t) 0 r4)"
        using full
        by (subst batch_loop.simps)
           (simp only: Let_def this_size rest nat_int q(1,2) c(1-4) ends option.case
             prod.case flow.case bind.bind_lunit if_True if_False of_nat_0_less_iff
             of_nat_eq_iff linorder_not_less [THEN iffD2, OF c(2)] pos cong: if_cong)
      show ?thesis
      proof (cases "t = insize")
        case True
        with inv4 have "dst r4 = src" using round_inv_done [of "offset + t" 0 r4] by simp
        with True step c(6,7) show ?thesis by simp
      next
        case False
        then show ?thesis using less.IH [OF _ inv4] step t by simp
      qed
    next
      case more: False
      have "round_inv (insize - t) (offset + t) (reads + 1) r1"
        using q less.prems more tot t by (auto simp: round_inv_def)
      moreover have "batch_loop rreq wreq alloc api (int (length src)) (int insize) offset reads r =
          batch_loop rreq wreq alloc api (int (length src)) (int (insize - t)) (offset + t)
            (reads + 1) r1"
        using more
        by (subst batch_loop.simps)
           (simp only: Let_def this_size rest nat_int q(1,2) ends option.case de_Morgan_disj simp_thms
             if_True if_False of_nat_0_less_iff of_nat_eq_iff pos cong: if_cong)
      ultimately show ?thesis
        using less.IH [of "insize - t" "offset + t" "reads + 1" r1] t by simp
    qed
  qed
qed

lemma batch_main_ok:
  assumes "queued r = []" and "head r = None" and "flight r = {#}" and "dst r = []"
    and "source_fd \<noteq> -1" and "dest_fd \<noteq> -1" and "0 \<le> init"
  shows "\<exists>r'. batch_main rreq wreq alloc api 3 source_fd dest_fd init (Regular (length src)) r =
      Some (Return 0 r') \<and> dst r' = src \<and> flight r' = {#} \<and> queued r' = []"
proof -
  have "round_inv (length src) 0 0 r" using assms(1-4) by (simp add: round_inv_def BATCH_def)
  from batch_loop_ok [OF this] assms(5-) show ?thesis by (simp add: batch_main_def Let_def)
qed

end

section \<open>Both programs\<close>

text \<open>Both programs build the requests that the loops need, over every ring and allocator.\<close>

lemma single_batched:
  assumes "uring api BATCH src queued flight head dst (full_result src)"
    and "\<forall>m. \<exists>b. alloc m = Some b \<and> length b = m"
  shows "batched api src queued flight head dst single_read single_write alloc"
  using assms
  by (intro batched.intro batched_axioms.intro)
     (auto simp: single_read_def single_write_def received_def)

lemma multi_batched:
  assumes "uring api BATCH src queued flight head dst (full_result src)"
    and "\<forall>m. \<exists>b. alloc m = Some b \<and> length b = m"
  shows "batched api src queued flight head dst multi_read multi_write alloc"
  using assms
  by (intro batched.intro batched_axioms.intro)
     (auto simp: multi_read_def multi_write_def received_def)

lemma malloc_ok_all: "\<forall>m. \<exists>b. malloc_ok m = Some b \<and> length b = m"
  by (simp add: malloc_ok_def)

interpretation fifo_single: batched "fifo_api src BATCH" src fifo_queued
    "\<lambda>r. mset (fifo_flight r)" fifo_head fifo_dst single_read single_write malloc_ok
  by (rule single_batched [OF fifo.uring_axioms malloc_ok_all])

interpretation fifo_multi: batched "fifo_api src BATCH" src fifo_queued
    "\<lambda>r. mset (fifo_flight r)" fifo_head fifo_dst multi_read multi_write malloc_ok
  by (rule multi_batched [OF fifo.uring_axioms malloc_ok_all])

section \<open>Properties\<close>

text \<open>Claim C16: over any ring that keeps the liburing contract, with completions of a batch in
  any order and whole transfers, the single-buffer copier ends with status 0 and the
  destination has exactly the bytes of the source.\<close>

theorem single_buffer_copies:
  assumes "uring api BATCH src queued flight head dst (full_result src)"
    and "\<forall>m. \<exists>b. alloc m = Some b \<and> length b = m"
    and "queued ring = []" and "head ring = None" and "flight ring = {#}" and "dst ring = []"
    and "source_fd \<noteq> -1" and "dest_fd \<noteq> -1" and "0 \<le> init"
  shows "\<exists>ring'. single_main alloc api 3 source_fd dest_fd init (Regular (length src)) ring =
      Some (Return 0 ring') \<and> dst ring' = src \<and> flight ring' = {#} \<and> queued ring' = []"
  unfolding single_main_def using single_batched [OF assms(1,2)] assms(3-) by (rule batched.batch_main_ok)

theorem single_buffer_copies_witness:
  "\<exists>ring'. single_main malloc_ok (fifo_api [1, 2, 3] BATCH) 3 4 5 0
      (Regular (length [1, 2, 3 :: byte])) fifo_empty = Some (Return 0 ring') \<and>
      fifo_dst ring' = [1, 2, 3]"
  using single_buffer_copies [OF fifo.uring_axioms [where src = "[1, 2, 3]"] malloc_ok_all,
      of fifo_empty 4 5 0]
  by (auto simp: fifo_empty_def)

text \<open>Claim C17: the same for the multi-buffer copier.\<close>

theorem multi_buffer_copies:
  assumes "uring api BATCH src queued flight head dst (full_result src)"
    and "\<forall>m. \<exists>b. alloc m = Some b \<and> length b = m"
    and "queued ring = []" and "head ring = None" and "flight ring = {#}" and "dst ring = []"
    and "source_fd \<noteq> -1" and "dest_fd \<noteq> -1" and "0 \<le> init"
  shows "\<exists>ring'. multi_main alloc api 3 source_fd dest_fd init (Regular (length src)) ring =
      Some (Return 0 ring') \<and> dst ring' = src \<and> flight ring' = {#} \<and> queued ring' = []"
  unfolding multi_main_def using multi_batched [OF assms(1,2)] assms(3-) by (rule batched.batch_main_ok)

theorem multi_buffer_copies_witness:
  "\<exists>ring'. multi_main malloc_ok (fifo_api [1, 2, 3] BATCH) 3 4 5 0
      (Regular (length [1, 2, 3 :: byte])) fifo_empty = Some (Return 0 ring') \<and>
      fifo_dst ring' = [1, 2, 3]"
  using multi_buffer_copies [OF fifo.uring_axioms [where src = "[1, 2, 3]"] malloc_ok_all,
      of fifo_empty 4 5 0]
  by (auto simp: fifo_empty_def)

text \<open>Further: after a short read the multi-buffer copier writes the whole vector all the
  same: the bytes behind the ones that were read are what the allocated buffer held before,
  uninitialised memory that ends up in the destination file.\<close>

theorem multi_buffer_writes_stale_bytes:
  assumes "0 \<le> res" and "length bs = nat res" and "nat res \<le> n" and "length buf = n"
  shows "multi_write (Cqe (sq_data (multi_read offset n buf)) res bs) =
    \<lparr>sq_kind = Wr, sq_off = offset, sq_len = n, sq_bytes = bs @ drop (nat res) buf,
     sq_data = \<lparr>fd_offset = offset, fd_len = n, fd_buf = bs @ drop (nat res) buf\<rparr>\<rparr>"
  using assms by (simp add: multi_write_def multi_read_def received_def)

theorem multi_buffer_writes_stale_bytes_witness:
  "sq_bytes (multi_write (Cqe (sq_data (multi_read 0 3 [7, 8, 9])) 1 [42])) = [42, 8, 9]"
  using multi_buffer_writes_stale_bytes [of 1 "[42]" 3 "[7, 8, 9]" 0] by simp

end
