(* ===== verification/Copy_Plain.thy ===== *)
theory Copy_Plain
  imports Uring
begin

text \<open>
  The three simple copiers: src/io_uring/normal.c over \<open>stdio\<close> streams, src/sendfile/copy.c with
  one \<open>sendfile\<close> call, and src/io_uring/file_uring.c, which queues the reads of a whole file at
  once and appends the blocks to the destination in the order in which they complete.

  The \<open>stdio\<close> streams of the C library are modelled with their buffer and with the two ways a
  device fails: \<open>is_fault\<close> is a source that cannot be read behind its first bytes, \<open>os_room\<close> is
  the number of bytes the file system still takes. The system calls \<open>sendfile\<close> and \<open>write\<close> are
  parameters.
\<close>

section \<open>Streams of the C library\<close>

record istream =
  is_data :: "byte list"
  is_fault :: bool
  is_err :: bool

record ostream =
  os_buf :: "byte list"
  os_file :: "byte list"
  os_room :: nat

definition fread :: "nat \<Rightarrow> istream \<Rightarrow> byte list \<times> istream" where
  "fread n s = (take n (is_data s),
     s\<lparr>is_data := drop n (is_data s),
       is_err := is_err s \<or> (is_fault s \<and> length (is_data s) < n)\<rparr>)"

text \<open>Handing bytes to the file system, and \<open>fwrite\<close> through a buffer of \<open>cap\<close> bytes.\<close>

definition flush :: "ostream \<Rightarrow> bool \<times> ostream" where
  "flush s = (let n = min (length (os_buf s)) (os_room s) in
     (n = length (os_buf s),
      s\<lparr>os_buf := drop n (os_buf s), os_file := os_file s @ take n (os_buf s),
        os_room := os_room s - n\<rparr>))"

definition fwrite :: "nat \<Rightarrow> byte list \<Rightarrow> ostream \<Rightarrow> nat \<times> ostream" where
  "fwrite cap bs s = (let s' = s\<lparr>os_buf := os_buf s @ bs\<rparr> in
     if length (os_buf s') < cap then (length bs, s')
     else (case flush s' of (ok, t) \<Rightarrow>
       (if ok then length bs else length bs - length (os_buf t), t)))"

definition fclose :: "ostream \<Rightarrow> int \<times> ostream" where
  "fclose s = (case flush s of (ok, t) \<Rightarrow> (if ok then 0 else -1, t\<lparr>os_buf := []\<rparr>))"

lemmas stream_simps = fread_def flush_def fwrite_def fclose_def Let_def

section \<open>The stdio copier\<close>

definition STDIO_BUF :: nat where "STDIO_BUF = 4096"

text \<open>The loop of \<open>main\<close>; its flag is \<open>False\<close> at the \<open>exit\<close> after a short \<open>fwrite\<close>.\<close>

function stdio_loop :: "nat \<Rightarrow> istream \<Rightarrow> ostream \<Rightarrow> bool \<times> istream \<times> ostream" where
  "stdio_loop cap src dst =
     (case fread STDIO_BUF src of (buffer, src') \<Rightarrow>
        if length buffer > 0 then
          (case fwrite cap buffer dst of (bytes_written, dst') \<Rightarrow>
             if bytes_written \<noteq> length buffer then (False, src', dst')
             else stdio_loop cap src' dst')
        else (True, src', dst))"
  by pat_completeness auto
termination
  by (relation "measure (\<lambda>(cap, src, dst). length (is_data src))")
     (auto simp: fread_def STDIO_BUF_def)

declare stdio_loop.simps [simp del]

definition normal_main :: "nat \<Rightarrow> int \<Rightarrow> istream option \<Rightarrow> ostream option \<Rightarrow> int \<times> byte list" where
  "normal_main cap argc source_fp dest_fp =
     (if argc \<noteq> 3 then (1, [])
      else case source_fp of
          None \<Rightarrow> (1, [])
        | Some src \<Rightarrow>
            (case dest_fp of
               None \<Rightarrow> (1, [])
             | Some dst \<Rightarrow>
                 (case stdio_loop cap src dst of (written, src', dst') \<Rightarrow>
                    if \<not> written then (1, os_file (snd (fclose dst')))
                    else if is_err src' then (1, os_file (snd (fclose dst')))
                    else (0, os_file (snd (fclose dst'))))))"

definition reading :: "byte list \<Rightarrow> istream" where
  "reading bs = \<lparr>is_data = bs, is_fault = False, is_err = False\<rparr>"

definition truncated :: "nat \<Rightarrow> ostream" where
  "truncated room = \<lparr>os_buf = [], os_file = [], os_room = room\<rparr>"

text \<open>What has been accepted for the file, whether or not it is there yet.\<close>

definition accepted :: "ostream \<Rightarrow> byte list" where
  "accepted s = os_file s @ os_buf s"

lemma fwrite_roomy:
  assumes "length (os_buf s) + length bs \<le> os_room s"
  obtains s' where "fwrite cap bs s = (length bs, s')" "accepted s' = accepted s @ bs"
    "length (os_buf s') + os_room s = length (os_buf s) + length bs + os_room s'"
    "length (os_buf s') \<le> os_room s'"
proof -
  let ?s' = "snd (fwrite cap bs s)"
  have "fwrite cap bs s = (length bs, ?s')" "accepted ?s' = accepted s @ bs"
    "length (os_buf ?s') + os_room s = length (os_buf s) + length bs + os_room ?s'"
    "length (os_buf ?s') \<le> os_room ?s'"
    using assms by (auto simp: stream_simps accepted_def min_def)
  with that show thesis by blast
qed

lemma stdio_loop_roomy:
  assumes "length (os_buf dst) + length (is_data src) \<le> os_room dst"
  shows "\<exists>src' dst'. stdio_loop cap src dst = (True, src', dst') \<and>
    accepted dst' = accepted dst @ is_data src \<and> length (os_buf dst') \<le> os_room dst' \<and>
    (is_err src' \<longleftrightarrow> is_err src \<or> is_fault src)"
  using assms
proof (induction cap src dst rule: stdio_loop.induct)
  case (1 cap src dst)
  show ?case
  proof (cases "is_data src = []")
    case True
    then show ?thesis using 1(2)
      by (subst stdio_loop.simps) (auto simp: fread_def STDIO_BUF_def)
  next
    case False
    let ?b = "take STDIO_BUF (is_data src)"
    obtain s where fr: "fread STDIO_BUF src = (?b, s)"
      and rest: "is_data s = drop STDIO_BUF (is_data src)" "is_fault s = is_fault src"
        "is_err s \<or> is_fault src \<longleftrightarrow> is_err src \<or> is_fault src"
      by (auto simp: fread_def)
    have ne: "length ?b > 0" using False by (simp add: STDIO_BUF_def)
    have "length (os_buf dst) + length ?b \<le> os_room dst" using 1(2) by simp
    from fwrite_roomy [OF this, of cap] obtain d where d:
      "fwrite cap ?b dst = (length ?b, d)" "accepted d = accepted dst @ ?b"
      "length (os_buf d) + os_room dst = length (os_buf dst) + length ?b + os_room d"
      "length (os_buf d) \<le> os_room d" by blast
    have room: "length (os_buf d) + length (is_data s) \<le> os_room d"
      using d(3) 1(2) rest(1) by simp
    obtain src' dst' where ih: "stdio_loop cap s d = (True, src', dst')"
      "accepted dst' = accepted d @ is_data s" "length (os_buf dst') \<le> os_room dst'"
      "is_err src' \<longleftrightarrow> is_err s \<or> is_fault s"
      using 1(1) [OF fr [symmetric] ne d(1) [symmetric] _ room] by auto
    have "stdio_loop cap src dst = stdio_loop cap s d"
      using ne by (subst stdio_loop.simps) (simp only: fr d(1) prod.case if_True if_False simp_thms)
    with ih d(2) rest show ?thesis by simp
  qed
qed

lemma fclose_roomy: "length (os_buf s) \<le> os_room s \<Longrightarrow> os_file (snd (fclose s)) = accepted s"
  by (simp add: stream_simps accepted_def min_def)

text \<open>A file smaller than the buffer of the output stream stays there until \<open>fclose\<close>.\<close>

lemma stdio_loop_buffers:
  assumes "length (os_buf dst) + length (is_data src) < cap"
  shows "\<exists>src'. stdio_loop cap src dst = (True, src', dst\<lparr>os_buf := os_buf dst @ is_data src\<rparr>) \<and>
    (is_err src' \<longleftrightarrow> is_err src \<or> is_fault src)"
  using assms
proof (induction cap src dst rule: stdio_loop.induct)
  case (1 cap src dst)
  show ?case
  proof (cases "is_data src = []")
    case True
    then show ?thesis by (subst stdio_loop.simps) (auto simp: fread_def STDIO_BUF_def)
  next
    case False
    let ?b = "take STDIO_BUF (is_data src)" and ?d = "dst\<lparr>os_buf := os_buf dst @ take STDIO_BUF (is_data src)\<rparr>"
    obtain s where fr: "fread STDIO_BUF src = (?b, s)"
      and rest: "is_data s = drop STDIO_BUF (is_data src)" "is_fault s = is_fault src"
        "is_err s \<or> is_fault src \<longleftrightarrow> is_err src \<or> is_fault src"
      by (auto simp: fread_def)
    have ne: "length ?b > 0" using False by (simp add: STDIO_BUF_def)
    have "length (os_buf dst) + length ?b < cap" using 1(2) by simp
    then have fw: "fwrite cap ?b dst = (length ?b, ?d)" by (simp add: fwrite_def Let_def)
    have room: "length (os_buf ?d) + length (is_data s) < cap" using 1(2) rest(1) by simp
    have "stdio_loop cap src dst = stdio_loop cap s ?d"
      using ne by (subst stdio_loop.simps) (simp only: fr fw prod.case if_True if_False simp_thms)
    with 1(1) [OF fr [symmetric] ne fw [symmetric] _ room] rest show ?thesis by auto
  qed
qed

section \<open>The sendfile copier\<close>

text \<open>
  \<open>main\<close> of sendfile/copy.c. The arguments are the system calls: \<open>fstat\<close> leaves \<open>st_size\<close> as it
  was when it fails, \<open>sendfile\<close> returns its result and the destination file. No result but the
  last is checked.
\<close>

definition sendfile_main ::
  "int \<Rightarrow> int \<Rightarrow> (int \<Rightarrow> nat \<Rightarrow> nat) \<Rightarrow> nat \<Rightarrow> (int \<Rightarrow> int \<Rightarrow> nat \<Rightarrow> nat \<Rightarrow> int \<times> byte list) \<Rightarrow>
     int \<times> byte list" where
  "sendfile_main source_fd dest_fd fstat st_size sendfile =
     (let st_size = fstat source_fd st_size in
      case sendfile dest_fd source_fd 0 st_size of (bytes_sent, dst) \<Rightarrow>
        if bytes_sent = -1 then (1, dst) else (0, dst))"

text \<open>\<open>sendfile(2)\<close> on a file with contents \<open>src\<close>: bad descriptors are an error, at most
  \<open>0x7ffff000\<close> bytes are transferred by one call, and \<open>limit\<close> is where this call stops.\<close>

definition SENDFILE_MAX :: nat where "SENDFILE_MAX = 2147479552"

definition sendfile_of :: "byte list \<Rightarrow> nat \<Rightarrow> int \<Rightarrow> int \<Rightarrow> nat \<Rightarrow> nat \<Rightarrow> int \<times> byte list" where
  "sendfile_of src limit out_fd in_fd off n =
     (if out_fd < 0 \<or> in_fd < 0 then (-1, [])
      else let bs = file_part src off (min n (min SENDFILE_MAX limit)) in (int (length bs), bs))"

definition fstat_of :: "byte list \<Rightarrow> int \<Rightarrow> nat \<Rightarrow> nat" where
  "fstat_of src fd old = (if fd < 0 then old else length src)"

section \<open>The ring copier that appends\<close>

definition URING_DEPTH :: nat where "URING_DEPTH = 1024"
definition URING_BUF :: nat where "URING_BUF = 4096"

record File_data =
  ud_index :: nat
  ud_offset :: nat
  ud_data :: "byte list"

text \<open>Filling the ring; both allocations and the submission entry are used unchecked.\<close>

function queue_all ::
  "(nat \<Rightarrow> byte list option) \<Rightarrow> ('r, File_data) ring_api \<Rightarrow> int \<Rightarrow> nat \<Rightarrow> nat \<Rightarrow> 'r \<Rightarrow> ('r, 'r) flow" where
  "queue_all alloc api file_sz off i r =
     (case alloc URING_BUF of
        None \<Rightarrow> Crash
      | Some _ \<Rightarrow>
          (let buffer = replicate URING_BUF 0 in
           case queue_sqe api \<lparr>sq_kind = Rd, sq_off = off, sq_len = URING_BUF, sq_bytes = [],
                  sq_data = \<lparr>ud_index = i, ud_offset = off, ud_data = buffer\<rparr>\<rparr> r of
             None \<Rightarrow> Crash
           | Some r' \<Rightarrow>
               (case alloc 24 of
                  None \<Rightarrow> Crash
                | Some _ \<Rightarrow>
                    if int (off + URING_BUF) > file_sz then Go r'
                    else queue_all alloc api file_sz (off + URING_BUF) (i + 1) r')))"
  by pat_completeness auto
termination
  by (relation "measure (\<lambda>(alloc, api, file_sz, off, i, r). nat (file_sz - int off))")
     (auto simp: URING_BUF_def)

declare queue_all.simps [simp del]

text \<open>The \<open>size_t\<close> that a 32-bit result becomes when it is passed on as a length.\<close>

definition size_of_res :: "int \<Rightarrow> nat" where
  "size_of_res res = (if res < 0 then nat (2 ^ 64 + res) else nat res)"

text \<open>The buffer behind a completion: what the kernel stored, then the zeros it was filled with.\<close>

definition buffer_of :: "File_data cqe \<Rightarrow> byte list" where
  "buffer_of c = cq_bytes c @ drop (length (cq_bytes c)) (ud_data (cq_data c))"

text \<open>Appending \<open>ret\<close> completions; \<open>wr\<close> is \<open>write(2)\<close> on the destination: the buffer, the
  length, and the file before and after.\<close>

fun append_all ::
  "(byte list \<Rightarrow> nat \<Rightarrow> byte list \<Rightarrow> int \<times> byte list) \<Rightarrow> ('r, File_data) ring_api \<Rightarrow> nat \<Rightarrow>
     'r \<Rightarrow> byte list \<Rightarrow> (int \<times> byte list) option" where
  "append_all wr api 0 r dst = Some (0, dst)"
| "append_all wr api (Suc n) r dst =
     Option.bind (wait_cqe api r) (\<lambda>(x, r'). case x of
         Inl e \<Rightarrow> Some (-1, dst)
       | Inr c \<Rightarrow>
           (case wr (buffer_of c) (size_of_res (cq_res c)) dst of (bytes_written, dst') \<Rightarrow>
              if bytes_written < 0 then Some (-1, dst')
              else append_all wr api n (cqe_seen api r') dst'))"

fun uring_file_size :: "stat_result \<Rightarrow> int" where
  "uring_file_size Stat_Fails = -1"
| "uring_file_size (Block_Device None) = -1"
| "uring_file_size (Block_Device (Some bytes)) = int bytes"
| "uring_file_size (Regular st_size) = int st_size"
| "uring_file_size Other_File = -1"

text \<open>\<open>main\<close>: \<open>None\<close> is waiting for ever, \<open>Some None\<close> a crash; otherwise the exit status and what was
  written to the destination.\<close>

definition uring_main ::
  "(nat \<Rightarrow> byte list option) \<Rightarrow> (byte list \<Rightarrow> nat \<Rightarrow> byte list \<Rightarrow> int \<times> byte list) \<Rightarrow>
     ('r, File_data) ring_api \<Rightarrow> int \<Rightarrow> int \<Rightarrow> int \<Rightarrow> int \<Rightarrow> stat_result \<Rightarrow> 'r \<Rightarrow>
     (int \<times> byte list) option option" where
  "uring_main alloc wr api argc source_fd dest_fd init st ring =
     (if argc \<noteq> 3 then Some (Some (1, []))
      else if source_fd = -1 then Some (Some (-1, []))
      else if dest_fd = -1 then Some (Some (-1, []))
      else if init < 0 then Some (Some (-1, []))
      else case queue_all alloc api (uring_file_size st) 0 0 ring of
          Go r \<Rightarrow>
            (case submit api r of (ret, r') \<Rightarrow>
               if ret < 0 then Some (Some (-1, []))
               else map_option Some (append_all wr api (nat ret) r' []))
        | stop \<Rightarrow> Some None)"

text \<open>A \<open>write\<close> that takes everything.\<close>

definition write_ok :: "byte list \<Rightarrow> nat \<Rightarrow> byte list \<Rightarrow> int \<times> byte list" where
  "write_ok buf n dst = (int n, dst @ take n buf)"

section \<open>Appending over any ring\<close>

definition block_request :: "nat \<Rightarrow> File_data sqe" where
  "block_request i = \<lparr>sq_kind = Rd, sq_off = i * URING_BUF, sq_len = URING_BUF, sq_bytes = [],
     sq_data = \<lparr>ud_index = i, ud_offset = i * URING_BUF, ud_data = replicate URING_BUF 0\<rparr>\<rparr>"

definition block :: "byte list \<Rightarrow> nat \<Rightarrow> byte list" where
  "block src i = file_part src (i * URING_BUF) URING_BUF"

definition block_count :: "nat \<Rightarrow> nat" where
  "block_count n = n div URING_BUF + 1"

lemma more_blocks: "i * URING_BUF + URING_BUF \<le> n \<longleftrightarrow> Suc i < block_count n"
  by (simp add: block_count_def URING_BUF_def) (metis add.commute less_eq_div_iff_mult_less_eq
      mult.commute mult_Suc_right zero_less_numeral Suc_le_eq)

lemma file_part_min: "file_part f off (min n (length f - off)) = file_part f off n"
  by (auto simp: file_part_def min_def)

lemma block_request_completes:
  assumes "completion_of src (block_request i) c d d'" and "full_result src (block_request i) (cq_res c)"
  shows "take (size_of_res (cq_res c)) (buffer_of c) = block src i"
    "size_of_res (cq_res c) \<le> length (buffer_of c)"
  using assms
  by (auto simp: completion_of_def full_result_def block_request_def block_def buffer_of_def
      size_of_res_def file_part_min)

text \<open>The indices of the blocks in the order in which \<open>n\<close> rounds of waiting and retiring get their
  completions from a ring.\<close>

fun completion_order :: "('r, File_data) ring_api \<Rightarrow> nat \<Rightarrow> 'r \<Rightarrow> nat list" where
  "completion_order api 0 r = []"
| "completion_order api (Suc n) r =
     (case wait_cqe api r of
        Some (Inr c, r') \<Rightarrow> ud_index (cq_data c) # completion_order api n (cqe_seen api r')
      | _ \<Rightarrow> [])"

locale appending = uring api URING_DEPTH src queued flight head dst "full_result src"
  for api :: "('r, File_data) ring_api" and src and queued and flight and head and dst +
  fixes alloc :: "nat \<Rightarrow> byte list option"
    and wr :: "byte list \<Rightarrow> nat \<Rightarrow> byte list \<Rightarrow> int \<times> byte list"
  assumes alloc_some: "alloc n \<noteq> None"
    and wr_full: "n \<le> length buf \<Longrightarrow> wr buf n f = (int n, f @ take n buf)"
begin

lemma queue_all_step:
  assumes "length (queued r) < URING_DEPTH"
  obtains r' where "queued r' = queued r @ [block_request i]" "flight r' = flight r" "head r' = head r"
    "queue_all alloc api (int (length src)) (i * URING_BUF) i r =
      (if Suc i < block_count (length src)
       then queue_all alloc api (int (length src)) (Suc i * URING_BUF) (Suc i) r' else Go r')"
proof -
  obtain a b where ab: "alloc URING_BUF = Some a" "alloc 24 = Some b"
    using alloc_some by blast
  from queue_ok [OF assms, of "block_request i"] obtain r' where r':
    "queue_sqe api (block_request i) r = Some r'"
    "queued r' = queued r @ [block_request i]" "flight r' = flight r" "head r' = head r" by blast
  have "queue_all alloc api (int (length src)) (i * URING_BUF) i r =
      (if int (i * URING_BUF + URING_BUF) > int (length src) then Go r'
       else queue_all alloc api (int (length src)) (i * URING_BUF + URING_BUF) (i + 1) r')"
    using r'(1) ab by (subst queue_all.simps) (simp only: block_request_def option.case Let_def)
  also have "int (i * URING_BUF + URING_BUF) > int (length src) \<longleftrightarrow> \<not> Suc i < block_count (length src)"
    using more_blocks [of i "length src"] by linarith
  finally show thesis using r'(2-) that by (simp add: add.commute)
qed

lemma queue_all_ok:
  assumes "length (queued r) = i" and "i < block_count (length src)"
    and "block_count (length src) \<le> URING_DEPTH"
  shows "\<exists>r'. queue_all alloc api (int (length src)) (i * URING_BUF) i r = Go r' \<and>
    queued r' = queued r @ map block_request [i ..< block_count (length src)] \<and>
    flight r' = flight r \<and> head r' = head r"
  using assms(1,2)
proof (induction "block_count (length src) - i" arbitrary: i r)
  case 0
  then show ?case by simp
next
  case (Suc n)
  from queue_all_step [of r i] Suc.prems assms(3) obtain r' where r':
    "queued r' = queued r @ [block_request i]" "flight r' = flight r" "head r' = head r"
    "queue_all alloc api (int (length src)) (i * URING_BUF) i r =
      (if Suc i < block_count (length src)
       then queue_all alloc api (int (length src)) (Suc i * URING_BUF) (Suc i) r' else Go r')"
    by auto
  show ?case
  proof (cases "Suc i < block_count (length src)")
    case True
    with Suc.hyps(1) [of "Suc i" r'] Suc.hyps(2) Suc.prems r' show ?thesis
      by (auto simp: upt_conv_Cons)
  next
    case False
    with Suc.prems(2) have "[i ..< block_count (length src)] = [i]"
      by (metis Suc_lessI upt_rec upt_conv_Nil order_refl)
    with False r' show ?thesis by simp
  qed
qed

lemma queue_all_overflows:
  assumes "length (queued r) = i" and "i \<le> URING_DEPTH" and "URING_DEPTH < block_count (length src)"
  shows "queue_all alloc api (int (length src)) (i * URING_BUF) i r = Crash"
  using assms(1,2)
proof (induction "URING_DEPTH - i" arbitrary: i r)
  case 0
  then have "queue_sqe api (block_request i) r = None" using queue_full by simp
  moreover obtain a where "alloc URING_BUF = Some a" using alloc_some by blast
  ultimately show ?case
    by (subst queue_all.simps) (simp only: block_request_def option.case Let_def)
next
  case (Suc n)
  have "length (queued r) < URING_DEPTH" using Suc.prems Suc.hyps(2) by linarith
  from queue_all_step [OF this, of i] obtain r' where r':
    "queued r' = queued r @ [block_request i]"
    "queue_all alloc api (int (length src)) (i * URING_BUF) i r =
      (if Suc i < block_count (length src)
       then queue_all alloc api (int (length src)) (Suc i * URING_BUF) (Suc i) r' else Go r')" by blast
  with Suc.hyps(1) [of "Suc i" r'] Suc.hyps(2) Suc.prems assms(3) show ?case by auto
qed

lemma append_all_ok:
  assumes "head r = None" and "flight r = image_mset block_request M" and "size M = n"
  shows "mset (completion_order api n r) = M \<and>
    append_all wr api n r f = Some (0, f @ concat (map (block src) (completion_order api n r)))"
  using assms
proof (induction n arbitrary: r f M)
  case 0
  then show ?case by simp
next
  case (Suc n)
  then have "flight r \<noteq> {#}" by auto
  from wait_obs [OF Suc.prems(1) this] obtain s c r' where t:
    "wait_cqe api r = Some (Inr c, r')" "s \<in># flight r" "flight r' = flight r - {#s#}"
    "completion_of src s c (dst r) (dst r')" "full_result src s (cq_res c)" by blast
  from t(2) Suc.prems(2) obtain i where i: "i \<in># M" "s = block_request i" by auto
  then obtain N where N: "M = add_mset i N" by (metis insert_DiffM)
  note b = block_request_completes [OF t(4,5) [unfolded i(2)]]
  let ?f = "f @ block src i"
  have step: "append_all wr api (Suc n) r f = append_all wr api n (cqe_seen api r') ?f"
    using t(1) wr_full [OF b(2)] b(1) by simp
  have "flight (cqe_seen api r') = image_mset block_request N" "head (cqe_seen api r') = None"
    using seen_obs [of r'] t(3) Suc.prems(2) i(2) N by auto
  from Suc.IH [OF this(2,1), of ?f] Suc.prems(3) N have
    "mset (completion_order api n (cqe_seen api r')) = N" "append_all wr api n (cqe_seen api r') ?f =
      Some (0, ?f @ concat (map (block src) (completion_order api n (cqe_seen api r'))))" by auto
  moreover have "ud_index (cq_data c) = i" using t(4) i(2) by (simp add: completion_of_def block_request_def)
  ultimately show ?case using step N t(1) by simp
qed

lemma uring_main_ok:
  assumes "queued r = []" and "head r = None" and "flight r = {#}"
    and "source_fd \<noteq> -1" and "dest_fd \<noteq> -1" and "0 \<le> init"
    and "block_count (length src) \<le> URING_DEPTH"
  shows "\<exists>r1 r2. queue_all alloc api (int (length src)) 0 0 r = Go r1 \<and>
    submit api r1 = (int (block_count (length src)), r2) \<and>
    mset (completion_order api (block_count (length src)) r2) = mset [0 ..< block_count (length src)] \<and>
    uring_main alloc wr api 3 source_fd dest_fd init (Regular (length src)) r =
      Some (Some (0, concat (map (block src) (completion_order api (block_count (length src)) r2))))"
proof -
  from queue_all_ok [of r 0] assms(1,7) obtain r1 where r1:
    "queue_all alloc api (int (length src)) 0 0 r = Go r1"
    "queued r1 = map block_request [0 ..< block_count (length src)]" "flight r1 = {#}" "head r1 = None"
    using assms(2,3) by (auto simp: block_count_def)
  obtain m r2 where sub: "submit api r1 = (m, r2)" by fastforce
  from submit_obs [OF sub] r1 have "m = int (block_count (length src))" "head r2 = None"
    "flight r2 = image_mset block_request (mset [0 ..< block_count (length src)])" by auto
  with append_all_ok [of r2 "mset [0 ..< block_count (length src)]" "block_count (length src)" "[]"]
    r1(1) sub assms(4-6) show ?thesis by (auto simp: uring_main_def)
qed

lemma uring_main_crashes:
  assumes "queued r = []" and "source_fd \<noteq> -1" and "dest_fd \<noteq> -1" and "0 \<le> init"
    and "URING_DEPTH < block_count (length src)"
  shows "uring_main alloc wr api 3 source_fd dest_fd init (Regular (length src)) r = Some None"
  using queue_all_overflows [of r 0] assms by (simp add: uring_main_def)

end

section \<open>In-order and reversed completion\<close>

text \<open>The same ring completing the newest request first: it keeps the contract as well.\<close>

definition lifo_api :: "byte list \<Rightarrow> nat \<Rightarrow> ('u fifo, 'u) ring_api" where
  "lifo_api src depth = (fifo_api src depth)\<lparr>submit := (\<lambda>r. (int (length (fifo_queued r)),
     r\<lparr>fifo_queued := [], fifo_flight := rev (fifo_queued r) @ fifo_flight r\<rparr>))\<rparr>"

lemma lifo_api_sel [simp]:
  "queue_sqe (lifo_api src depth) = queue_sqe (fifo_api src depth)"
  "wait_cqe (lifo_api src depth) = wait_cqe (fifo_api src depth)"
  "peek_cqe (lifo_api src depth) = peek_cqe (fifo_api src depth)"
  "cqe_seen (lifo_api src depth) = cqe_seen (fifo_api src depth)"
  by (simp_all add: lifo_api_def)

interpretation lifo: uring "lifo_api src depth" depth src fifo_queued
    "\<lambda>r. mset (fifo_flight r)" fifo_head fifo_dst "full_result src"
  by (unfold_locales; (unfold lifo_api_sel)?)
     (rule fifo.queue_ok fifo.queue_full fifo.wait_obs fifo.wait_head fifo.peek_obs fifo.peek_head
        fifo.seen_obs, assumption?, assumption? | (auto simp: lifo_api_def; fail))+

interpretation fifo_appends: appending "fifo_api src URING_DEPTH" src fifo_queued
    "\<lambda>r. mset (fifo_flight r)" fifo_head fifo_dst malloc_ok write_ok
  by unfold_locales (auto simp: malloc_ok_def write_ok_def)

interpretation lifo_appends: appending "lifo_api src URING_DEPTH" src fifo_queued
    "\<lambda>r. mset (fifo_flight r)" fifo_head fifo_dst malloc_ok write_ok
  by unfold_locales (auto simp: malloc_ok_def write_ok_def)

lemma concat_blocks: "concat (map (block src) [0 ..< n]) = take (n * URING_BUF) src"
  by (induction n) (simp_all add: block_def file_part_def take_add [symmetric] add.commute)

lemma block_count_covers: "length src \<le> block_count (length src) * URING_BUF"
  using dividend_less_div_times [of URING_BUF "length src"]
  by (simp add: block_count_def URING_BUF_def)

text \<open>Whatever the order of the ring, the completions are appended in the order of \<open>fifo_flight\<close>.\<close>

lemma append_all_in_order:
  assumes "fifo_head r = None" and "fifo_flight r = map block_request ks"
  shows "append_all write_ok (fifo_api src d) (length ks) r f =
    Some (0, f @ concat (map (block src) ks))"
  using assms
proof (induction ks arbitrary: r f)
  case Nil
  then show ?case by simp
next
  case (Cons k ks)
  obtain c g where c: "fifo_complete src (block_request k) (fifo_dst r) = (c, g)" by fastforce
  note ok = fifo_complete_ok [OF c]
  note b = block_request_completes [OF ok [THEN conjunct1] ok [THEN conjunct2]]
  let ?r = "r\<lparr>fifo_flight := map block_request ks, fifo_dst := g, fifo_head := None\<rparr>"
  have "append_all write_ok (fifo_api src d) (length (k # ks)) r f =
      append_all write_ok (fifo_api src d) (length ks) ?r (f @ block src k)"
    using Cons.prems b by (simp add: fifo_api_def fifo_peek_def c write_ok_def)
  with Cons.IH [of ?r "f @ block src k"] show ?case by simp
qed

lemma append_all_api_cong:
  "wait_cqe api = wait_cqe api' \<Longrightarrow> cqe_seen api = cqe_seen api' \<Longrightarrow>
    append_all wr api n r f = append_all wr api' n r f"
  by (induction n arbitrary: r f) (auto split: bind_splits sum.splits prod.splits)

text \<open>The run of \<open>main\<close> on a ring that starts the requests in the order \<open>reorder\<close>.\<close>

lemma uring_main_order:
  assumes "appending api src fifo_queued (\<lambda>r. mset (fifo_flight r)) fifo_head fifo_dst malloc_ok write_ok"
    and "\<And>r. fifo_flight r = [] \<Longrightarrow> submit api r = (int (length (fifo_queued r)),
      r\<lparr>fifo_queued := [], fifo_flight := reorder (fifo_queued r)\<rparr>)"
    and "\<And>ks. reorder (map block_request ks) = map block_request (reorder_ks ks)"
    and "\<And>ks. length (reorder_ks ks) = length ks"
    and "wait_cqe api = wait_cqe (fifo_api src URING_DEPTH)"
      "cqe_seen api = cqe_seen (fifo_api src URING_DEPTH)"
    and "block_count (length src) \<le> URING_DEPTH"
  shows "uring_main malloc_ok write_ok api 3 4 5 0 (Regular (length src)) fifo_empty =
    Some (Some (0, concat (map (block src) (reorder_ks [0 ..< block_count (length src)]))))"
proof -
  let ?n = "block_count (length src)"
  from appending.queue_all_ok [OF assms(1), of fifo_empty 0] assms(7) obtain r1 where r1:
    "queue_all malloc_ok api (int (length src)) 0 0 fifo_empty = Go r1"
    "fifo_queued r1 = map block_request [0 ..< ?n]" "fifo_flight r1 = []" "fifo_head r1 = None"
    by (auto simp: fifo_empty_def block_count_def)
  let ?r = "r1\<lparr>fifo_queued := [], fifo_flight := map block_request (reorder_ks [0 ..< ?n])\<rparr>"
  have sub: "submit api r1 = (int ?n, ?r)" using assms(2,3) r1 by simp
  have "append_all write_ok api ?n ?r [] =
      Some (0, concat (map (block src) (reorder_ks [0 ..< ?n])))"
    using append_all_in_order [of ?r "reorder_ks [0 ..< ?n]" src URING_DEPTH "[]"] r1(4) assms(4)
    by (simp add: append_all_api_cong [OF assms(5,6)])
  with r1(1) sub show ?thesis by (simp add: uring_main_def)
qed

lemma uring_main_fifo:
  assumes "block_count (length src) \<le> URING_DEPTH"
  shows "uring_main malloc_ok write_ok (fifo_api src URING_DEPTH) 3 4 5 0 (Regular (length src))
    fifo_empty = Some (Some (0, src))"
  by (subst uring_main_order [OF fifo_appends.appending_axioms, where reorder = id and reorder_ks = id])
     (use assms in \<open>simp_all add: fifo_api_def concat_blocks block_count_covers\<close>)

lemma uring_main_lifo:
  assumes "block_count (length src) \<le> URING_DEPTH"
  shows "uring_main malloc_ok write_ok (lifo_api src URING_DEPTH) 3 4 5 0 (Regular (length src))
    fifo_empty = Some (Some (0, concat (map (block src) (rev [0 ..< block_count (length src)]))))"
  by (rule uring_main_order [OF lifo_appends.appending_axioms, where reorder = rev])
     (use assms in \<open>simp_all add: lifo_api_def rev_map\<close>)

lemma normal_main_roomy:
  assumes "length src \<le> room"
  shows "normal_main cap 3 (Some \<lparr>is_data = src, is_fault = fault, is_err = False\<rparr>)
      (Some (truncated room)) = (if fault then 1 else 0, src)"
proof -
  let ?s = "\<lparr>is_data = src, is_fault = fault, is_err = False\<rparr>"
  from stdio_loop_roomy [of "truncated room" ?s cap] assms obtain s' d where
    "stdio_loop cap ?s (truncated room) = (True, s', d)" "accepted d = src"
    "length (os_buf d) \<le> os_room d" "is_err s' = fault"
    by (auto simp: truncated_def accepted_def)
  then show ?thesis using fclose_roomy [of d] by (simp add: normal_main_def)
qed

lemma block_count_fits: "length src < 4096 * 1024 \<Longrightarrow> block_count (length src) \<le> URING_DEPTH"
  by (simp add: block_count_def URING_BUF_def URING_DEPTH_def less_mult_imp_div_less Suc_le_eq)

section \<open>Properties\<close>

text \<open>Claim C19: over any ring that keeps the liburing contract and transfers in full, file_uring.c run
  on a file below 4 MiB queues and submits one read for every 4096-byte block, ends with status 0 and
  leaves in the destination the blocks in the order in which the ring delivers their completions,
  each exactly once. When they come in the order of the file, or there is only one, the file is
  copied exactly.\<close>

theorem file_uring_permutes_blocks:
  assumes "appending api src queued flight head dst alloc wr"
    and "queued ring = []" and "head ring = None" and "flight ring = {#}"
    and "source_fd \<noteq> -1" and "dest_fd \<noteq> -1" and "0 \<le> init"
    and "length src < 4096 * 1024" and "n = length src div 4096 + 1"
  shows "\<exists>ring1 ring2 order out. queue_all alloc api (int (length src)) 0 0 ring = Go ring1 \<and>
    submit api ring1 = (int n, ring2) \<and> order = completion_order api n ring2 \<and> mset order = mset [0 ..< n] \<and>
    uring_main alloc wr api 3 source_fd dest_fd init (Regular (length src)) ring = Some (Some (0, out)) \<and>
    out = concat (map (\<lambda>i. file_part src (i * 4096) 4096) order) \<and>
    (order = [0 ..< n] \<longrightarrow> out = src) \<and> (length src < 4096 \<longrightarrow> out = src)"
proof -
  have n: "block_count (length src) \<le> URING_DEPTH" "block_count (length src) = n"
    using block_count_fits [OF assms(8)] assms(9) by (simp_all add: block_count_def URING_BUF_def)
  from appending.uring_main_ok [OF assms(1-7) n(1)] obtain r1 r2 where run:
    "queue_all alloc api (int (length src)) 0 0 ring = Go r1" "submit api r1 = (int n, r2)"
    "mset (completion_order api n r2) = mset [0 ..< n]"
    "uring_main alloc wr api 3 source_fd dest_fd init (Regular (length src)) ring =
      Some (Some (0, concat (map (block src) (completion_order api n r2))))" unfolding n(2) by blast
  have all: "concat (map (block src) [0 ..< n]) = src"
    using concat_blocks [of src n] block_count_covers [of src] n(2) by simp
  have one: "completion_order api n r2 = [0 ..< n]" if "length src < 4096"
    using run(3) that assms(9) by simp
  have "block src = (\<lambda>i. file_part src (i * 4096) 4096)" by (simp add: fun_eq_iff block_def URING_BUF_def)
  then show ?thesis using run all one
    by (intro exI [of _ r1] exI [of _ r2] exI [of _ "completion_order api n r2"]
        exI [of _ "concat (map (block src) (completion_order api n r2))"]) auto
qed

theorem file_uring_permutes_blocks_witness:
  "\<exists>out. uring_main malloc_ok write_ok (lifo_api [1, 2, 3] URING_DEPTH) 3 4 5 0
     (Regular (length [1, 2, 3 :: byte])) fifo_empty = Some (Some (0, out)) \<and> out = [1, 2, 3]"
  using file_uring_permutes_blocks [OF lifo_appends.appending_axioms [of "[1, 2, 3]"],
      of fifo_empty 4 5 0 1]
  by (auto simp: fifo_empty_def)

text \<open>Further: nothing keeps file_uring.c from reordering a file. On a ring that completes the
  newest request first (and keeps the contract) a file of two blocks ends up with its blocks
  exchanged, and the program reports success.\<close>

theorem file_uring_swaps_blocks:
  assumes "4096 \<le> length src" and "length src < 2 * 4096"
  shows "uring_main malloc_ok write_ok (lifo_api src URING_DEPTH) 3 4 5 0 (Regular (length src))
    fifo_empty = Some (Some (0, drop 4096 src @ take 4096 src))"
proof -
  have "length src div 4096 = 1" using assms by (simp add: div_nat_eqI)
  then have "block_count (length src) = 2" by (simp add: block_count_def URING_BUF_def)
  then show ?thesis
    using uring_main_lifo [of src] assms
    by (simp add: URING_DEPTH_def numeral_2_eq_2 block_def URING_BUF_def file_part_def)
qed

theorem file_uring_swaps_blocks_witness:
  "uring_main malloc_ok write_ok (lifo_api (replicate 4096 1 @ [2]) URING_DEPTH) 3 4 5 0
    (Regular (length (replicate 4096 1 @ [2 :: byte]))) fifo_empty =
      Some (Some (0, 2 # replicate 4096 1))"
  using file_uring_swaps_blocks [of "replicate 4096 1 @ [2 :: byte]"] by simp

text \<open>Further: a file of 4 MiB or more needs more submission entries than the ring has; the NULL
  of \<open>io_uring_get_sqe\<close> is used and the program crashes, whatever the ring does.\<close>

theorem file_uring_crashes_from_4MiB:
  assumes "appending api src queued flight head dst alloc wr" and "queued ring = []"
    and "source_fd \<noteq> -1" and "dest_fd \<noteq> -1" and "0 \<le> init"
    and "4096 * 1024 \<le> length src"
  shows "uring_main alloc wr api 3 source_fd dest_fd init (Regular (length src)) ring = Some None"
proof -
  have "URING_DEPTH < block_count (length src)"
    using assms(6) div_le_mono [of "4096 * 1024" "length src" 4096]
    by (simp add: block_count_def URING_BUF_def URING_DEPTH_def)
  with assms(1-5) show ?thesis by (rule appending.uring_main_crashes)
qed

theorem file_uring_crashes_from_4MiB_witness:
  "uring_main malloc_ok write_ok (fifo_api (replicate (4096 * 1024) 0) URING_DEPTH) 3 4 5 0
    (Regular (length (replicate (4096 * 1024) (0 :: byte)))) fifo_empty = Some None"
  using file_uring_crashes_from_4MiB [OF fifo_appends.appending_axioms [of "replicate (4096 * 1024) 0"],
      of fifo_empty 4 5 0]
  by (simp add: fifo_empty_def)

text \<open>Further: with room for the file on the destination device, normal.c writes every byte it
  can read, and its exit status is 0 exactly when the source could be read to its end.\<close>

theorem normal_copies:
  assumes "length src \<le> room"
  shows "normal_main cap 3 (Some \<lparr>is_data = src, is_fault = fault, is_err = False\<rparr>)
      (Some (truncated room)) = (if fault then 1 else 0, src)"
  using assms by (rule normal_main_roomy)

theorem normal_copies_witness:
  "normal_main 4 3 (Some \<lparr>is_data = [1, 2, 3], is_fault = False, is_err = False\<rparr>)
     (Some (truncated 3)) = (0, [1, 2, 3])"
  using normal_copies [of "[1, 2, 3]" 3 4 False] by simp

text \<open>Further: normal.c does not look at the result of \<open>fclose\<close>: when the file fits the buffer of
  the output stream but not the device, the destination is cut off and the exit status is
  nevertheless 0, with the message that the copy succeeded.\<close>

theorem normal_hides_full_device:
  assumes "length src < cap" and "room < length src"
  shows "normal_main cap 3 (Some (reading src)) (Some (truncated room)) = (0, take room src)"
    and "take room src \<noteq> src"
proof -
  from stdio_loop_buffers [of "truncated room" "reading src" cap] assms(1) obtain s' where
    "stdio_loop cap (reading src) (truncated room) = (True, s', (truncated room)\<lparr>os_buf := src\<rparr>)"
    "\<not> is_err s'" by (auto simp: truncated_def reading_def)
  then show "normal_main cap 3 (Some (reading src)) (Some (truncated room)) = (0, take room src)"
    using assms(2) by (simp add: normal_main_def fclose_def flush_def truncated_def Let_def)
  show "take room src \<noteq> src" using assms(2) by (simp add: take_all_iff)
qed

theorem normal_hides_full_device_witness:
  "normal_main 4096 3 (Some (reading [1, 2, 3])) (Some (truncated 2)) = (0, [1, 2])"
  using normal_hides_full_device [of "[1, 2, 3]" 4096 2] by simp

text \<open>Further: the sendfile copier copies a file exactly when the one call it makes transfers
  all of it. A shorter transfer (which every file beyond \<open>0x7ffff000\<close> bytes gets) leaves a prefix
  and is reported as a success; a descriptor that could not be opened ends with status 1.\<close>

theorem sendfile_copies_one_call:
  assumes "n = min (length src) (min SENDFILE_MAX limit)"
  shows "sendfile_main source_fd dest_fd (fstat_of src) junk (sendfile_of src limit) =
    (if source_fd < 0 \<or> dest_fd < 0 then (1, []) else (0, take n src))"
    and "take n src = src \<longleftrightarrow> length src \<le> SENDFILE_MAX \<and> length src \<le> limit"
proof -
  show "sendfile_main source_fd dest_fd (fstat_of src) junk (sendfile_of src limit) =
      (if source_fd < 0 \<or> dest_fd < 0 then (1, []) else (0, take n src))"
    by (simp add: assms sendfile_main_def sendfile_of_def fstat_of_def file_part_def Let_def disj_commute)
  show "take n src = src \<longleftrightarrow> length src \<le> SENDFILE_MAX \<and> length src \<le> limit"
    by (simp only: assms take_all_iff min.bounded_iff) simp
qed

theorem sendfile_copies_one_call_witness:
  "sendfile_main 3 4 (fstat_of [1, 2, 3]) 7 (sendfile_of [1, 2, 3] 2) = (0, [1, 2])"
  using sendfile_copies_one_call(1) [of 2 "[1, 2, 3]" 2 3 4 7] by (simp add: SENDFILE_MAX_def)

end
