(* ===== verification/Socket_Server.thy ===== *)
theory Socket_Server
  imports Prelude "HOL-Library.Multiset"
begin

text \<open>
  The echo server src/io_uring/socket_uring_server.c, which keeps a heap object for every request.
  The server reacts to completions; the kernel picks which outstanding request completes and with
  which result. \<open>None\<close> is a run that uses a
  NULL pointer or memory that was freed. The line that is printed for a received message is part of
  the state: it reads the buffer of the connection as a C string, and where the string has no end
  inside the array the entry says so.
\<close>

section \<open>Model of the server with connection objects\<close>

definition MAXLINE :: nat where "MAXLINE = 4096"

datatype sevent = EVENT_ACCEPT | EVENT_READ | EVENT_WRITE

record ConnInfo =
  connfd :: int
  event :: sevent
  buffer :: "byte list"
  buffer_length :: nat

text \<open>What was asked of the kernel: an entry that was taken and never filled in is a no-op.\<close>

datatype op = Op_Nop | Op_Accept int | Op_Recv int nat | Op_Send int "byte list"

text \<open>The heap of connection objects, the requests handed to the ring with the pointer in their
  user data, the descriptors that were closed, and the lines printed for received messages: the
  string (\<open>None\<close> when it runs past the array) and the number of bytes received.\<close>

record srv =
  heap :: "nat \<Rightarrow> ConnInfo option"
  outst :: "(op \<times> nat option) multiset"
  closed :: "int list"
  logged :: "(byte list option \<times> int) list"

definition cleared :: ConnInfo where
  "cleared = \<lparr>connfd = 0, event = EVENT_ACCEPT, buffer = replicate MAXLINE 0, buffer_length = 0\<rparr>"

text \<open>The timeout that is prepared first is overwritten by the accept in the same entry.\<close>

definition set_accept_event :: "((nat \<Rightarrow> ConnInfo option) \<Rightarrow> nat option) \<Rightarrow> int \<Rightarrow> srv \<Rightarrow> srv option" where
  "set_accept_event malloc sfd s =
     (case malloc (heap s) of
        None \<Rightarrow> None
      | Some info \<Rightarrow>
          Some (s\<lparr>heap := (heap s)(info \<mapsto> cleared\<lparr>connfd := sfd, event := EVENT_ACCEPT\<rparr>),
                  outst := add_mset (Op_Accept sfd, Some info) (outst s)\<rparr>))"

definition set_recv_event :: "int \<Rightarrow> nat \<Rightarrow> srv \<Rightarrow> srv option" where
  "set_recv_event sfd info s =
     (case heap s info of
        None \<Rightarrow> None
      | Some ci \<Rightarrow>
          Some (s\<lparr>heap := (heap s)(info \<mapsto> ci\<lparr>connfd := sfd, event := EVENT_READ\<rparr>),
                  outst := add_mset (Op_Recv sfd (buffer_length ci), Some info) (outst s)\<rparr>))"

definition set_send_event :: "int \<Rightarrow> nat \<Rightarrow> nat \<Rightarrow> srv \<Rightarrow> srv option" where
  "set_send_event sfd info len s =
     (case heap s info of
        None \<Rightarrow> None
      | Some ci \<Rightarrow>
          Some (s\<lparr>heap := (heap s)(info \<mapsto> ci\<lparr>connfd := sfd, event := EVENT_WRITE\<rparr>),
                  outst := add_mset (Op_Send sfd (take len (buffer ci)), Some info) (outst s)\<rparr>))"

definition free_info :: "nat \<Rightarrow> srv \<Rightarrow> srv" where
  "free_info info s = s\<lparr>heap := (heap s)(info := None)\<rparr>"

definition close_fd :: "int \<Rightarrow> srv \<Rightarrow> srv" where
  "close_fd fd s = s\<lparr>closed := closed s @ [fd]\<rparr>"

text \<open>\<open>printf("recv: %s, %d\n", ci->buffer, cqe->res)\<close>. The buffer is not cleared between messages and
  has no room for a terminator of its own.\<close>

definition recv_log :: "ConnInfo \<Rightarrow> byte list option" where
  "recv_log ci = cstr (buffer ci)"

definition log_recv :: "ConnInfo \<Rightarrow> int \<Rightarrow> srv \<Rightarrow> srv" where
  "log_recv ci res s = s\<lparr>logged := logged s @ [(recv_log ci, res)]\<rparr>"

text \<open>The body of the loop over the completions, for user data \<open>data\<close> and result \<open>res\<close>.\<close>

definition server_cqe ::
  "((nat \<Rightarrow> ConnInfo option) \<Rightarrow> nat option) \<Rightarrow> nat option \<Rightarrow> int \<Rightarrow> srv \<Rightarrow> srv option" where
  "server_cqe malloc data res s =
     (case data of
        None \<Rightarrow> Some s
      | Some p \<Rightarrow>
          (case heap s p of
             None \<Rightarrow> None
           | Some ci \<Rightarrow>
               (case event ci of
                  EVENT_ACCEPT \<Rightarrow>
                    if res < 0 then Some (free_info p s)
                    else (case malloc (heap s) of
                        None \<Rightarrow> None
                      | Some new_info \<Rightarrow> do {
                          s1 \<leftarrow> set_recv_event res new_info
                            (s\<lparr>heap := (heap s)(new_info \<mapsto> cleared\<lparr>buffer_length := MAXLINE\<rparr>)\<rparr>);
                          s2 \<leftarrow> set_accept_event malloc (connfd ci) s1;
                          Some (free_info p s2) })
                | EVENT_READ \<Rightarrow>
                    if res = 0 then Some (free_info p (close_fd (connfd ci) s))
                    else if res < 0 then Some (free_info p (close_fd (connfd ci) s))
                    else set_send_event (connfd ci) p (nat res)
                      (log_recv ci res (s\<lparr>heap := (heap s)(p \<mapsto> ci\<lparr>buffer_length := nat res\<rparr>)\<rparr>))
                | EVENT_WRITE \<Rightarrow>
                    if res \<le> 0 then Some (free_info p (close_fd (connfd ci) s))
                    else set_recv_event (connfd ci) p s)))"

text \<open>A completion: the kernel takes one outstanding request, stores the bytes of a successful
  receive in the buffer of the connection, and the loop handles it.\<close>

definition store :: "op \<Rightarrow> nat option \<Rightarrow> byte list \<Rightarrow> srv \<Rightarrow> srv" where
  "store oper data bytes s =
     (case (oper, data) of
        (Op_Recv fd n, Some p) \<Rightarrow>
          s\<lparr>heap := (heap s)(p := map_option (\<lambda>ci. ci\<lparr>buffer := bytes @ drop (length bytes) (buffer ci)\<rparr>) (heap s p))\<rparr>
      | _ \<Rightarrow> s)"

definition admissible :: "op \<Rightarrow> int \<Rightarrow> byte list \<Rightarrow> bool" where
  "admissible oper res bytes \<longleftrightarrow>
     (case oper of
        Op_Nop \<Rightarrow> res = 0 \<and> bytes = []
      | Op_Accept fd \<Rightarrow> bytes = []
      | Op_Recv fd n \<Rightarrow> length bytes = nat res \<and> nat res \<le> n
      | Op_Send fd bs \<Rightarrow> nat res \<le> length bs \<and> bytes = [])"

definition serve ::
  "((nat \<Rightarrow> ConnInfo option) \<Rightarrow> nat option) \<Rightarrow> op \<Rightarrow> nat option \<Rightarrow> int \<Rightarrow> byte list \<Rightarrow> srv \<Rightarrow> srv option" where
  "serve malloc oper data res bytes s =
     server_cqe malloc data res (store oper data bytes (s\<lparr>outst := outst s - {#(oper, data)#}\<rparr>))"

inductive served :: "((nat \<Rightarrow> ConnInfo option) \<Rightarrow> nat option) \<Rightarrow> srv \<Rightarrow> srv \<Rightarrow> bool"
  for malloc where
  completion: "(oper, data) \<in># outst s \<Longrightarrow> admissible oper res bytes \<Longrightarrow>
    serve malloc oper data res bytes s = Some s' \<Longrightarrow> served malloc s s'"

text \<open>Where \<open>main\<close> enters the loop: one entry was taken and left empty, and one accept is queued.\<close>

definition server_start :: "((nat \<Rightarrow> ConnInfo option) \<Rightarrow> nat option) \<Rightarrow> int \<Rightarrow> srv option" where
  "server_start malloc sockfd =
     set_accept_event malloc sockfd \<lparr>heap = Map.empty, outst = {#(Op_Nop, None)#}, closed = [], logged = []\<rparr>"

section \<open>Ownership\<close>

text \<open>The request that a connection object is waiting for.\<close>

fun waits_for :: "op \<Rightarrow> ConnInfo \<Rightarrow> bool" where
  "waits_for Op_Nop ci = False"
| "waits_for (Op_Accept fd) ci = (event ci = EVENT_ACCEPT \<and> connfd ci = fd)"
| "waits_for (Op_Recv fd n) ci = (event ci = EVENT_READ \<and> connfd ci = fd \<and> n = buffer_length ci)"
| "waits_for (Op_Send fd bs) ci = (event ci = EVENT_WRITE \<and> connfd ci = fd)"

definition ptrs :: "(op \<times> nat option) multiset \<Rightarrow> nat multiset" where
  "ptrs M = image_mset (\<lambda>r. the (snd r)) (filter_mset (\<lambda>r. snd r \<noteq> None) M)"

lemma ptrs_add [simp]: "ptrs (add_mset (oper, Some p) M) = add_mset p (ptrs M)"
  "ptrs (add_mset (oper, None) M) = ptrs M"
  by (simp_all add: ptrs_def)

lemma ptrs_mem: "(oper, Some p) \<in># M \<Longrightarrow> p \<in># ptrs M"
  by (force simp: ptrs_def)

text \<open>Every object on the heap is the user data of exactly one outstanding request, the one it
  is waiting for, and a receive never asks for more than the buffer holds.\<close>

definition srv_inv :: "srv \<Rightarrow> bool" where
  "srv_inv s \<longleftrightarrow> finite (dom (heap s)) \<and> ptrs (outst s) = mset_set (dom (heap s)) \<and>
     (\<forall>p ci. heap s p = Some ci \<longrightarrow> length (buffer ci) = MAXLINE \<and> buffer_length ci \<le> MAXLINE) \<and>
     (\<forall>oper p. (oper, Some p) \<in># outst s \<longrightarrow> (\<exists>ci. heap s p = Some ci \<and> waits_for oper ci)) \<and>
     (\<forall>oper. (oper, None) \<in># outst s \<longrightarrow> oper = Op_Nop)"

text \<open>The state while one completion is handled: the object \<open>p\<close> is on the heap and no request
  points to it.\<close>

definition detached :: "nat \<Rightarrow> srv \<Rightarrow> bool" where
  "detached p s \<longleftrightarrow> finite (dom (heap s)) \<and> p \<in> dom (heap s) \<and>
     ptrs (outst s) = mset_set (dom (heap s) - {p}) \<and>
     (\<forall>q ci. heap s q = Some ci \<longrightarrow> length (buffer ci) = MAXLINE \<and> buffer_length ci \<le> MAXLINE) \<and>
     (\<forall>oper q. (oper, Some q) \<in># outst s \<longrightarrow> q \<noteq> p \<and> (\<exists>ci. heap s q = Some ci \<and> waits_for oper ci)) \<and>
     (\<forall>oper. (oper, None) \<in># outst s \<longrightarrow> oper = Op_Nop)"

lemma detach:
  assumes "srv_inv s" and "(oper, Some p) \<in># outst s"
  shows "detached p (s\<lparr>outst := outst s - {#(oper, Some p)#}\<rparr>)"
proof -
  obtain M where M: "outst s = add_mset (oper, Some p) M" using assms(2) by (metis insert_DiffM)
  have fin: "finite (dom (heap s))" and pt: "add_mset p (ptrs M) = mset_set (dom (heap s))"
    using assms(1) M by (auto simp: srv_inv_def)
  have p: "p \<in> dom (heap s)" using fin pt by (metis elem_mset_set union_single_eq_member)
  have rest: "ptrs M = mset_set (dom (heap s) - {p})"
    using pt mset_set.remove [OF fin p] by simp
  have "q \<noteq> p" if "(op', Some q) \<in># M" for op' q
    using ptrs_mem [OF that] rest fin by auto
  then show ?thesis using assms(1) M fin p rest by (auto simp: detached_def srv_inv_def)
qed

text \<open>The object is freed, or waits for a new request; a further object comes with its own.\<close>

lemma detached_free: "detached p s \<Longrightarrow> srv_inv (free_info p s)"
  by (auto simp: detached_def srv_inv_def free_info_def dom_fun_upd)

lemma detached_close: "detached p s \<Longrightarrow> detached p (close_fd fd s)"
  by (simp add: detached_def close_fd_def)

lemma log_recv_fields [simp]:
  "heap (log_recv ci res s) = heap s" "outst (log_recv ci res s) = outst s" "closed (log_recv ci res s) = closed s"
  by (simp_all add: log_recv_def)

lemma detached_log: "detached p s \<Longrightarrow> detached p (log_recv ci res s)"
  by (simp add: detached_def log_recv_def)

lemma detached_request:
  assumes "detached p s" and "waits_for oper ci" and "length (buffer ci) = MAXLINE"
    and "buffer_length ci \<le> MAXLINE"
  shows "srv_inv (s\<lparr>heap := (heap s)(p \<mapsto> ci), outst := add_mset (oper, Some p) (outst s)\<rparr>)"
proof -
  have fin: "finite (dom (heap s))" and p: "p \<in> dom (heap s)"
    and pt: "ptrs (outst s) = mset_set (dom (heap s) - {p})"
    using assms(1) by (auto simp: detached_def)
  have "add_mset p (mset_set (dom (heap s) - {p})) = mset_set (dom (heap s))"
    using mset_set.remove [OF fin p] by simp
  moreover have "dom ((heap s)(p \<mapsto> ci)) = dom (heap s)" using p by auto
  ultimately have "ptrs (add_mset (oper, Some p) (outst s)) = mset_set (dom ((heap s)(p \<mapsto> ci)))"
    using pt by simp
  then show ?thesis using assms by (auto simp: srv_inv_def detached_def)
qed

lemma detached_extend:
  assumes "detached p s" and "heap s a = None" and "waits_for oper ci"
    and "length (buffer ci) = MAXLINE" and "buffer_length ci \<le> MAXLINE"
  shows "detached p (s\<lparr>heap := (heap s)(a \<mapsto> ci), outst := add_mset (oper, Some a) (outst s)\<rparr>)"
proof -
  have fin: "finite (dom (heap s))" and p: "p \<in> dom (heap s)" and a: "a \<notin> dom (heap s)"
    and pt: "ptrs (outst s) = mset_set (dom (heap s) - {p})"
    using assms(1,2) by (auto simp: detached_def)
  have ne: "a \<noteq> p" using p a by auto
  have "insert a (dom (heap s)) - {p} = insert a (dom (heap s) - {p})" using ne by auto
  then have "ptrs (add_mset (oper, Some a) (outst s)) = mset_set (dom ((heap s)(a \<mapsto> ci)) - {p})"
    using pt fin a by simp
  moreover have "q \<noteq> a" if "(op', Some q) \<in># outst s" for op' q
    using assms(1,2) that unfolding detached_def by fastforce
  ultimately show ?thesis using assms ne by (auto simp: detached_def)
qed

text \<open>Memory from \<open>malloc\<close> is new.\<close>

definition malloc_fresh :: "((nat \<Rightarrow> ConnInfo option) \<Rightarrow> nat option) \<Rightarrow> bool" where
  "malloc_fresh malloc \<longleftrightarrow> (\<forall>h. finite (dom h) \<longrightarrow> (\<exists>a. malloc h = Some a \<and> h a = None))"

lemma length_cleared [simp]: "length (buffer cleared) = MAXLINE" "buffer_length cleared = 0"
  by (simp_all add: cleared_def)

lemma store_detached:
  assumes "detached p s" and "heap s p = Some ci" and "waits_for oper ci" and "admissible oper res bytes"
  obtains ci' where "detached p (store oper (Some p) bytes s)"
    "heap (store oper (Some p) bytes s) p = Some ci'" "waits_for oper ci'"
    "event ci' = event ci" "connfd ci' = connfd ci" "buffer_length ci' = buffer_length ci"
    "(\<exists>fd n. oper = Op_Recv fd n) \<longrightarrow> take (length bytes) (buffer ci') = bytes"
    "outst (store oper (Some p) bytes s) = outst s"
proof (cases "\<exists>fd n. oper = Op_Recv fd n")
  case True
  then obtain fd n where op: "oper = Op_Recv fd n" by blast
  let ?ci = "ci\<lparr>buffer := bytes @ drop (length bytes) (buffer ci)\<rparr>"
  have len: "length (buffer ci) = MAXLINE" "buffer_length ci \<le> MAXLINE"
    using assms(1,2) by (auto simp: detached_def)
  have "length bytes \<le> MAXLINE" using assms(3,4) op len by (auto simp: admissible_def)
  then have "length (buffer ?ci) = MAXLINE" using len by simp
  moreover have st: "store oper (Some p) bytes s = s\<lparr>heap := (heap s)(p \<mapsto> ?ci)\<rparr>"
    using assms(2) op by (simp add: store_def)
  moreover have "dom ((heap s)(p \<mapsto> ?ci)) = dom (heap s)" using assms(2) by auto
  ultimately have "detached p (store oper (Some p) bytes s)"
    using assms(1) len by (auto simp: detached_def)
  with that [of ?ci] st assms(3) op show thesis by auto
next
  case False
  then have "store oper (Some p) bytes s = s" by (auto simp: store_def split: op.splits)
  with that [of ci] assms False show thesis by auto
qed

lemma set_accept_detached:
  assumes "detached p s" and "malloc_fresh malloc"
  obtains s' where "set_accept_event malloc fd s = Some s'" "detached p s'"
proof -
  have "finite (dom (heap s))" using assms(1) by (simp add: detached_def)
  then obtain a where a: "malloc (heap s) = Some a" "heap s a = None"
    using assms(2) by (auto simp: malloc_fresh_def)
  let ?ci = "cleared\<lparr>connfd := fd, event := EVENT_ACCEPT\<rparr>"
  have "detached p (s\<lparr>heap := (heap s)(a \<mapsto> ?ci), outst := add_mset (Op_Accept fd, Some a) (outst s)\<rparr>)"
    by (rule detached_extend [OF assms(1) a(2)]) simp_all
  with that a(1) show thesis by (simp add: set_accept_event_def)
qed

lemma handle_accept:
  assumes "detached p s" and "heap s p = Some ci" and "event ci = EVENT_ACCEPT" and "malloc_fresh malloc"
  shows "\<exists>s'. server_cqe malloc (Some p) res s = Some s' \<and> srv_inv s'"
proof (cases "res < 0")
  case True
  then show ?thesis using assms detached_free by (simp add: server_cqe_def)
next
  case False
  have "finite (dom (heap s))" using assms(1) by (simp add: detached_def)
  then obtain a where a: "malloc (heap s) = Some a" "heap s a = None"
    using assms(4) by (auto simp: malloc_fresh_def)
  let ?ci = "cleared\<lparr>buffer_length := MAXLINE, connfd := res, event := EVENT_READ\<rparr>"
  let ?s = "s\<lparr>heap := (heap s)(a \<mapsto> ?ci), outst := add_mset (Op_Recv res MAXLINE, Some a) (outst s)\<rparr>"
  have rcv: "set_recv_event res a (s\<lparr>heap := (heap s)(a \<mapsto> cleared\<lparr>buffer_length := MAXLINE\<rparr>)\<rparr>) = Some ?s"
    by (simp add: set_recv_event_def)
  have "detached p ?s" by (rule detached_extend [OF assms(1) a(2)]) simp_all
  from set_accept_detached [OF this assms(4), of "connfd ci"] obtain s' where
    "set_accept_event malloc (connfd ci) ?s = Some s'" "detached p s'" .
  with rcv a(1) False assms(2,3) detached_free [of p s'] show ?thesis
    by (simp add: server_cqe_def)
qed

lemma handle_read:
  assumes "detached p s" and "heap s p = Some ci" and "event ci = EVENT_READ" and "nat res \<le> MAXLINE"
  shows "\<exists>s'. server_cqe malloc (Some p) res s = Some s' \<and> srv_inv s'"
proof (cases "res \<le> 0")
  case True
  then show ?thesis using assms detached_free [OF detached_close [OF assms(1)]]
    by (auto simp: server_cqe_def)
next
  case False
  let ?ci = "ci\<lparr>buffer_length := nat res, connfd := connfd ci, event := EVENT_WRITE\<rparr>"
  let ?t = "log_recv ci res s"
  have "srv_inv (?t\<lparr>heap := (heap ?t)(p \<mapsto> ?ci),
      outst := add_mset (Op_Send (connfd ci) (take (nat res) (buffer ci)), Some p) (outst ?t)\<rparr>)"
    using assms detached_log [OF assms(1)] by (intro detached_request) (auto simp: detached_def)
  with False assms(2,3) show ?thesis by (simp add: server_cqe_def set_send_event_def log_recv_def)
qed

lemma handle_write:
  assumes "detached p s" and "heap s p = Some ci" and "event ci = EVENT_WRITE"
  shows "\<exists>s'. server_cqe malloc (Some p) res s = Some s' \<and> srv_inv s'"
proof (cases "res \<le> 0")
  case True
  then show ?thesis using assms detached_free [OF detached_close [OF assms(1)]]
    by (auto simp: server_cqe_def)
next
  case False
  let ?ci = "ci\<lparr>connfd := connfd ci, event := EVENT_READ\<rparr>"
  have "srv_inv (s\<lparr>heap := (heap s)(p \<mapsto> ?ci),
      outst := add_mset (Op_Recv (connfd ci) (buffer_length ci), Some p) (outst s)\<rparr>)"
    using assms by (intro detached_request) (auto simp: detached_def)
  with False assms(2,3) show ?thesis by (simp add: server_cqe_def set_recv_event_def)
qed

lemma serve_ok:
  assumes "srv_inv s" and "malloc_fresh malloc" and "(oper, data) \<in># outst s"
    and "admissible oper res bytes"
  shows "\<exists>s'. serve malloc oper data res bytes s = Some s' \<and> srv_inv s'"
proof (cases data)
  case None
  then obtain M where "outst s = add_mset (oper, None) M" using assms(3) by (metis insert_DiffM)
  with assms(1) have "srv_inv (s\<lparr>outst := M\<rparr>)" by (auto simp: srv_inv_def)
  with None \<open>outst s = _\<close> show ?thesis by (simp add: serve_def server_cqe_def store_def split: op.splits)
next
  case (Some p)
  let ?t = "s\<lparr>outst := outst s - {#(oper, Some p)#}\<rparr>"
  have d: "detached p ?t" using detach assms(1,3) Some by blast
  have "\<exists>ci. heap s p = Some ci \<and> waits_for oper ci"
    using assms(1,3) Some unfolding srv_inv_def by blast
  then obtain ci where ci: "heap ?t p = Some ci" "waits_for oper ci" by auto
  from store_detached [OF d ci assms(4)] obtain ci' where c:
    "detached p (store oper (Some p) bytes ?t)" "heap (store oper (Some p) bytes ?t) p = Some ci'"
    "waits_for oper ci'" by metis
  have "buffer_length ci' \<le> MAXLINE" using c(1,2) unfolding detached_def by blast
  then have len: "nat res \<le> MAXLINE" if "event ci' = EVENT_READ"
    using that c(3) assms(4) by (cases oper) (auto simp: admissible_def)
  show ?thesis unfolding serve_def Some
    using handle_accept [OF c(1,2) _ assms(2)] handle_read [OF c(1,2) _ len] handle_write [OF c(1,2)]
    by (cases "event ci'") auto
qed

lemma served_inv:
  assumes "malloc_fresh malloc" and "server_start malloc sockfd = Some s0" and "(served malloc)\<^sup>*\<^sup>* s0 s"
  shows "srv_inv s"
  using assms(3)
proof (induction rule: rtranclp_induct)
  case base
  let ?e = "\<lparr>heap = Map.empty, outst = {#(Op_Nop, None)#}, closed = [], logged = []\<rparr>"
  obtain a where a: "malloc (heap ?e) = Some a"
    using assms(1) [unfolded malloc_fresh_def, rule_format, of Map.empty] by auto
  with assms(2) have "s0 = ?e\<lparr>heap := [a \<mapsto> cleared\<lparr>connfd := sockfd, event := EVENT_ACCEPT\<rparr>],
      outst := {#(Op_Accept sockfd, Some a), (Op_Nop, None)#}\<rparr>"
    by (simp add: server_start_def set_accept_event_def)
  then show ?case by (auto simp: srv_inv_def ptrs_def)
next
  case (step s t)
  from step.hyps(2) step.IH show ?case
    by cases (metis serve_ok [OF _ assms(1)] option.inject)
qed

section \<open>The log\<close>















lemma send_completes:
  assumes "heap s p = Some ci" and "event ci = EVENT_WRITE" and "connfd ci = fd"
    and "outst s = add_mset (Op_Send fd bytes, Some p) M" and "0 < m"
  shows "\<exists>s'. serve malloc (Op_Send fd bytes) (Some p) (int m) [] s = Some s' \<and>
    outst s' = add_mset (Op_Recv fd (buffer_length ci), Some p) M"
  using assms by (simp add: serve_def store_def server_cqe_def set_recv_event_def)

text \<open>The number of accepts handed to the ring never grows; a failed one is not replaced.\<close>

fun is_accept :: "op \<Rightarrow> bool" where
  "is_accept (Op_Accept fd) = True" | "is_accept _ = False"

definition accepts :: "(op \<times> nat option) multiset \<Rightarrow> nat" where
  "accepts M = size (filter_mset (\<lambda>r. is_accept (fst r)) M)"

lemma accepts_add [simp]:
  "accepts (add_mset (oper, d) M) = accepts M + (if is_accept oper then 1 else 0)"
  by (simp add: accepts_def)

lemma outst_simps [simp]:
  "outst (free_info p s) = outst s" "outst (close_fd fd s) = outst s" "outst (store oper d bytes s) = outst s"
  by (auto simp: free_info_def close_fd_def store_def split: op.splits option.splits)

lemma set_event_accepts:
  "set_recv_event fd p s = Some s' \<Longrightarrow> accepts (outst s') = accepts (outst s)"
  "set_send_event fd p n s = Some s' \<Longrightarrow> accepts (outst s') = accepts (outst s)"
  "set_accept_event malloc fd s = Some s' \<Longrightarrow> accepts (outst s') = accepts (outst s) + 1"
  by (auto simp: set_recv_event_def set_send_event_def set_accept_event_def split: option.splits)

lemma server_cqe_accepts:
  assumes "server_cqe malloc (Some p) res s = Some s'" and "heap s p = Some ci"
  shows "accepts (outst s') = accepts (outst s) + (if event ci = EVENT_ACCEPT \<and> 0 \<le> res then 1 else 0)"
  using assms
  by (auto simp: server_cqe_def dest!: set_event_accepts
      split: option.splits sevent.splits if_splits bind_splits)

lemma serve_accepts:
  assumes "srv_inv s" and "(oper, data) \<in># outst s" and "admissible oper res bytes"
    and "serve malloc oper data res bytes s = Some s'"
  shows "accepts (outst s') = accepts (outst s) - (if is_accept oper \<and> res < 0 then 1 else 0)"
proof -
  obtain M where M: "outst s = add_mset (oper, data) M" using assms(2) by (metis insert_DiffM)
  show ?thesis
  proof (cases data)
    case None
    then have "oper = Op_Nop" using assms(1,2) by (auto simp: srv_inv_def)
    with None assms(4) M show ?thesis by (auto simp: serve_def server_cqe_def)
  next
    case (Some p)
    let ?t = "s\<lparr>outst := outst s - {#(oper, Some p)#}\<rparr>"
    have "\<exists>ci. heap s p = Some ci \<and> waits_for oper ci"
      using assms(1,2) Some unfolding srv_inv_def by blast
    then obtain ci where ci: "heap ?t p = Some ci" "waits_for oper ci" by auto
    obtain ci' where c: "heap (store oper (Some p) bytes ?t) p = Some ci'" "waits_for oper ci'"
      using store_detached [OF detach ci assms(3)] assms(1,2) Some by metis
    have ev: "event ci' = EVENT_ACCEPT \<longleftrightarrow> is_accept oper" using c(2) by (cases oper) auto
    from assms(4) Some have "server_cqe malloc (Some p) res (store oper (Some p) bytes ?t) = Some s'"
      by (simp add: serve_def)
    from server_cqe_accepts [OF this c(1)] M Some ev show ?thesis by auto
  qed
qed

lemma served_accepts:
  assumes "malloc_fresh malloc" and "srv_inv s" and "(served malloc)\<^sup>*\<^sup>* s t"
  shows "srv_inv t \<and> accepts (outst t) \<le> accepts (outst s)"
  using assms(3)
proof (induction rule: rtranclp_induct)
  case base
  then show ?case using assms(2) by simp
next
  case (step t u)
  from step.hyps(2) show ?case
  proof cases
    case (completion oper data res bytes)
    with step.IH serve_accepts [OF _ completion] serve_ok [OF _ assms(1) completion(1,2)]
    show ?thesis by fastforce
  qed
qed

section \<open>Properties\<close>


definition first_free :: "(nat \<Rightarrow> ConnInfo option) \<Rightarrow> nat option" where
  "first_free h = (if finite (dom h) then Some (if dom h = {} then 0 else Suc (Max (dom h))) else None)"

lemma first_free_fresh: "malloc_fresh first_free"
proof -
  have "h (Suc (Max (dom h))) = None" if "finite (dom h)" for h :: "nat \<Rightarrow> ConnInfo option"
    using Max_ge [OF that] by (metis domI not_less_eq_eq option.exhaust order_refl)
  then show ?thesis by (auto simp: malloc_fresh_def first_free_def)
qed

lemma first_client:
  "\<exists>s0 s1. server_start first_free 3 = Some s0 \<and> (served first_free)\<^sup>*\<^sup>* s0 s1 \<and>
    (Op_Recv 5 MAXLINE, Some 1) \<in># outst s1"
proof -
  let ?s0 = "\<lparr>heap = [0 \<mapsto> cleared\<lparr>connfd := 3, event := EVENT_ACCEPT\<rparr>],
    outst = {#(Op_Accept 3, Some 0), (Op_Nop, None)#}, closed = [], logged = []\<rparr>"
  have s0: "server_start first_free 3 = Some ?s0"
    by (simp add: server_start_def set_accept_event_def first_free_def)
  have "\<exists>s1. serve first_free (Op_Accept 3) (Some 0) 5 [] ?s0 = Some s1 \<and>
      (Op_Recv 5 MAXLINE, Some 1) \<in># outst s1"
    by (simp add: serve_def store_def server_cqe_def set_recv_event_def set_accept_event_def
        first_free_def free_info_def)
  then obtain s1 where s1: "serve first_free (Op_Accept 3) (Some 0) 5 [] ?s0 = Some s1"
    "(Op_Recv 5 MAXLINE, Some 1) \<in># outst s1" by blast
  have "served first_free ?s0 s1"
    by (rule served.completion [OF _ _ s1(1)]) (simp_all add: admissible_def)
  with s0 s1(2) show ?thesis by blast
qed


text \<open>An echo, from the receive that completes to the receive that follows it.\<close>

lemma serve_echo:
  assumes "malloc_fresh malloc" and "server_start malloc sockfd = Some s0" and "(served malloc)\<^sup>*\<^sup>* s0 s"
    and "(Op_Recv fd n, Some p) \<in># outst s" and "bytes \<noteq> []" and "length bytes \<le> n"
  shows "\<exists>s'. serve malloc (Op_Recv fd n) (Some p) (int (length bytes)) bytes s = Some s' \<and>
      outst s' = add_mset (Op_Send fd bytes, Some p) (outst s - {#(Op_Recv fd n, Some p)#}) \<and>
    (\<forall>m. 0 < m \<and> m \<le> length bytes \<longrightarrow>
       (\<exists>s''. serve malloc (Op_Send fd bytes) (Some p) (int m) [] s' = Some s'' \<and>
         outst s'' = add_mset (Op_Recv fd (length bytes), Some p) (outst s - {#(Op_Recv fd n, Some p)#})))"
proof -
  have inv: "srv_inv s" by (rule served_inv [OF assms(1-3)])
  let ?t = "s\<lparr>outst := outst s - {#(Op_Recv fd n, Some p)#}\<rparr>"
  let ?u = "store (Op_Recv fd n) (Some p) bytes ?t"
  have "\<exists>ci. heap s p = Some ci \<and> waits_for (Op_Recv fd n) ci"
    using inv assms(4) unfolding srv_inv_def by blast
  then obtain ci where ci: "heap ?t p = Some ci" "waits_for (Op_Recv fd n) ci" by auto
  have adm: "admissible (Op_Recv fd n) (int (length bytes)) bytes" using assms(6) by (simp add: admissible_def)
  from store_detached [OF detach [OF inv assms(4)] ci adm] obtain ci' where c:
    "heap ?u p = Some ci'" "event ci' = EVENT_READ" "connfd ci' = fd"
    "take (length bytes) (buffer ci') = bytes" "outst ?u = outst ?t" using ci(2) by auto
  have pos: "0 < int (length bytes)" using assms(5) by simp
  let ?ci = "ci'\<lparr>buffer_length := length bytes, connfd := fd, event := EVENT_WRITE\<rparr>"
  let ?s' = "(log_recv ci' (int (length bytes)) ?u)\<lparr>heap := (heap ?u)(p \<mapsto> ?ci),
    outst := add_mset (Op_Send fd bytes, Some p) (outst ?t)\<rparr>"
  have "server_cqe malloc (Some p) (int (length bytes)) ?u = Some ?s'"
    using c pos by (simp add: server_cqe_def set_send_event_def log_recv_def)
  then have first: "serve malloc (Op_Recv fd n) (Some p) (int (length bytes)) bytes s = Some ?s'"
    unfolding serve_def .
  have second: "\<exists>s''. serve malloc (Op_Send fd bytes) (Some p) (int m) [] ?s' = Some s'' \<and>
      outst s'' = add_mset (Op_Recv fd (length bytes), Some p) (outst ?t)" if "0 < m" for m
    using send_completes [of ?s' p ?ci fd bytes "outst ?t" m malloc] that by simp
  show ?thesis by (rule exI [of _ ?s']) (use first second in simp)
qed

text \<open>Further: what a client sends comes back. A receive that completes with some bytes makes the
  server queue the sending of exactly these bytes on the same descriptor; when they are sent,
  the next receive on it is queued. That receive has room only for as many bytes as the last
  message had, so the buffer of a connection never grows again.\<close>

theorem server_echoes:
  assumes "malloc_fresh malloc" and "server_start malloc sockfd = Some s0" and "(served malloc)\<^sup>*\<^sup>* s0 s"
    and "(Op_Recv fd n, Some p) \<in># outst s" and "bytes \<noteq> []" and "length bytes \<le> n"
  shows "\<exists>s'. serve malloc (Op_Recv fd n) (Some p) (int (length bytes)) bytes s = Some s' \<and>
      outst s' = add_mset (Op_Send fd bytes, Some p) (outst s - {#(Op_Recv fd n, Some p)#}) \<and>
    (\<forall>m. 0 < m \<and> m \<le> length bytes \<longrightarrow>
       (\<exists>s''. serve malloc (Op_Send fd bytes) (Some p) (int m) [] s' = Some s'' \<and>
         outst s'' = add_mset (Op_Recv fd (length bytes), Some p) (outst s - {#(Op_Recv fd n, Some p)#})))"
  using assms by (rule serve_echo)

theorem server_echoes_witness:
  "\<exists>s1 s2. (Op_Recv 5 MAXLINE, Some 1) \<in># outst s1 \<and>
    serve first_free (Op_Recv 5 MAXLINE) (Some 1) 2 [104, 105] s1 = Some s2 \<and>
    (Op_Send 5 [104, 105], Some 1) \<in># outst s2"
proof -
  obtain s0 s1 where s: "server_start first_free 3 = Some s0" "(served first_free)\<^sup>*\<^sup>* s0 s1"
    "(Op_Recv 5 MAXLINE, Some 1) \<in># outst s1" using first_client by blast
  from server_echoes [OF first_free_fresh s, of "[104, 105]"] s(3) show ?thesis
    by (auto simp: MAXLINE_def)
qed

text \<open>Further: an accept that fails is not repeated: from then on no accept is outstanding, and no
  run of the server ever queues another, while the connections it has go on.\<close>

theorem server_deaf_after_failed_accept:
  assumes "malloc_fresh malloc" and "server_start malloc sockfd = Some s0" and "(served malloc)\<^sup>*\<^sup>* s0 s"
    and "(Op_Accept fd, Some p) \<in># outst s" and "res < 0"
    and "serve malloc (Op_Accept fd) (Some p) res [] s = Some s1" and "(served malloc)\<^sup>*\<^sup>* s1 s2"
  shows "\<forall>fd' p'. (Op_Accept fd', p') \<notin># outst s2"
proof -
  have inv: "srv_inv s0" "srv_inv s" using served_inv [OF assms(1,2)] assms(3) by auto
  have "accepts (outst s0) = 1"
    using assms(2) by (auto simp: server_start_def dest!: set_event_accepts(3)) (simp add: accepts_def)
  with served_accepts [OF assms(1) inv(1) assms(3)] have le: "accepts (outst s) \<le> 1" by simp
  have adm: "admissible (Op_Accept fd) res []" by (simp add: admissible_def)
  have "accepts (outst s1) = 0"
    using serve_accepts [OF inv(2) assms(4) adm assms(6)] le assms(5) by simp
  moreover have "srv_inv s1" using serve_ok [OF inv(2) assms(1,4) adm] assms(6) by auto
  ultimately have "accepts (outst s2) = 0" using served_accepts [OF assms(1) _ assms(7)] by fastforce
  then have none: "filter_mset (\<lambda>r. is_accept (fst r)) (outst s2) = {#}" by (simp add: accepts_def)
  have "(Op_Accept fd', p') \<notin># outst s2" for fd' p'
  proof
    assume "(Op_Accept fd', p') \<in># outst s2"
    then have "(Op_Accept fd', p') \<in># filter_mset (\<lambda>r. is_accept (fst r)) (outst s2)" by simp
    with none show False by (metis empty_not_add_mset multi_member_split)
  qed
  then show ?thesis by blast
qed

theorem server_deaf_after_failed_accept_witness:
  "\<exists>s1 :: srv. \<forall>fd' p'. (Op_Accept fd', p') \<notin># outst s1"
proof -
  let ?s0 = "\<lparr>heap = [0 \<mapsto> cleared\<lparr>connfd := 3, event := EVENT_ACCEPT\<rparr>],
    outst = {#(Op_Accept 3, Some 0), (Op_Nop, None)#}, closed = [], logged = []\<rparr>"
  have s0: "server_start first_free 3 = Some ?s0"
    by (simp add: server_start_def set_accept_event_def first_free_def)
  obtain s1 where s1: "serve first_free (Op_Accept 3) (Some 0) (-24) [] ?s0 = Some s1"
    by (simp add: serve_def store_def server_cqe_def)
  have "\<forall>fd' p'. (Op_Accept fd', p') \<notin># outst s1"
    by (rule server_deaf_after_failed_accept [OF first_free_fresh s0 _ _ _ s1]) simp_all
  then show ?thesis by blast
qed

end
