(* ===== verification/Socket_Main.thy ===== *)
theory Socket_Main
  imports Socket_Server
begin

text \<open>
  The programs around the socket loops: how socket_uring_server.c, socket_uring_normal.c and
  socket_uring.c make their listening socket, the rounds of the main loop of the first (submit,
  wait, take up to ten completions, handle them, advance), and the client socket_uring_client.c. The socket
  calls are parameters with the locale \<open>sockets\<close> as their contract. \<open>None\<close> is undefined behaviour,
  as in Socket\_Server.
\<close>

section \<open>The listening socket\<close>

definition LISTENQ :: nat where "LISTENQ = 10"
definition CQE_LEN :: nat where "CQE_LEN = 10"
definition RING_LEN :: nat where "RING_LEN = 1024"
definition SERV_PORT :: u16 where "SERV_PORT = 8888"

datatype sockopt =
    SO_REUSEADDR int
  | SO_REUSEPORT int
  | SO_RCVTIMEO int int
  | SO_SNDTIMEO int int
  | SO_LINGER int int
  | SO_KEEPALIVE int
  | TCP_KEEPIDLE int
  | TCP_KEEPINTVL int
  | TCP_KEEPCNT int

record 's sock_api =
  sock_socket :: "'s \<Rightarrow> int \<times> 's"
  setsockopt :: "int \<Rightarrow> sockopt \<Rightarrow> 's \<Rightarrow> int \<times> 's"
  sock_bind :: "int \<Rightarrow> u32 \<Rightarrow> u16 \<Rightarrow> 's \<Rightarrow> int \<times> 's"
  sock_listen :: "int \<Rightarrow> nat \<Rightarrow> 's \<Rightarrow> int \<times> 's"
  sock_close :: "int \<Rightarrow> 's \<Rightarrow> 's"

text \<open>\<open>enable_keepalive\<close>: the four options one after the other, up to the first that fails.\<close>

definition enable_keepalive :: "'s sock_api \<Rightarrow> int \<Rightarrow> 's \<Rightarrow> int \<times> 's" where
  "enable_keepalive api fd s =
     (let (r, s) = setsockopt api fd (SO_KEEPALIVE 1) s in
      if r < 0 then (-1, s) else
      let (r, s) = setsockopt api fd (TCP_KEEPIDLE 60) s in
      if r < 0 then (-1, s) else
      let (r, s) = setsockopt api fd (TCP_KEEPINTVL 10) s in
      if r < 0 then (-1, s) else
      let (r, s) = setsockopt api fd (TCP_KEEPCNT 3) s in
      if r < 0 then (-1, s) else (0, s))"

text \<open>How the set-up of a server ends: the descriptor it listens on, or the status it ends with.\<close>

datatype socket_end = Listening int | Ended int

text \<open>The results of the plain \<open>setsockopt\<close> calls and of \<open>socket\<close> are not looked at. The address
  is \<open>INADDR_ANY\<close>, the port in network byte order.\<close>

definition set_options :: "'s sock_api \<Rightarrow> int \<Rightarrow> sockopt list \<Rightarrow> 's \<Rightarrow> 's" where
  "set_options api fd opts s = foldl (\<lambda>s opt. snd (setsockopt api fd opt s)) s opts"

definition bind_listen :: "'s sock_api \<Rightarrow> int \<Rightarrow> 's \<Rightarrow> socket_end \<times> 's" where
  "bind_listen api fd s =
     (let (r, s) = sock_bind api fd 0 (bswap16 SERV_PORT) s in
      if r = -1 then (Ended (-1), s) else
      let (r, s) = sock_listen api fd LISTENQ s in
      if r < 0 then (Ended (-1), s) else (Listening fd, s))"

definition echo_setup :: "'s sock_api \<Rightarrow> 's \<Rightarrow> socket_end \<times> 's" where
  "echo_setup api s =
     (let (fd, s) = sock_socket api s;
          s = set_options api fd [SO_REUSEADDR 1, SO_REUSEPORT 1, SO_RCVTIMEO 3 0, SO_SNDTIMEO 3 0, SO_LINGER 1 0] s;
          (r, s) = enable_keepalive api fd s
      in if r < 0 then (Ended (-1), sock_close api fd s) else bind_listen api fd s)"

definition render_setup :: "'s sock_api \<Rightarrow> 's \<Rightarrow> socket_end \<times> 's" where
  "render_setup api s =
     (let (fd, s) = sock_socket api s;
          s = set_options api fd [SO_REUSEADDR 1, SO_REUSEPORT 1] s
      in bind_listen api fd s)"

text \<open>The contract of the calls: options that were set without an error are in force, and so are an
  address and a backlog; a call that fails changes neither.\<close>

locale sockets =
  fixes api :: "'s sock_api"
    and opts :: "'s \<Rightarrow> int \<Rightarrow> sockopt set"
    and bound :: "'s \<Rightarrow> int \<Rightarrow> (u32 \<times> u16) option"
    and backlog :: "'s \<Rightarrow> int \<Rightarrow> nat option"
  assumes setsockopt_ok: "setsockopt api fd opt s = (r, s') \<Longrightarrow>
      (if r < 0 then opts s' fd = opts s fd else opt \<in> opts s' fd \<and> opts s fd \<subseteq> opts s' fd)"
    and bind_ok: "sock_bind api fd a p s = (b, s') \<Longrightarrow>
      b \<in> {0, -1} \<and> opts s' fd = opts s fd \<and> (b = 0 \<longrightarrow> bound s' fd = Some (a, p))"
    and listen_ok: "sock_listen api fd n s = (l, s') \<Longrightarrow>
      opts s' fd = opts s fd \<and> bound s' fd = bound s fd \<and> (0 \<le> l \<longrightarrow> backlog s' fd = Some n)"

section \<open>Rounds of the main loops\<close>

text \<open>A completion of the server with connection objects: request, user data, result and the
  bytes a receive delivered. One round handles the completions of a batch in order.\<close>

type_synonym completion = "op \<times> nat option \<times> int \<times> byte list"

fun server_round ::
  "((nat \<Rightarrow> ConnInfo option) \<Rightarrow> nat option) \<Rightarrow> completion list \<Rightarrow> srv \<Rightarrow> srv option" where
  "server_round malloc [] s = Some s"
| "server_round malloc ((oper, data, res, bytes) # cqes) s =
     (case serve malloc oper data res bytes s of None \<Rightarrow> None | Some s' \<Rightarrow> server_round malloc cqes s')"

fun server_rounds ::
  "((nat \<Rightarrow> ConnInfo option) \<Rightarrow> nat option) \<Rightarrow> completion list list \<Rightarrow> srv \<Rightarrow> srv option" where
  "server_rounds malloc [] s = Some s"
| "server_rounds malloc (batch # batches) s =
     (case server_round malloc batch s of None \<Rightarrow> None | Some s' \<Rightarrow> server_rounds malloc batches s')"

text \<open>\<open>main\<close>, for the batches the kernel delivers; the loop itself has no end.\<close>

definition server_main :: "'s sock_api \<Rightarrow> ((nat \<Rightarrow> ConnInfo option) \<Rightarrow> nat option) \<Rightarrow> completion list list \<Rightarrow>
    's \<Rightarrow> int + srv option" where
  "server_main api malloc batches s =
     (case fst (echo_setup api s) of
        Ended st \<Rightarrow> Inl st
      | Listening sockfd \<Rightarrow> Inr (Option.bind (server_start malloc sockfd) (server_rounds malloc batches)))"

definition asked :: "completion \<Rightarrow> op \<times> nat option" where
  "asked c = (case c of (oper, data, res, bytes) \<Rightarrow> (oper, data))"

lemma asked_simp [simp]: "asked (oper, data, res, bytes) = (oper, data)"
  by (simp add: asked_def)

text \<open>What the kernel may deliver: at most \<open>CQE_LEN\<close> completions of requests that are outstanding.\<close>

definition batch_ok :: "completion list \<Rightarrow> srv \<Rightarrow> bool" where
  "batch_ok batch s \<longleftrightarrow> length batch \<le> CQE_LEN \<and>
     mset (map asked batch) \<subseteq># outst s \<and>
     (\<forall>(oper, data, res, bytes) \<in> set batch. admissible oper res bytes)"

fun batches_ok :: "((nat \<Rightarrow> ConnInfo option) \<Rightarrow> nat option) \<Rightarrow> completion list list \<Rightarrow> srv \<Rightarrow> bool" where
  "batches_ok malloc [] s \<longleftrightarrow> True"
| "batches_ok malloc (batch # batches) s \<longleftrightarrow> batch_ok batch s \<and>
     (case server_round malloc batch s of None \<Rightarrow> True | Some s' \<Rightarrow> batches_ok malloc batches s')"

text \<open>The entries of the submission queue that a round takes: all requests that are there after it
  and were not there before.\<close>

definition queued :: "completion list \<Rightarrow> srv \<Rightarrow> srv \<Rightarrow> nat" where
  "queued batch s s' = size (outst s') + length batch - size (outst s)"

section \<open>The client\<close>

text \<open>The two empty loops that ask for a socket and for the connection until they get it; they do not
  end (\<open>None\<close>) as long as the call fails. \<open>conn\<close> is \<open>connect\<close>, the address 127.0.0.1 and the port are in
  network byte order.\<close>

partial_function (option) retry :: "('s \<Rightarrow> int \<times> 's) \<Rightarrow> 's \<Rightarrow> (int \<times> 's) option" where
  "retry f s = (if fst (f s) = -1 then retry f (snd (f s)) else Some (f s))"

definition CLIENT_PORT :: u16 where "CLIENT_PORT = 8888"
definition LOCALHOST :: u32 where "LOCALHOST = 0x0100007f"

definition client_connect :: "'s sock_api \<Rightarrow> (int \<Rightarrow> u32 \<Rightarrow> u16 \<Rightarrow> 's \<Rightarrow> int \<times> 's) \<Rightarrow> 's \<Rightarrow> (int \<times> 's) option" where
  "client_connect api conn s = do {
     (sockfd, s) \<leftarrow> retry (sock_socket api) s;
     (r, s) \<leftarrow> retry (conn sockfd LOCALHOST (bswap16 CLIENT_PORT)) s;
     Some (sockfd, s) }"

definition BUF2 :: nat where "BUF2 = 4096"

text \<open>One round of \<open>recv_msg\<close>: \<open>got\<close> are the bytes \<open>recv\<close> delivered, none for an end of the
  connection or an error. The terminator goes to index \<open>numbytes\<close> of an array of 4096. The result
  is the array and what is printed.\<close>

definition recv_round :: "byte list \<Rightarrow> byte list \<Rightarrow> (byte list \<times> (byte list \<times> nat) option) option" where
  "recv_round buf2 got =
     (if got = [] then Some (buf2, None)
      else do {
        buf2 \<leftarrow> st_bytes buf2 0 got;
        buf2 \<leftarrow> st_bytes buf2 (length got) [0];
        str \<leftarrow> cstr buf2;
        Some (buf2, Some (str, length got)) })"

text \<open>\<open>scanf("%s", buf)\<close>: white space is skipped and the next word stored with its terminator; at
  the end of the input nothing is stored.\<close>

definition is_space :: "byte \<Rightarrow> bool" where
  "is_space b \<longleftrightarrow> b \<in> {9, 10, 11, 12, 13, 32}"

definition scan_word :: "byte list \<Rightarrow> (byte list \<times> byte list) option" where
  "scan_word input =
     (case dropWhile is_space input of
        [] \<Rightarrow> None
      | left \<Rightarrow> Some (takeWhile (\<lambda>b. \<not> is_space b) left, dropWhile (\<lambda>b. \<not> is_space b) left))"

text \<open>One round of the sending loop: the rest of the input, the array and the message sent; sending
  takes \<open>strlen\<close> bytes of the array.\<close>

definition send_round :: "byte list \<Rightarrow> byte list \<Rightarrow> (byte list \<times> byte list \<times> byte list) option" where
  "send_round input buf =
     (case scan_word input of
        None \<Rightarrow> do { msg \<leftarrow> cstr buf; Some ([], buf, msg) }
      | Some (word, left) \<Rightarrow> do {
          buf \<leftarrow> st_bytes buf 0 (word @ [0]);
          msg \<leftarrow> cstr buf;
          Some (left, buf, msg) })"

fun send_rounds :: "nat \<Rightarrow> byte list \<Rightarrow> byte list \<Rightarrow> byte list list option" where
  "send_rounds 0 input buf = Some []"
| "send_rounds (Suc n) input buf = do {
     (input, buf, msg) \<leftarrow> send_round input buf;
     msgs \<leftarrow> send_rounds n input buf;
     Some (msg # msgs) }"

section \<open>Library lemmas\<close>

lemmas setup_defs = enable_keepalive_def bind_listen_def Let_def

context sockets
begin

lemma keepalive_opts:
  assumes "enable_keepalive api fd s = (r, s')" and "0 \<le> r"
  shows "{SO_KEEPALIVE 1, TCP_KEEPIDLE 60, TCP_KEEPINTVL 10, TCP_KEEPCNT 3} \<subseteq> opts s' fd"
proof -
  obtain r1 s1 where 1: "setsockopt api fd (SO_KEEPALIVE 1) s = (r1, s1)" by fastforce
  obtain r2 s2 where 2: "setsockopt api fd (TCP_KEEPIDLE 60) s1 = (r2, s2)" by fastforce
  obtain r3 s3 where 3: "setsockopt api fd (TCP_KEEPINTVL 10) s2 = (r3, s3)" by fastforce
  obtain r4 s4 where 4: "setsockopt api fd (TCP_KEEPCNT 3) s3 = (r4, s4)" by fastforce
  have "0 \<le> r1" "0 \<le> r2" "0 \<le> r3" "0 \<le> r4" "s' = s4"
    using assms 1 2 3 4 by (auto simp: enable_keepalive_def split: if_splits)
  then show ?thesis
    using setsockopt_ok [OF 1] setsockopt_ok [OF 2] setsockopt_ok [OF 3] setsockopt_ok [OF 4] by auto
qed

lemma bind_listen_ok:
  assumes "bind_listen api fd s = (Listening fd', s')"
  shows "fd' = fd \<and> opts s' fd = opts s fd \<and> bound s' fd = Some (0, bswap16 SERV_PORT) \<and> backlog s' fd = Some LISTENQ"
proof -
  obtain b s1 where b: "sock_bind api fd 0 (bswap16 SERV_PORT) s = (b, s1)" by fastforce
  obtain l s2 where l: "sock_listen api fd LISTENQ s1 = (l, s2)" by fastforce
  show ?thesis
    using assms b l bind_ok [OF b] listen_ok [OF l] by (auto simp: bind_listen_def split: if_splits)
qed

lemma echo_setup_ok:
  assumes "echo_setup api s = (Listening fd, s')"
  shows "{SO_KEEPALIVE 1, TCP_KEEPIDLE 60, TCP_KEEPINTVL 10, TCP_KEEPCNT 3} \<subseteq> opts s' fd \<and>
    bound s' fd = Some (0, bswap16 SERV_PORT) \<and> backlog s' fd = Some LISTENQ"
proof -
  obtain f s1 where f: "sock_socket api s = (f, s1)" by fastforce
  let ?s2 = "set_options api f [SO_REUSEADDR 1, SO_REUSEPORT 1, SO_RCVTIMEO 3 0, SO_SNDTIMEO 3 0, SO_LINGER 1 0] s1"
  obtain r s3 where k: "enable_keepalive api f ?s2 = (r, s3)" by fastforce
  have "0 \<le> r" "bind_listen api f s3 = (Listening fd, s')"
    using assms f k by (auto simp: echo_setup_def split: if_splits)
  then show ?thesis
    using keepalive_opts [OF k] bind_listen_ok [of f s3 fd s'] by simp
qed

lemma render_setup_ok:
  assumes "render_setup api s = (Listening fd, s')"
  shows "bound s' fd = Some (0, bswap16 SERV_PORT)"
  using assms bind_listen_ok by (auto simp: render_setup_def Let_def split: prod.splits)

end

text \<open>A handled completion is gone and brings at most two new requests; everything else stays.\<close>

lemma set_event_outst:
  "set_recv_event fd p s = Some s' \<Longrightarrow> \<exists>x. outst s' = add_mset x (outst s)"
  "set_send_event fd p n s = Some s' \<Longrightarrow> \<exists>x. outst s' = add_mset x (outst s)"
  "set_accept_event malloc fd s = Some s' \<Longrightarrow> \<exists>x. outst s' = add_mset x (outst s)"
  by (auto simp: set_recv_event_def set_send_event_def set_accept_event_def split: option.splits)

lemma server_cqe_outst:
  assumes "server_cqe malloc data res s = Some s'"
  shows "\<exists>N. outst s' = outst s + N \<and> size N \<le> 2"
proof -
  have one: "\<exists>N. add_mset x M = M + N \<and> size N \<le> 2" for x and M :: "(op \<times> nat option) multiset"
    by (rule exI [of _ "{#x#}"]) simp
  have two: "\<exists>N. add_mset x (add_mset y M) = M + N \<and> size N \<le> 2" for x y and M :: "(op \<times> nat option) multiset"
    by (rule exI [of _ "{#x, y#}"]) simp
  show ?thesis
    using assms one two
    by (auto simp: server_cqe_def dest!: set_event_outst
        split: option.splits sevent.splits if_splits bind_splits)
qed

lemma serve_outst:
  assumes "serve malloc oper data res bytes s = Some s'" and "outst s = add_mset (oper, data) M"
  shows "\<exists>N. outst s' = M + N \<and> size N \<le> 2"
  using assms server_cqe_outst [of malloc data res "store oper data bytes (s\<lparr>outst := M\<rparr>)" s']
  by (simp add: serve_def)

lemma server_round_ok:
  assumes "srv_inv s" and "malloc_fresh malloc"
    and "outst s = mset (map asked batch) + M"
    and "\<forall>(oper, data, res, bytes) \<in> set batch. admissible oper res bytes"
  shows "\<exists>s' N. server_round malloc batch s = Some s' \<and> srv_inv s' \<and> outst s' = M + N \<and> size N \<le> 2 * length batch"
  using assms(1,3,4)
proof (induction batch arbitrary: s M)
  case Nil
  then show ?case by simp
next
  case (Cons c batch)
  obtain oper data res bytes where c: "c = (oper, data, res, bytes)" by (cases c)
  let ?rest = "mset (map asked batch)"
  have o: "outst s = add_mset (oper, data) (?rest + M)" using Cons.prems(2) c by simp
  have adm: "admissible oper res bytes" using Cons.prems(3) c by simp
  obtain s1 where s1: "serve malloc oper data res bytes s = Some s1" "srv_inv s1"
    using serve_ok [OF Cons.prems(1) assms(2) _ adm] o by auto
  obtain N where N: "outst s1 = ?rest + (M + N)" "size N \<le> 2"
    using serve_outst [OF s1(1) o] by (auto simp: ac_simps)
  from Cons.IH [OF s1(2) N(1)] Cons.prems(3) obtain s' N' where
    "server_round malloc batch s1 = Some s'" "srv_inv s'" "outst s' = M + N + N'" "size N' \<le> 2 * length batch"
    by auto
  then show ?case using s1(1) c N(2)
    by (intro exI [of _ s'] exI [of _ "N + N'"]) (simp add: ac_simps)
qed

lemma batch_round_ok:
  assumes "srv_inv s" and "malloc_fresh malloc" and "batch_ok batch s"
  shows "\<exists>s'. server_round malloc batch s = Some s' \<and> srv_inv s' \<and> queued batch s s' \<le> 2 * length batch"
proof -
  obtain M where "outst s = mset (map asked batch) + M"
    using assms(3) by (metis batch_ok_def mset_subset_eq_exists_conv)
  moreover have "\<forall>(oper, data, res, bytes) \<in> set batch. admissible oper res bytes"
    using assms(3) by (simp add: batch_ok_def)
  ultimately show ?thesis using server_round_ok [OF assms(1,2)] by (fastforce simp: queued_def)
qed

lemma server_start_inv: "malloc_fresh malloc \<Longrightarrow> server_start malloc sockfd = Some s0 \<Longrightarrow> srv_inv s0"
  by (rule served_inv) auto

lemma server_start_some: "malloc_fresh malloc \<Longrightarrow> \<exists>s0. server_start malloc sockfd = Some s0"
  using malloc_fresh_def [of malloc]
  by (auto simp: server_start_def set_accept_event_def dest: spec [of _ Map.empty] split: option.splits)

lemma server_rounds_ok:
  assumes "srv_inv s" and "malloc_fresh malloc" and "batches_ok malloc batches s"
  shows "\<exists>s'. server_rounds malloc batches s = Some s' \<and> srv_inv s'"
  using assms(1,3)
proof (induction batches arbitrary: s)
  case Nil
  then show ?case by simp
next
  case (Cons batch batches)
  then obtain s1 where "server_round malloc batch s = Some s1" "srv_inv s1"
    using batch_round_ok [OF Cons.prems(1) assms(2)] by auto
  with Cons show ?case by simp
qed

text \<open>A loop that retries returns with the first call that does not fail.\<close>

lemma retry_ends:
  assumes "\<forall>i < n. fst (f (((\<lambda>s. snd (f s)) ^^ i) s)) = -1" and "fst (f (((\<lambda>s. snd (f s)) ^^ n) s)) \<noteq> -1"
  shows "retry f s = Some (f (((\<lambda>s. snd (f s)) ^^ n) s))"
  using assms
proof (induction n arbitrary: s)
  case 0
  then show ?case by (subst retry.simps) simp
next
  case (Suc n)
  have "fst (f s) = -1" using Suc.prems(1) by (metis funpow_0 zero_less_Suc)
  moreover have "\<forall>i < n. fst (f (((\<lambda>s. snd (f s)) ^^ i) (snd (f s)))) = -1"
    using Suc.prems(1) by (metis Suc_less_eq comp_apply funpow_Suc_right)
  moreover have "((\<lambda>s. snd (f s)) ^^ Suc n) s = ((\<lambda>s. snd (f s)) ^^ n) (snd (f s))"
    by (simp only: funpow_Suc_right comp_apply)
  ultimately show ?case using Suc.IH [of "snd (f s)"] Suc.prems(2) by (subst retry.simps) simp
qed

lemma scan_word_first:
  assumes "w \<noteq> []" and "\<forall>b \<in> set w. \<not> is_space b" and "is_space c"
  shows "scan_word (w @ c # left) = Some (w, c # left)"
  using assms by (cases w) (auto simp: scan_word_def takeWhile_append dropWhile_append takeWhile_eq_all_conv [THEN iffD2])

lemma scan_word_blank:
  assumes "is_space c"
  shows "scan_word (c # left) = scan_word left"
  using assms by (simp add: scan_word_def)

text \<open>A word with its terminator stored at the start of an array is the C string found there.\<close>

lemma st_bytes_cstr:
  assumes "0 \<notin> set w" and "length w < length buf"
  shows "\<exists>buf'. st_bytes buf 0 (w @ [0]) = Some buf' \<and> cstr buf' = Some w \<and> length buf' = length buf"
  using assms by (auto simp: st_bytes_def cstr_append_nul)

section \<open>Properties\<close>

text \<open>Further: when the set-up of the echo servers succeeds, the socket has keepalive switched on
  with the intended times (60 s idle, 10 s interval, 3 probes), is bound to any address at port
  8888 in network byte order and listens with a backlog of 10; when one of the checked calls
  fails the program ends with -1.\<close>

theorem echo_setup_listens:
  assumes "sockets api opts bound backlog" and "echo_setup api s = (result, s')"
  shows "result = Ended (-1) \<or> (\<exists>fd. result = Listening fd \<and>
    {SO_KEEPALIVE 1, TCP_KEEPIDLE 60, TCP_KEEPINTVL 10, TCP_KEEPCNT 3} \<subseteq> opts s' fd \<and>
    bound s' fd = Some (0, bswap16 SERV_PORT) \<and> backlog s' fd = Some LISTENQ)"
proof (cases result)
  case (Ended st)
  then show ?thesis using assms(2)
    by (auto simp: echo_setup_def bind_listen_def split: prod.splits if_splits)
next
  case (Listening fd)
  then show ?thesis using sockets.echo_setup_ok [OF assms(1), of s fd s'] assms(2) by simp
qed

text \<open>An instance: sockets as records of what was set, with calls that can be refused.\<close>

record netstack =
  n_opts :: "int \<Rightarrow> sockopt set"
  n_bound :: "int \<Rightarrow> (u32 \<times> u16) option"
  n_backlog :: "int \<Rightarrow> nat option"
  n_port_taken :: bool

definition net_api :: "netstack sock_api" where
  "net_api = \<lparr>
     sock_socket = (\<lambda>s. (3, s)),
     setsockopt = (\<lambda>fd opt s. (0, s\<lparr>n_opts := (n_opts s)(fd := insert opt (n_opts s fd))\<rparr>)),
     sock_bind = (\<lambda>fd a p s. if n_port_taken s then (-1, s) else (0, s\<lparr>n_bound := (n_bound s)(fd \<mapsto> (a, p))\<rparr>)),
     sock_listen = (\<lambda>fd n s. (0, s\<lparr>n_backlog := (n_backlog s)(fd \<mapsto> n)\<rparr>)),
     sock_close = (\<lambda>fd s. s\<lparr>n_bound := (n_bound s)(fd := None)\<rparr>)\<rparr>"

lemma net_sockets: "sockets net_api n_opts n_bound n_backlog"
  by unfold_locales (auto simp: net_api_def split: if_splits)

interpretation net: sockets net_api n_opts n_bound n_backlog
  by (rule net_sockets)

definition net_idle :: netstack where
  "net_idle = \<lparr>n_opts = (\<lambda>_. {}), n_bound = Map.empty, n_backlog = Map.empty, n_port_taken = False\<rparr>"

lemma net_idle_listens: "fst (echo_setup net_api net_idle) = Listening 3"
  by (simp add: echo_setup_def set_options_def enable_keepalive_def bind_listen_def net_api_def net_idle_def Let_def)

theorem echo_setup_listens_witness:
  "TCP_KEEPIDLE 60 \<in> n_opts (snd (echo_setup net_api net_idle)) 3 \<and>
   n_bound (snd (echo_setup net_api net_idle)) 3 = Some (0, 0xb822)"
proof -
  have "bswap16 SERV_PORT = 0xb822" by code_simp
  moreover obtain s' where "echo_setup net_api net_idle = (Listening 3, s')"
    using net_idle_listens by (cases "echo_setup net_api net_idle") auto
  ultimately show ?thesis using echo_setup_listens [OF net_sockets, of net_idle "Listening 3" s'] by auto
qed

text \<open>Claim C25: the loop of socket_uring_server.c. Whatever batches of up to ten completions the
  kernel delivers, \<open>main\<close> handles every one without undefined behaviour, and each round takes at
  most two submission queue entries per completion, so at most 20 of the 1024 there are:
  \<open>io_uring_get_sqe\<close>, whose result the program does not test, never returns NULL.\<close>

theorem server_rounds_bounded:
  assumes "malloc_fresh malloc" and "server_start malloc sockfd = Some s0"
    and "batches_ok malloc (batches @ [batch]) s0"
  shows "\<exists>s s'. server_rounds malloc batches s0 = Some s \<and> server_round malloc batch s = Some s' \<and>
    queued batch s s' \<le> 20 \<and> 20 + 2 \<le> RING_LEN"
proof -
  have inv: "srv_inv s0" using server_start_inv assms(1,2) .
  have ok: "batches_ok malloc batches s \<and> (\<forall>t. server_rounds malloc batches s = Some t \<longrightarrow> batch_ok batch t)"
    if "batches_ok malloc (batches @ [batch]) s" for s
    using that by (induction batches arbitrary: s) (auto split: option.splits)
  obtain s where s: "server_rounds malloc batches s0 = Some s" "srv_inv s"
    using server_rounds_ok [OF inv assms(1)] ok [OF assms(3)] by auto
  then have b: "batch_ok batch s" using ok [OF assms(3)] by simp
  obtain s' where "server_round malloc batch s = Some s'" "queued batch s s' \<le> 2 * length batch"
    using batch_round_ok [OF s(2) assms(1) b] by auto
  then show ?thesis using s(1) b by (auto simp: batch_ok_def CQE_LEN_def RING_LEN_def)
qed

theorem server_rounds_bounded_witness:
  "\<exists>s0 s'. server_start first_free 3 = Some s0 \<and>
     server_round first_free [(Op_Nop, None, 0, []), (Op_Accept 3, Some 0, 5, [])] s0 = Some s'"
proof -
  let ?s0 = "\<lparr>heap = [0 \<mapsto> cleared\<lparr>connfd := 3, event := EVENT_ACCEPT\<rparr>],
    outst = {#(Op_Accept 3, Some 0), (Op_Nop, None)#}, closed = [], logged = []\<rparr>"
  have s0: "server_start first_free 3 = Some ?s0"
    by (simp add: server_start_def set_accept_event_def first_free_def)
  have "batches_ok first_free ([] @ [[(Op_Nop, None, 0, []), (Op_Accept 3, Some 0, 5, [])]]) ?s0"
    by (auto simp: batch_ok_def CQE_LEN_def admissible_def add_mset_commute split: option.splits)
  from server_rounds_bounded [OF first_free_fresh s0 this] s0 show ?thesis by auto
qed

lemma send_rounds_last:
  assumes "scan_word input = None" and "cstr buf = Some w"
  shows "send_rounds n input buf = Some (replicate n w)"
proof -
  have "send_round input buf = Some ([], buf, w)" "send_round [] buf = Some ([], buf, w)"
    using assms by (simp_all add: send_round_def scan_word_def)
  moreover have "send_rounds n [] buf = Some (replicate n w)" for n
    using calculation(2) by (induction n) simp_all
  ultimately show ?thesis by (cases n) simp_all
qed

lemma send_rounds_blank: "is_space c \<Longrightarrow> send_rounds n (c # input) buf = send_rounds n input buf"
  by (cases n) (simp_all add: send_round_def scan_word_blank)

lemma client_words:
  assumes "\<forall>w \<in> set ws. w \<noteq> [] \<and> (\<forall>b \<in> set w. \<not> is_space b) \<and> 0 \<notin> set w \<and> length w < BUF2"
    and "length buf = BUF2" and "ws = [] \<longrightarrow> cstr buf = Some w0"
  shows "send_rounds (length ws + n) (concat (map (\<lambda>w. w @ [10]) ws)) buf =
    Some (ws @ replicate n (last (w0 # ws)))"
  using assms
proof (induction ws arbitrary: buf w0)
  case Nil
  then show ?case using send_rounds_last [of "[]" buf w0 n] by (simp add: scan_word_def)
next
  case (Cons w ws)
  let ?left = "concat (map (\<lambda>w. w @ [10]) ws)"
  have sp: "is_space 10" by (simp add: is_space_def)
  obtain buf' where b: "st_bytes buf 0 (w @ [0]) = Some buf'" "cstr buf' = Some w" "length buf' = BUF2"
    using st_bytes_cstr [of w buf] Cons.prems by auto
  have "scan_word (w @ 10 # ?left) = Some (w, 10 # ?left)"
    using Cons.prems(1) sp by (intro scan_word_first) auto
  then have "send_round (w @ 10 # ?left) buf = Some (10 # ?left, buf', w)"
    using b by (simp add: send_round_def)
  moreover have "send_rounds (length ws + n) ?left buf' = Some (ws @ replicate n (last (w # ws)))"
    by (rule Cons.IH) (use Cons.prems(1) b in auto)
  ultimately show ?case by (simp add: send_rounds_blank [OF sp])
qed

text \<open>Further: the client against the set-up of the server. Once \<open>connect\<close> has failed \<open>n\<close> times and then
  succeeds, the client has its connection after exactly \<open>n + 1\<close> calls, and the port it asked for is
  the one a listening echo server is bound to.\<close>

theorem client_connects:
  fixes conn :: "int \<Rightarrow> u32 \<Rightarrow> u16 \<Rightarrow> 's \<Rightarrow> int \<times> 's"
  defines "attempt \<equiv> \<lambda>fd. conn fd LOCALHOST (bswap16 CLIENT_PORT)"
  assumes "sockets api opts bound backlog" and "echo_setup api t = (Listening lfd, t')"
    and "sock_socket api s = (fd, s1)" and "fd \<noteq> -1"
    and "\<forall>i < n. fst (attempt fd (((\<lambda>s. snd (attempt fd s)) ^^ i) s1)) = -1"
    and "fst (attempt fd (((\<lambda>s. snd (attempt fd s)) ^^ n) s1)) \<noteq> -1"
  shows "client_connect api conn s = Some (fd, ((\<lambda>s. snd (attempt fd s)) ^^ Suc n) s1) \<and>
    bound t' lfd = Some (0, bswap16 CLIENT_PORT)"
proof -
  have "retry (sock_socket api) s = Some (fd, s1)"
    using retry_ends [of 0 "sock_socket api" s] assms(4,5) by simp
  then show ?thesis
    using retry_ends [of n "attempt fd" s1] assms(6,7) sockets.echo_setup_ok [OF assms(2,3)]
    by (simp add: client_connect_def attempt_def SERV_PORT_def CLIENT_PORT_def split_beta)
qed

text \<open>Further: the client sends exactly the words of its input, one message each and in order, as
  long as each is shorter than 4096 bytes; when the input has ended it goes on sending the last
  word for ever.\<close>

theorem client_sends_words:
  assumes "ws \<noteq> []"
    and "\<forall>w \<in> set ws. w \<noteq> [] \<and> (\<forall>b \<in> set w. \<not> is_space b) \<and> 0 \<notin> set w \<and> length w < BUF2"
    and "length buf = BUF2"
  shows "send_rounds (length ws + n) (concat (map (\<lambda>w. w @ [10]) ws)) buf = Some (ws @ replicate n (last ws))"
  using client_words [OF assms(2,3), of undefined n] assms(1) by simp

theorem client_sends_words_witness:
  "send_rounds 4 (bytes_of ''hi'' @ [10] @ bytes_of ''ho'' @ [10]) (replicate BUF2 255) =
     Some [bytes_of ''hi'', bytes_of ''ho'', bytes_of ''ho'', bytes_of ''ho'']"
proof -
  let ?ws = "[bytes_of ''hi'', bytes_of ''ho'']"
  have "\<forall>w \<in> set ?ws. w \<noteq> [] \<and> (\<forall>b \<in> set w. \<not> is_space b) \<and> 0 \<notin> set w \<and> length w < BUF2"
    by (simp add: bytes_of_def is_space_def BUF2_def)
  moreover have "length ?ws + 2 = 4" "replicate 2 (last ?ws) = [bytes_of ''ho'', bytes_of ''ho'']"
    "concat (map (\<lambda>w. w @ [10]) ?ws) = bytes_of ''hi'' @ [10] @ bytes_of ''ho'' @ [10]"
    by (simp_all add: numeral_2_eq_2)
  ultimately show ?thesis
    using client_sends_words [of ?ws "replicate BUF2 255" 2] by (simp only: length_replicate append_Cons append_Nil) simp
qed

text \<open>Further: a word of a client comes back to it. When the server has a receive outstanding that
  is large enough, the message is echoed on the same descriptor, and the receiving thread of the
  client, given the echo in one piece, prints exactly the word.\<close>

theorem echo_reaches_client:
  assumes "malloc_fresh malloc" and "server_start malloc sockfd = Some s0" and "(served malloc)\<^sup>*\<^sup>* s0 s"
    and "(Op_Recv fd n, Some p) \<in># outst s" and "w \<noteq> []" and "length w \<le> n" and "0 \<notin> set w"
    and "length w < BUF2" and "length buf2 = BUF2"
  shows "\<exists>s' echo buf2'. serve malloc (Op_Recv fd n) (Some p) (int (length w)) w s = Some s' \<and>
    (Op_Send fd echo, Some p) \<in># outst s' \<and> recv_round buf2 echo = Some (buf2', Some (w, length w))"
proof -
  obtain s' where "serve malloc (Op_Recv fd n) (Some p) (int (length w)) w s = Some s'"
    "(Op_Send fd w, Some p) \<in># outst s'"
    using serve_echo [OF assms(1-6)] by auto
  moreover have "\<exists>buf2'. recv_round buf2 w = Some (buf2', Some (w, length w))"
    using assms(5,7-9) by (auto simp: recv_round_def st_bytes_def cstr_append_nul)
  ultimately show ?thesis by blast
qed

theorem echo_reaches_client_witness:
  "\<exists>s s' echo buf2'. serve first_free (Op_Recv 5 MAXLINE) (Some 1) (int (length (bytes_of ''hi''))) (bytes_of ''hi'') s = Some s' \<and>
     (Op_Send 5 echo, Some 1) \<in># outst s' \<and>
     recv_round (replicate BUF2 7) echo = Some (buf2', Some (bytes_of ''hi'', length (bytes_of ''hi'')))"
proof -
  obtain s0 s1 where s: "server_start first_free 3 = Some s0" "(served first_free)\<^sup>*\<^sup>* s0 s1"
    "(Op_Recv 5 MAXLINE, Some 1) \<in># outst s1" using first_client by blast
  have "bytes_of ''hi'' \<noteq> []" "length (bytes_of ''hi'') \<le> MAXLINE" "0 \<notin> set (bytes_of ''hi'')"
    "length (bytes_of ''hi'') < BUF2" by (simp_all add: bytes_of_def MAXLINE_def BUF2_def)
  from echo_reaches_client [OF first_free_fresh s this, of "replicate BUF2 7"] show ?thesis
    by (simp only: length_replicate) blast
qed

text \<open>Further: the client's arrays are overrun by one byte more than they hold: a receive that
  fills the buffer puts its terminator past the end, and a word of 4096 bytes or more does not
  fit the input buffer; shorter ones are safe.\<close>

theorem client_overruns:
  assumes "length buf = BUF2" and "0 \<notin> set w" and "w \<noteq> []" and "\<forall>b \<in> set w. \<not> is_space b"
  shows "(length w \<le> BUF2 \<longrightarrow> (recv_round buf w = None \<longleftrightarrow> length w = BUF2)) \<and>
    (send_round (w @ [10]) buf = None \<longleftrightarrow> BUF2 \<le> length w)"
proof
  show "length w \<le> BUF2 \<longrightarrow> (recv_round buf w = None \<longleftrightarrow> length w = BUF2)"
    using assms by (auto simp: recv_round_def st_bytes_def cstr_append_nul)
  have "scan_word (w @ [10]) = Some (w, [10])"
    using assms scan_word_first [of w 10 "[]"] by (simp add: is_space_def)
  then show "send_round (w @ [10]) buf = None \<longleftrightarrow> BUF2 \<le> length w"
    using assms st_bytes_cstr [of w buf] by (fastforce simp: send_round_def st_bytes_def)
qed

theorem client_overruns_witness:
  "recv_round (replicate BUF2 0) (replicate BUF2 65) = None"
  using client_overruns [of "replicate BUF2 0" "replicate BUF2 65"] by (auto simp: BUF2_def is_space_def)

end
