(* ===== verification/Traces.thy ===== *)
theory Traces
  imports Prelude
begin

text \<open>
  Runs of a component as sequences of labelled steps, and what a simulation by an abstract
  machine gives for whole runs. A step may fail (\<open>None\<close>), which stands for undefined behaviour, so
  that a simulation also shows that no run fails. The clients are the echo server against an echo
  service, the loops of the servers with one buffer, the network device and the device files.
\<close>

section \<open>Runs\<close>

fun run_steps :: "('l \<Rightarrow> 's \<Rightarrow> 's option) \<Rightarrow> 'l list \<Rightarrow> 's \<Rightarrow> 's option" where
  "run_steps step [] s = Some s"
| "run_steps step (l # ls) s = Option.bind (step l s) (run_steps step ls)"

text \<open>Every label is admitted in the state in which it comes.\<close>

fun run_ok :: "('l \<Rightarrow> 's \<Rightarrow> 's option) \<Rightarrow> ('l \<Rightarrow> 's \<Rightarrow> bool) \<Rightarrow> 'l list \<Rightarrow> 's \<Rightarrow> bool" where
  "run_ok step ok [] s \<longleftrightarrow> True"
| "run_ok step ok (l # ls) s \<longleftrightarrow> ok l s \<and> (case step l s of None \<Rightarrow> True | Some s' \<Rightarrow> run_ok step ok ls s')"

inductive arun :: "('a \<Rightarrow> 'e \<Rightarrow> 'a \<Rightarrow> bool) \<Rightarrow> 'a \<Rightarrow> 'e list \<Rightarrow> 'a \<Rightarrow> bool"
  for astep where
  stop: "arun astep A [] A"
| step: "astep A e B \<Longrightarrow> arun astep B es C \<Longrightarrow> arun astep A (e # es) C"

inductive_simps arun_Nil: "arun astep A [] B"
inductive_simps arun_Cons: "arun astep A (e # es) C"

lemma run_steps_append: "run_steps step (ls @ ms) s = Option.bind (run_steps step ls s) (run_steps step ms)"
  by (induction ls arbitrary: s) (auto split: bind_splits)

section \<open>Simulation\<close>

locale trace_simulation =
  fixes step :: "'l \<Rightarrow> 's \<Rightarrow> 's option" and ok :: "'l \<Rightarrow> 's \<Rightarrow> bool"
    and rel :: "'s \<Rightarrow> 'a \<Rightarrow> bool" and vis :: "'l \<Rightarrow> 'e" and astep :: "'a \<Rightarrow> 'e \<Rightarrow> 'a \<Rightarrow> bool"
  assumes sim: "rel s A \<Longrightarrow> ok l s \<Longrightarrow> \<exists>s' A'. step l s = Some s' \<and> astep A (vis l) A' \<and> rel s' A'"
begin

lemma sim_run:
  "rel s A \<Longrightarrow> run_ok step ok ls s \<Longrightarrow>
    \<exists>s' A'. run_steps step ls s = Some s' \<and> arun astep A (map vis ls) A' \<and> rel s' A'"
proof (induction ls arbitrary: s A)
  case Nil
  then show ?case by (auto intro: arun.stop)
next
  case (Cons l ls)
  then obtain s1 A1 where s1: "step l s = Some s1" "astep A (vis l) A1" "rel s1 A1"
    using sim by fastforce
  moreover have "run_ok step ok ls s1" using Cons.prems(2) s1(1) by simp
  ultimately obtain s' A' where "run_steps step ls s1 = Some s'" "arun astep A1 (map vis ls) A'" "rel s' A'"
    using Cons.IH by blast
  then show ?case using s1 by (auto intro: arun.step)
qed

lemma run_total: "rel s A \<Longrightarrow> run_ok step ok ls s \<Longrightarrow> run_steps step ls s \<noteq> None"
  using sim_run by fastforce

end

text \<open>An invariant is a simulation by the machine with one state.\<close>

locale trace_invariant =
  fixes step :: "'l \<Rightarrow> 's \<Rightarrow> 's option" and ok :: "'l \<Rightarrow> 's \<Rightarrow> bool" and inv :: "'s \<Rightarrow> bool"
  assumes preserved: "inv s \<Longrightarrow> ok l s \<Longrightarrow> \<exists>s'. step l s = Some s' \<and> inv s'"

sublocale trace_invariant \<subseteq> one: trace_simulation step ok "\<lambda>s A. inv s" "\<lambda>l. l" "\<lambda>A l (B :: unit). True"
  by unfold_locales (use preserved in blast)

context trace_invariant
begin

lemma inv_run: "inv s \<Longrightarrow> run_ok step ok ls s \<Longrightarrow> \<exists>s'. run_steps step ls s = Some s' \<and> inv s'"
  using one.sim_run by blast

end

end
