(* ===== verification/Echo_Stream.thy ===== *)
theory Echo_Stream
  imports Socket_Main Traces
begin

text \<open>
  What src/io_uring/socket_uring_server.c does as a service: over any number of connections and
  any order of completions it simulates a machine that, for every connection, in turn hears a
  message and says it. From the simulation follows what comes back on each connection, and what
  the client of src/io_uring/socket_uring_client.c prints.
\<close>

section \<open>The echo service\<close>

text \<open>A connection waits for a message or has one to say. The events are those a client sees; \<open>Say fd
  bs n\<close> transmits \<open>n\<close> bytes of \<open>bs\<close>, \<open>Drop fd bs\<close> none.\<close>

datatype phase = Reading | Writing "byte list"

datatype echo_event =
    Quiet
  | Connect int
  | Hear int "byte list"
  | Say int "byte list" nat
  | Drop int "byte list"
  | Hang_up int

inductive echo_step :: "(int \<rightharpoonup> phase) \<Rightarrow> echo_event \<Rightarrow> (int \<rightharpoonup> phase) \<Rightarrow> bool" where
  quiet: "echo_step A Quiet A"
| connect: "A fd = None \<Longrightarrow> echo_step A (Connect fd) (A(fd \<mapsto> Reading))"
| hear: "A fd = Some Reading \<Longrightarrow> bs \<noteq> [] \<Longrightarrow> echo_step A (Hear fd bs) (A(fd \<mapsto> Writing bs))"
| say: "A fd = Some (Writing bs) \<Longrightarrow> 0 < n \<Longrightarrow> n \<le> length bs \<Longrightarrow> echo_step A (Say fd bs n) (A(fd \<mapsto> Reading))"
| drop: "A fd = Some (Writing bs) \<Longrightarrow> bs \<noteq> [] \<Longrightarrow> echo_step A (Drop fd bs) (A(fd := None))"
| hang_up: "A fd = Some Reading \<Longrightarrow> echo_step A (Hang_up fd) (A(fd := None))"

inductive_cases echo_stepE: "echo_step A e B"

text \<open>The messages heard on a connection, and the answers given with the bytes transmitted of each.\<close>

fun heard :: "int \<Rightarrow> echo_event \<Rightarrow> byte list list" where
  "heard fd (Hear fd' bs) = (if fd' = fd then [bs] else [])"
| "heard fd _ = []"

fun answered :: "int \<Rightarrow> echo_event \<Rightarrow> (byte list \<times> nat) list" where
  "answered fd (Say fd' bs n) = (if fd' = fd then [(bs, n)] else [])"
| "answered fd (Drop fd' bs) = (if fd' = fd then [(bs, 0)] else [])"
| "answered fd _ = []"

definition pending :: "phase option \<Rightarrow> byte list list" where
  "pending ph = (case ph of Some (Writing bs) \<Rightarrow> [bs] | _ \<Rightarrow> [])"

text \<open>The messages heard are the ones answered, in order, and then the one that waits.\<close>

lemma echo_step_order:
  assumes "echo_step A e B"
  shows "pending (A fd) @ heard fd e = map fst (answered fd e) @ pending (B fd)"
  using assms by cases (auto simp: pending_def)

lemma echo_run_order:
  "arun echo_step A es B \<Longrightarrow>
    pending (A fd) @ concat (map (heard fd) es) = map fst (concat (map (answered fd) es)) @ pending (B fd)"
proof (induction rule: arun.induct)
  case (step A e B es C)
  have "pending (A fd) @ heard fd e @ concat (map (heard fd) es)
      = map fst (answered fd e) @ pending (B fd) @ concat (map (heard fd) es)"
    using echo_step_order [OF step.hyps(1), of fd] by (metis append.assoc)
  with step.IH show ?case by simp
qed simp

section \<open>The server as an implementation of it\<close>

fun event_seen :: "completion \<Rightarrow> echo_event" where
  "event_seen (Op_Nop, data, res, bytes) = Quiet"
| "event_seen (Op_Accept sfd, data, res, bytes) = (if res < 0 then Quiet else Connect res)"
| "event_seen (Op_Recv fd n, data, res, bytes) = (if res \<le> 0 then Hang_up fd else Hear fd bytes)"
| "event_seen (Op_Send fd bs, data, res, bytes) = (if res \<le> 0 then Drop fd bs else Say fd bs (nat res))"

text \<open>The connection a request is about, and what is asked of the kernel on one connection.\<close>

fun conn_of :: "op \<Rightarrow> int option" where
  "conn_of (Op_Recv fd n) = Some fd"
| "conn_of (Op_Send fd bs) = Some fd"
| "conn_of _ = None"

definition asks :: "int \<Rightarrow> (op \<times> nat option) multiset \<Rightarrow> op multiset" where
  "asks fd M = filter_mset (\<lambda>oper. conn_of oper = Some fd) (image_mset fst M)"

lemma asks_simps [simp]:
  "asks fd {#} = {#}"
  "asks fd (add_mset (oper, d) M) = (if conn_of oper = Some fd then add_mset oper (asks fd M) else asks fd M)"
  by (simp_all add: asks_def)

text \<open>A completion the kernel may deliver: of an outstanding request, with an admissible result; and
  the descriptor of a new connection is not that of an open one.\<close>

definition deliverable :: "completion \<Rightarrow> srv \<Rightarrow> bool" where
  "deliverable c s \<longleftrightarrow> (case c of (oper, data, res, bytes) \<Rightarrow>
     (oper, data) \<in># outst s \<and> admissible oper res bytes \<and>
     (is_accept oper \<and> 0 \<le> res \<longrightarrow> asks res (outst s) = {#}))"

definition serve_step :: "((nat \<Rightarrow> ConnInfo option) \<Rightarrow> nat option) \<Rightarrow> completion \<Rightarrow> srv \<Rightarrow> srv option" where
  "serve_step malloc c s = (case c of (oper, data, res, bytes) \<Rightarrow> serve malloc oper data res bytes s)"

lemma server_round_steps: "server_round malloc cs s = run_steps (serve_step malloc) cs s"
  by (induction malloc cs s rule: server_round.induct) (auto simp: serve_step_def split: option.splits)

text \<open>Server and service agree when a connection that reads has one receive outstanding, one that
  writes the send of its message, and any other descriptor nothing.\<close>

fun phase_asks :: "int \<Rightarrow> phase option \<Rightarrow> op multiset \<Rightarrow> bool" where
  "phase_asks fd None R \<longleftrightarrow> R = {#}"
| "phase_asks fd (Some Reading) R \<longleftrightarrow> (\<exists>n. R = {#Op_Recv fd n#})"
| "phase_asks fd (Some (Writing bs)) R \<longleftrightarrow> R = {#Op_Send fd bs#} \<and> bs \<noteq> []"

definition echo_rel :: "srv \<Rightarrow> (int \<rightharpoonup> phase) \<Rightarrow> bool" where
  "echo_rel s A \<longleftrightarrow> srv_inv s \<and> (\<forall>fd. phase_asks fd (A fd) (asks fd (outst s)))"

text \<open>The requests a completion leads to.\<close>

inductive leads_to :: "completion \<Rightarrow> (op \<times> nat option) multiset \<Rightarrow> bool" where
  "leads_to (Op_Nop, data, res, bytes) {#}"
| "res < 0 \<Longrightarrow> leads_to (Op_Accept sfd, data, res, bytes) {#}"
| "\<not> res < 0 \<Longrightarrow> leads_to (Op_Accept sfd, data, res, bytes) {#(Op_Recv res n, p), (Op_Accept sfd, q)#}"
| "res \<le> 0 \<Longrightarrow> leads_to (Op_Recv fd n, data, res, bytes) {#}"
| "\<not> res \<le> 0 \<Longrightarrow> leads_to (Op_Recv fd n, data, res, bytes) {#(Op_Send fd bytes, p)#}"
| "res \<le> 0 \<Longrightarrow> leads_to (Op_Send fd bs, data, res, bytes) {#}"
| "\<not> res \<le> 0 \<Longrightarrow> leads_to (Op_Send fd bs, data, res, bytes) {#(Op_Recv fd n, p)#}"

lemma serve_leads_to:
  assumes "srv_inv s" and "outst s = add_mset (oper, data) M" and "admissible oper res bytes"
    and "serve malloc oper data res bytes s = Some s'"
  shows "\<exists>N. outst s' = M + N \<and> leads_to (oper, data, res, bytes) N"
proof (cases data)
  case None
  then have "oper = Op_Nop" using assms(1,2) by (auto simp: srv_inv_def)
  then show ?thesis using assms(2,4) None by (auto simp: serve_def server_cqe_def intro: leads_to.intros)
next
  case (Some p)
  let ?t = "s\<lparr>outst := outst s - {#(oper, Some p)#}\<rparr>"
  have mem: "(oper, Some p) \<in># outst s" using assms(2) Some by simp
  then have "\<exists>ci. heap s p = Some ci \<and> waits_for oper ci" using assms(1) unfolding srv_inv_def by blast
  then obtain ci where ci: "heap ?t p = Some ci" "waits_for oper ci" by auto
  from store_detached [OF detach [OF assms(1) mem] ci assms(3)] obtain ci' where c:
    "heap (store oper (Some p) bytes ?t) p = Some ci'" "waits_for oper ci'"
    "(\<exists>fd n. oper = Op_Recv fd n) \<longrightarrow> take (length bytes) (buffer ci') = bytes" by metis
  have cqe: "server_cqe malloc (Some p) res (store oper (Some p) bytes ?t) = Some s'"
    using assms(4) Some by (simp add: serve_def)
  have o: "outst (store oper (Some p) bytes ?t) = M" using assms(2) Some by simp
  show ?thesis
  proof (cases oper)
    case Op_Nop
    then show ?thesis using c(2) by simp
  next
    case (Op_Accept fd)
    then show ?thesis using cqe c o
      by (auto simp: server_cqe_def set_recv_event_def set_accept_event_def free_info_def
          split: if_splits option.splits intro: leads_to.intros)
  next
    case (Op_Recv fd n)
    then show ?thesis using cqe c o assms(3)
      by (cases "res \<le> 0")
         (auto simp: server_cqe_def set_send_event_def admissible_def split: if_splits intro: leads_to.intros)
  next
    case (Op_Send fd bs)
    then show ?thesis using cqe c o
      by (auto simp: server_cqe_def set_recv_event_def split: if_splits intro: leads_to.intros)
  qed
qed

inductive_cases leads_toE: "leads_to c N"

lemma asks_union [simp]: "asks fd (M + N) = asks fd M + asks fd N"
  by (simp add: asks_def)

lemma asks_conn: "oper \<in># asks fd M \<Longrightarrow> conn_of oper = Some fd"
  by (simp add: asks_def)

text \<open>One completion is one step of the service.\<close>

lemma leads_to_step:
  assumes "\<forall>fd. phase_asks fd (A fd) (asks fd (add_mset (oper, data) M))"
    and "admissible oper res bytes" and "is_accept oper \<and> 0 \<le> res \<longrightarrow> asks res M = {#}"
    and "leads_to (oper, data, res, bytes) N"
  shows "\<exists>B. echo_step A (event_seen (oper, data, res, bytes)) B \<and> (\<forall>fd. phase_asks fd (B fd) (asks fd (M + N)))"
proof (cases oper)
  case Op_Nop
  then show ?thesis using assms by (auto elim!: leads_toE intro: echo_step.quiet)
next
  case (Op_Accept sfd)
  show ?thesis
  proof (cases "res < 0")
    case True
    then show ?thesis using assms Op_Accept by (auto elim!: leads_toE intro: echo_step.quiet)
  next
    case False
    then have "asks res M = {#}" using assms(3) Op_Accept by simp
    moreover have "phase_asks res (A res) (asks res M)" using assms(1) Op_Accept by simp
    ultimately have free: "A res = None" by (cases "A res" rule: option.exhaust) (auto elim: phase_asks.elims)
    show ?thesis
      by (rule exI [of _ "A(res \<mapsto> Reading)"])
         (use assms False Op_Accept free \<open>asks res M = {#}\<close> in \<open>auto elim!: leads_toE intro: echo_step.connect\<close>)
  qed
next
  case (Op_Recv fd n)
  have here: "phase_asks fd (A fd) (add_mset (Op_Recv fd n) (asks fd M))" using spec [OF assms(1), of fd] Op_Recv by simp
  then have ph: "A fd = Some Reading" "asks fd M = {#}" by (auto elim!: phase_asks.elims)
  have others: "phase_asks f (A f) (asks f M)" if "f \<noteq> fd" for f
    using spec [OF assms(1), of f] that Op_Recv by simp
  show ?thesis
  proof (cases "res \<le> 0")
    case True
    show ?thesis
      by (rule exI [of _ "A(fd := None)"])
         (use assms(2-4) True Op_Recv ph others in \<open>auto elim!: leads_toE intro: echo_step.hang_up\<close>)
  next
    case False
    then have "bytes \<noteq> []" using assms(2) Op_Recv by (auto simp: admissible_def)
    show ?thesis
      by (rule exI [of _ "A(fd \<mapsto> Writing bytes)"])
         (use assms(2-4) False Op_Recv ph others \<open>bytes \<noteq> []\<close> in \<open>auto elim!: leads_toE intro: echo_step.hear\<close>)
  qed
next
  case (Op_Send fd bs)
  have here: "phase_asks fd (A fd) (add_mset (Op_Send fd bs) (asks fd M))" using spec [OF assms(1), of fd] Op_Send by simp
  then have ph: "A fd = Some (Writing bs)" "asks fd M = {#}" "bs \<noteq> []" by (auto elim!: phase_asks.elims)
  have others: "phase_asks f (A f) (asks f M)" if "f \<noteq> fd" for f
    using spec [OF assms(1), of f] that Op_Send by simp
  show ?thesis
  proof (cases "res \<le> 0")
    case True
    show ?thesis
      by (rule exI [of _ "A(fd := None)"])
         (use assms(2-4) True Op_Send ph others in \<open>auto elim!: leads_toE intro: echo_step.drop\<close>)
  next
    case False
    then have "0 < nat res" "nat res \<le> length bs" using assms(2) Op_Send by (auto simp: admissible_def)
    then show ?thesis
      by (intro exI [of _ "A(fd \<mapsto> Reading)"])
         (use assms(2-4) False Op_Send ph others in \<open>auto elim!: leads_toE intro: echo_step.say\<close>)
  qed
qed

locale echo_server =
  fixes malloc :: "(nat \<Rightarrow> ConnInfo option) \<Rightarrow> nat option"
  assumes fresh: "malloc_fresh malloc"

sublocale echo_server \<subseteq> service: trace_simulation "serve_step malloc" deliverable echo_rel event_seen echo_step
proof unfold_locales
  fix s A c
  assume rel: "echo_rel s A" and ok: "deliverable c s"
  obtain oper data res bytes where c: "c = (oper, data, res, bytes)" by (cases c)
  have mem: "(oper, data) \<in># outst s" and adm: "admissible oper res bytes"
    and acc: "is_accept oper \<and> 0 \<le> res \<longrightarrow> asks res (outst s) = {#}" using ok c by (auto simp: deliverable_def)
  obtain M where M: "outst s = add_mset (oper, data) M" using mem by (metis insert_DiffM)
  obtain s' where s': "serve malloc oper data res bytes s = Some s'" "srv_inv s'"
    using serve_ok [OF _ fresh mem adm] rel by (auto simp: echo_rel_def)
  obtain N where N: "outst s' = M + N" "leads_to (oper, data, res, bytes) N"
    using serve_leads_to [OF _ M adm s'(1)] rel by (auto simp: echo_rel_def)
  have acc': "is_accept oper \<and> 0 \<le> res \<longrightarrow> asks res M = {#}" using acc M by (cases oper) auto
  have "\<forall>fd. phase_asks fd (A fd) (asks fd (add_mset (oper, data) M))"
    using rel unfolding echo_rel_def M by blast
  then obtain B where "echo_step A (event_seen c) B" "\<forall>fd. phase_asks fd (B fd) (asks fd (outst s'))"
    using leads_to_step [OF _ adm acc' N(2)] c unfolding N(1) by blast
  then show "\<exists>s' A'. serve_step malloc c s = Some s' \<and> echo_step A (event_seen c) A' \<and> echo_rel s' A'"
    using s' c by (auto simp: serve_step_def echo_rel_def)
qed

lemma start_rel:
  assumes "malloc_fresh malloc" and "server_start malloc sockfd = Some s0"
  shows "echo_rel s0 Map.empty"
  using server_start_inv [OF assms] assms(2)
  by (auto simp: echo_rel_def server_start_def set_accept_event_def split: option.splits)

interpretation echo: echo_server first_free
  by unfold_locales (rule first_free_fresh)

context echo_server
begin

lemma served_as_echo:
  assumes "server_start malloc sockfd = Some s0" and "run_ok (serve_step malloc) deliverable cs s0"
  shows "\<exists>s A. server_round malloc cs s0 = Some s \<and> arun echo_step Map.empty (map event_seen cs) A \<and> echo_rel s A"
  using service.sim_run [OF start_rel [OF fresh assms(1)] assms(2)] by (simp add: server_round_steps)

end

section \<open>Streams\<close>

text \<open>The bytes that came in on a descriptor and the bytes that went out on it.\<close>

fun came_in :: "int \<Rightarrow> completion \<Rightarrow> byte list" where
  "came_in fd (Op_Recv fd' n, data, res, bytes) = (if fd' = fd \<and> 0 < res then bytes else [])"
| "came_in fd _ = []"

fun went_out :: "int \<Rightarrow> completion \<Rightarrow> byte list" where
  "went_out fd (Op_Send fd' bs, data, res, bytes) = (if fd' = fd then take (nat res) bs else [])"
| "went_out fd _ = []"

fun sends_whole :: "int \<Rightarrow> completion \<Rightarrow> bool" where
  "sends_whole fd (Op_Send fd' bs, data, res, bytes) = (fd' = fd \<longrightarrow> res = int (length bs))"
| "sends_whole fd _ = True"

lemma came_in_heard: "came_in fd c = concat (heard fd (event_seen c))"
  by (cases "(fd, c)" rule: came_in.cases) (auto split: if_splits)

lemma went_out_answered: "went_out fd c = concat (map (\<lambda>(bs, n). take n bs) (answered fd (event_seen c)))"
  by (cases "(fd, c)" rule: went_out.cases) (auto split: if_splits)

lemma streams_heard: "concat (map (came_in fd) cs) = concat (concat (map (heard fd) (map event_seen cs)))"
  by (induction cs) (simp_all add: came_in_heard)

lemma streams_answered:
  "concat (map (went_out fd) cs) = concat (map (\<lambda>(bs, n). take n bs) (concat (map (answered fd) (map event_seen cs))))"
  by (induction cs) (simp_all add: went_out_answered)

lemma answered_fits:
  assumes "arun echo_step A es B" and "(bs, n) \<in> set (concat (map (answered fd) es))"
  shows "bs \<noteq> [] \<and> n \<le> length bs"
  using assms
proof (induction rule: arun.induct)
  case (step A e B es C)
  have "bs \<noteq> [] \<and> n \<le> length bs" if "(bs, n) \<in> set (answered fd e)"
    using step.hyps(1) that by cases (auto split: if_splits)
  then show ?case using step by auto
qed simp

lemma whole_answered:
  assumes "\<forall>(bs, n) \<in> set (concat (map (answered fd) (map event_seen cs))). bs \<noteq> [] \<and> n \<le> length bs"
  shows "(\<forall>c \<in> set cs. sends_whole fd c) \<longleftrightarrow>
    (\<forall>(bs, n) \<in> set (concat (map (answered fd) (map event_seen cs))). length bs \<le> n)"
    (is "?whole \<longleftrightarrow> ?full")
proof -
  have "sends_whole fd c \<longleftrightarrow> (\<forall>(bs, n) \<in> set (answered fd (event_seen c)). length bs \<le> n)" if "c \<in> set cs" for c
  proof -
    have "\<forall>(bs, n) \<in> set (answered fd (event_seen c)). bs \<noteq> [] \<and> n \<le> length bs" using assms that by auto
    then show ?thesis by (cases "(fd, c)" rule: went_out.cases) (auto split: if_splits)
  qed
  then show ?thesis by auto
qed

text \<open>Cutting messages shortens the stream, unless no message is cut.\<close>

lemma length_takes: "length (concat (map (\<lambda>(bs, n). take n bs) ps)) \<le> length (concat (map fst ps))"
  by (induction ps) auto

lemma takes_whole:
  "concat (map (\<lambda>(bs, n). take n bs) ps) = concat (map fst ps) \<longleftrightarrow> (\<forall>(bs, n) \<in> set ps. length bs \<le> n)"
proof (induction ps)
  case (Cons p ps)
  obtain bs n where p: "p = (bs, n)" by (cases p)
  show ?case
  proof (cases "length bs \<le> n")
    case True
    then show ?thesis using Cons.IH p by simp
  next
    case False
    then have "length (concat (map (\<lambda>(bs, n). take n bs) (p # ps))) < length (concat (map fst (p # ps)))"
      using length_takes [of ps] p by simp
    then show ?thesis using False p by (metis (mono_tags, lifting) case_prod_conv less_irrefl list.set_intros(1))
  qed
qed simp

text \<open>The streams of a connection that had only whole sends.\<close>

lemma echo_stream_whole:
  assumes "malloc_fresh malloc" and "server_start malloc sockfd = Some s0"
    and "run_ok (serve_step malloc) deliverable cs s0" and "\<forall>c \<in> set cs. sends_whole fd c"
  shows "\<exists>w. concat (map (came_in fd) cs) = concat (map (went_out fd) cs) @ w"
proof -
  obtain A where A: "arun echo_step Map.empty (map event_seen cs) A"
    using echo_server.served_as_echo [OF echo_server.intro assms(2,3)] assms(1) by blast
  let ?ps = "concat (map (answered fd) (map event_seen cs))"
  have "\<forall>(bs, n) \<in> set ?ps. bs \<noteq> [] \<and> n \<le> length bs" using answered_fits [OF A] by blast
  from whole_answered [OF this] have "concat (map (went_out fd) cs) = concat (map fst ?ps)"
    using assms(4) takes_whole [of ?ps] by (simp add: streams_answered)
  then show ?thesis using echo_run_order [OF A, of fd] by (auto simp: streams_heard pending_def)
qed

section \<open>Properties\<close>

text \<open>Claim C5: socket_uring_server.c refines the echo service. Whatever completions the kernel
  delivers, in any order over any number of connections, with short, failing and empty results, as
  long as a new connection does not get the descriptor of an open one, the server handles them all
  and its run is a run of the service. In particular a connection has exactly one request
  outstanding, a receive or the send of the message it heard last, and the messages heard on it are
  answered one for one and in order.\<close>

theorem server_refines_echo_service:
  assumes "malloc_fresh malloc" and "server_start malloc sockfd = Some s0"
    and "run_ok (serve_step malloc) deliverable cs s0"
  shows "\<exists>s A. server_round malloc cs s0 = Some s \<and> arun echo_step Map.empty (map event_seen cs) A \<and>
    (\<forall>fd. phase_asks fd (A fd) (asks fd (outst s)) \<and>
      concat (map (heard fd) (map event_seen cs)) =
        map fst (concat (map (answered fd) (map event_seen cs))) @ pending (A fd))"
proof -
  obtain s A where "server_round malloc cs s0 = Some s" "arun echo_step Map.empty (map event_seen cs) A" "echo_rel s A"
    using echo_server.served_as_echo [OF echo_server.intro assms(2,3)] assms(1) by blast
  with echo_run_order [of Map.empty "map event_seen cs" A] show ?thesis
    by (auto simp: echo_rel_def pending_def)
qed

definition hello_run :: "completion list" where
  "hello_run = [(Op_Accept 3, Some 0, 5, []), (Op_Recv 5 MAXLINE, Some 1, 2, [104, 105]),
     (Op_Send 5 [104, 105], Some 1, 2, [])]"

lemma hello_ok:
  "\<exists>s0. server_start first_free 3 = Some s0 \<and> run_ok (serve_step first_free) deliverable hello_run s0"
  by (simp add: server_start_def set_accept_event_def first_free_def hello_run_def deliverable_def
      admissible_def serve_step_def serve_def store_def server_cqe_def set_recv_event_def free_info_def
      set_send_event_def MAXLINE_def split: option.splits)

theorem server_refines_echo_service_witness:
  "\<exists>s0 s A. server_start first_free 3 = Some s0 \<and> server_round first_free hello_run s0 = Some s \<and>
     arun echo_step Map.empty [Connect 5, Hear 5 [104, 105], Say 5 [104, 105] 2] A"
proof -
  obtain s0 where s0: "server_start first_free 3 = Some s0" "run_ok (serve_step first_free) deliverable hello_run s0"
    using hello_ok by blast
  from server_refines_echo_service [OF first_free_fresh s0] s0(1) show ?thesis by (auto simp: hello_run_def)
qed

text \<open>Claim C23: the stream that goes out on a connection against the stream that came in. \<open>w\<close> is
  the message the server is sending on the descriptor, if there is one. What went out is never
  longer than what came in short of \<open>w\<close>, and it is exactly that, in order and without loss or
  repetition, if and only if every send on the descriptor transmitted its whole message: the server
  does not send the rest of a message that the kernel took only a part of.\<close>

theorem echo_streams:
  assumes "malloc_fresh malloc" and "server_start malloc sockfd = Some s0"
    and "run_ok (serve_step malloc) deliverable cs s0"
  shows "\<exists>s w. server_round malloc cs s0 = Some s \<and>
    (if w = [] then \<forall>bs. Op_Send fd bs \<notin># asks fd (outst s) else asks fd (outst s) = {#Op_Send fd w#}) \<and>
    length (concat (map (went_out fd) cs) @ w) \<le> length (concat (map (came_in fd) cs)) \<and>
    (concat (map (came_in fd) cs) = concat (map (went_out fd) cs) @ w \<longleftrightarrow> (\<forall>c \<in> set cs. sends_whole fd c))"
proof -
  obtain s A where s: "server_round malloc cs s0 = Some s" "arun echo_step Map.empty (map event_seen cs) A" "echo_rel s A"
    using echo_server.served_as_echo [OF echo_server.intro assms(2,3)] assms(1) by blast
  let ?ps = "concat (map (answered fd) (map event_seen cs))" and ?w = "concat (pending (A fd))"
  have "\<forall>(bs, n) \<in> set ?ps. bs \<noteq> [] \<and> n \<le> length bs" using answered_fits [OF s(2)] by blast
  note whole = whole_answered [OF this]
  have came: "concat (map (came_in fd) cs) = concat (map fst ?ps) @ ?w"
    using echo_run_order [OF s(2), of fd] by (simp add: streams_heard pending_def)
  have "phase_asks fd (A fd) (asks fd (outst s))" using s(3) by (simp add: echo_rel_def)
  then have "if ?w = [] then \<forall>bs. Op_Send fd bs \<notin># asks fd (outst s) else asks fd (outst s) = {#Op_Send fd ?w#}"
    by (cases "(fd, A fd, asks fd (outst s))" rule: phase_asks.cases) (auto simp: pending_def)
  moreover have "length (concat (map (went_out fd) cs) @ ?w) \<le> length (concat (map (came_in fd) cs))"
    unfolding came streams_answered using length_takes [of ?ps] by simp
  moreover have "concat (map (came_in fd) cs) = concat (map (went_out fd) cs) @ ?w \<longleftrightarrow> (\<forall>c \<in> set cs. sends_whole fd c)"
    unfolding came streams_answered whole using takes_whole [of ?ps] by auto
  ultimately show ?thesis using s(1) by blast
qed

theorem echo_streams_witness:
  "\<exists>s0 s w. server_start first_free 3 = Some s0 \<and> server_round first_free hello_run s0 = Some s \<and>
     concat (map (came_in 5) hello_run) = concat (map (went_out 5) hello_run) @ w"
proof -
  obtain s0 where s0: "server_start first_free 3 = Some s0" "run_ok (serve_step first_free) deliverable hello_run s0"
    using hello_ok by blast
  have "\<forall>c \<in> set hello_run. sends_whole 5 c" by (simp add: hello_run_def)
  with echo_streams [OF first_free_fresh s0, of 5] s0(1) show ?thesis by blast
qed

section \<open>The client on its connection\<close>

text \<open>The thread \<open>recv_msg\<close> of socket_uring_client.c over the results of its calls of \<open>recv\<close>: what it
  prints, piece by piece.\<close>

fun recv_rounds :: "byte list list \<Rightarrow> byte list \<Rightarrow> (byte list \<times> nat) list option" where
  "recv_rounds [] buf2 = Some []"
| "recv_rounds (got # gots) buf2 = do {
     (buf2, line) \<leftarrow> recv_round buf2 got;
     lines \<leftarrow> recv_rounds gots buf2;
     Some (case line of None \<Rightarrow> lines | Some l \<Rightarrow> l # lines) }"

text \<open>\<open>main\<close> of the client up to its \<open>n\<close>th round of sending: the connection, and the messages sent on it.
  The thread is started in between; the loop has no end, so that the socket is never closed.\<close>

definition client_main :: "'s sock_api \<Rightarrow> (int \<Rightarrow> u32 \<Rightarrow> u16 \<Rightarrow> 's \<Rightarrow> int \<times> 's) \<Rightarrow> nat \<Rightarrow> byte list \<Rightarrow> byte list \<Rightarrow> 's \<Rightarrow>
    (int \<times> 's \<times> byte list list) option" where
  "client_main api conn n input buf s = do {
     (sockfd, s) \<leftarrow> client_connect api conn s;
     msgs \<leftarrow> send_rounds n input buf;
     Some (sockfd, s, msgs) }"

lemma recv_round_prints:
  assumes "0 \<notin> set got" and "length got < length buf2" and "got \<noteq> []"
  shows "\<exists>buf2'. recv_round buf2 got = Some (buf2', Some (got, length got)) \<and> length buf2' = length buf2"
  using assms by (auto simp: recv_round_def st_bytes_def cstr_append_nul)

lemma recv_rounds_print:
  assumes "\<forall>got \<in> set gots. 0 \<notin> set got \<and> length got < length buf2"
  shows "recv_rounds gots buf2 = Some (map (\<lambda>got. (got, length got)) (filter (\<lambda>got. got \<noteq> []) gots))"
  using assms
proof (induction gots arbitrary: buf2)
  case (Cons got gots)
  show ?case
  proof (cases "got = []")
    case True
    then show ?thesis using Cons by (simp add: recv_round_def)
  next
    case False
    then obtain buf2' where "recv_round buf2 got = Some (buf2', Some (got, length got))" "length buf2' = length buf2"
      using recv_round_prints [of got buf2] Cons.prems by auto
    then show ?thesis using Cons False by simp
  qed
qed simp

lemma concat_nonempty: "concat (filter (\<lambda>xs. xs \<noteq> []) xss) = concat xss"
  by (induction xss) simp_all

section \<open>Client and server together\<close>

text \<open>Claim C6: the client and the server of the echo pair together. The client has connected and got the
  words \<open>ws\<close>, each shorter than 4096 bytes, typed into its sending loop; what the server has received
  on the connection is some part of what the client sent, cut in any way; the server handled any
  sequence of completions, over any other connections too, in which the sends on this one were whole;
  and what the receiving thread of the client got is some part of what the server sent, cut into any
  pieces shorter than 4096 bytes (a longer piece overruns the thread's buffer). Then the thread has
  printed every piece with its length, and the pieces together are the beginning of what was
  typed: nothing is lost, repeated, reordered or taken from another connection.\<close>

theorem echo_client_session:
  assumes "\<forall>w \<in> set ws. w \<noteq> [] \<and> (\<forall>b \<in> set w. \<not> is_space b) \<and> 0 \<notin> set w \<and> length w < BUF2"
    and "length buf = BUF2" and "ws \<noteq> []"
    and "client_main api conn (length ws) (concat (map (\<lambda>w. w @ [10]) ws)) buf t = Some (cfd, t', msgs)"
    and "malloc_fresh malloc" and "server_start malloc sockfd = Some s0"
    and "run_ok (serve_step malloc) deliverable cs s0"
    and "concat msgs = concat (map (came_in fd) cs) @ in_flight" and "\<forall>c \<in> set cs. sends_whole fd c"
    and "concat (map (went_out fd) cs) = concat gots @ on_way"
    and "\<forall>got \<in> set gots. length got < BUF2" and "length buf2 = BUF2"
  shows "\<exists>lines. recv_rounds gots buf2 = Some lines \<and> (\<forall>(l, n) \<in> set lines. n = length l \<and> 0 < n) \<and>
    concat (map fst lines) = concat gots \<and> (\<exists>rest. concat ws = concat (map fst lines) @ rest)"
proof -
  have msgs: "msgs = ws" using client_words [OF assms(1,2), of undefined 0] assms(3,4)
    by (auto simp: client_main_def split: bind_splits)
  obtain w where "concat (map (came_in fd) cs) = concat (map (went_out fd) cs) @ w"
    using echo_stream_whole [OF assms(5-7,9)] by blast
  then have ws: "concat ws = concat gots @ on_way @ w @ in_flight" using assms(8,10) msgs by simp
  have "0 \<notin> set (concat ws)" using assms(1) by auto
  then have "0 \<notin> set (concat gots)" unfolding ws by simp
  then have "\<forall>got \<in> set gots. 0 \<notin> set got \<and> length got < length buf2" using assms(11,12) by auto
  from recv_rounds_print [OF this] show ?thesis
    using ws by (auto simp: comp_def concat_nonempty)
qed

definition free_api :: "unit sock_api" where
  "free_api = \<lparr>sock_socket = (\<lambda>s. (3, s)), setsockopt = (\<lambda>_ _ s. (0, s)), sock_bind = (\<lambda>_ _ _ s. (0, s)),
     sock_listen = (\<lambda>_ _ s. (0, s)), sock_close = (\<lambda>_ s. s)\<rparr>"

theorem echo_client_session_witness:
  "\<exists>lines. recv_rounds [[104], [], [105]] (replicate BUF2 7) = Some lines \<and>
     concat (map fst lines) = bytes_of ''hi''"
proof -
  let ?ws = "[bytes_of ''hi'']"
  obtain s0 where s0: "server_start first_free 3 = Some s0" "run_ok (serve_step first_free) deliverable hello_run s0"
    using hello_ok by blast
  have hi: "bytes_of ''hi'' = [104, 105]" by (simp add: bytes_of_def)
  have ws: "\<forall>w \<in> set ?ws. w \<noteq> [] \<and> (\<forall>b \<in> set w. \<not> is_space b) \<and> 0 \<notin> set w \<and> length w < BUF2"
    by (simp add: bytes_of_def is_space_def BUF2_def)
  have "retry f () = Some (3, ())" if "f () = (3, ())" for f :: "unit \<Rightarrow> int \<times> unit"
    using retry_ends [of 0 f "()"] that by simp
  then have "client_connect free_api (\<lambda>_ _ _ s. (3, s)) () = Some (3, ())" by (simp add: client_connect_def free_api_def)
  then have sent: "client_main free_api (\<lambda>_ _ _ s. (3, s)) (length ?ws) (concat (map (\<lambda>w. w @ [10]) ?ws)) (replicate BUF2 255) () =
      Some (3, (), ?ws)"
    using client_words [OF ws, of "replicate BUF2 255" undefined 0] by (simp add: client_main_def)
  have "\<exists>lines. recv_rounds [[104], [], [105]] (replicate BUF2 7) = Some lines \<and> (\<forall>(l, n) \<in> set lines. n = length l \<and> 0 < n) \<and>
      concat (map fst lines) = concat [[104], [], [105]] \<and> (\<exists>rest. concat ?ws = concat (map fst lines) @ rest)"
    by (rule echo_client_session [OF ws length_replicate _ sent first_free_fresh s0, of 5 "[]" _ "[]"])
       (simp_all add: hello_run_def hi BUF2_def)
  then show ?thesis by (auto simp: hi)
qed

section \<open>The log\<close>

text \<open>Further: what is logged for a message without NUL is the message followed by what earlier messages
  left behind it; when no NUL is left in the buffer, as after a message of 4096 bytes, the string
  runs past the array.\<close>

theorem recv_log_shows_leftovers:
  assumes "heap s p = Some ci" and "length (buffer ci) = MAXLINE" and "length bytes \<le> MAXLINE" and "0 \<notin> set bytes"
    and "heap (store (Op_Recv fd n) (Some p) bytes s) p = Some ci'"
  shows "recv_log ci' = (if 0 \<in> set (drop (length bytes) (buffer ci))
    then Some (bytes @ takeWhile (\<lambda>x. x \<noteq> 0) (drop (length bytes) (buffer ci))) else None)"
proof -
  have "takeWhile (\<lambda>x. x \<noteq> 0) (bytes @ rest) = bytes @ takeWhile (\<lambda>x. x \<noteq> 0) rest" for rest
    using assms(4) by (intro takeWhile_append2) auto
  then show ?thesis using assms by (auto simp: store_def recv_log_def cstr_def)
qed

theorem recv_log_shows_leftovers_witness:
  "recv_log (cleared\<lparr>buffer := replicate MAXLINE 65\<rparr>) = None"
proof -
  let ?s = "\<lparr>heap = [0 \<mapsto> cleared], outst = {#}, closed = [], logged = []\<rparr>"
  have "heap (store (Op_Recv 5 MAXLINE) (Some 0) (replicate MAXLINE 65) ?s) 0 = Some (cleared\<lparr>buffer := replicate MAXLINE 65\<rparr>)"
    by (simp add: store_def)
  then show ?thesis using recv_log_shows_leftovers [of ?s 0 cleared "replicate MAXLINE 65" 5 MAXLINE] by simp
qed

end
