(* ===== verification/One_Buffer.thy ===== *)
theory One_Buffer
  imports Socket_Main Traces
begin

text \<open>
  The two servers in which all connections share one buffer and the user data of a request is
  descriptor and event themselves: src/io_uring/socket_uring_normal.c, an echo server, and
  src/io_uring/socket_uring.c (\<open>Web_Server\<close>). Their main loops have the same text but for the handling
  of a completion. Program and kernel are two actors over one state: the program submits, waits,
  takes a batch and handles it completion by completion, and the kernel completes requests at any
  time in between, storing into the buffer when a receive completes and reading it when a send does.
\<close>

section \<open>State and requests\<close>

datatype nop = N_Empty | N_Accept int | N_Recv int nat | N_Send int nat

text \<open>Where the program is: before \<open>io_uring_submit\<close>, in \<open>io_uring_wait_cqe\<close>, or with so many completions
  of its batch to go.\<close>

datatype loop_pc = At_Submit | At_Wait | In_Batch nat

text \<open>Entries that were taken and not submitted, requests the kernel has, completions the program has
  not handled, descriptors it closed; and, for the statements, what was received and what was sent
  on each descriptor.\<close>

record nsrv =
  nbuf :: "byte list"
  npc :: loop_pc
  nsq :: "(nop \<times> int \<times> sevent) list"
  nreqs :: "(nop \<times> int \<times> sevent) list"
  ncq :: "((int \<times> sevent) \<times> int) list"
  nclosed :: "int list"
  nheard :: "(int \<times> byte list) list"
  nsent :: "(int \<times> byte list) list"

text \<open>\<open>io_uring_get_sqe\<close> returns NULL when every entry is taken; the program uses the result all the
  same (\<open>None\<close>).\<close>

definition n_take :: "nop \<times> int \<times> sevent \<Rightarrow> nsrv \<Rightarrow> nsrv option" where
  "n_take e s = (if length (nsq s) < RING_LEN then Some (s\<lparr>nsq := nsq s @ [e]\<rparr>) else None)"

definition n_accept :: "int \<Rightarrow> nsrv \<Rightarrow> nsrv option" where
  "n_accept sfd = n_take (N_Accept sfd, sfd, EVENT_ACCEPT)"

definition n_recv :: "int \<Rightarrow> nat \<Rightarrow> nsrv \<Rightarrow> nsrv option" where
  "n_recv sfd len = n_take (N_Recv sfd len, sfd, EVENT_READ)"

definition n_send :: "int \<Rightarrow> nat \<Rightarrow> nsrv \<Rightarrow> nsrv option" where
  "n_send sfd len = n_take (N_Send sfd len, sfd, EVENT_WRITE)"

definition n_close :: "int \<Rightarrow> nsrv \<Rightarrow> nsrv" where
  "n_close fd s = s\<lparr>nclosed := nclosed s @ [fd]\<rparr>"

text \<open>The entry that \<open>main\<close> takes and leaves empty has zeros as its user data: descriptor 0 and
  event 0.\<close>

definition empty_entry :: "nop \<times> int \<times> sevent" where
  "empty_entry = (N_Empty, 0, EVENT_ACCEPT)"

definition n_start :: "int \<Rightarrow> nsrv option" where
  "n_start sockfd = do {
     s \<leftarrow> n_take empty_entry \<lparr>nbuf = replicate MAXLINE 0, npc = At_Submit, nsq = [], nreqs = [], ncq = [],
       nclosed = [], nheard = [], nsent = []\<rparr>;
     n_accept sockfd s }"

section \<open>The echo server\<close>

definition normal_cqe :: "int \<times> sevent \<Rightarrow> int \<Rightarrow> nsrv \<Rightarrow> nsrv option" where
  "normal_cqe ci res s =
     (case ci of (fd, ev) \<Rightarrow>
        (case ev of
           EVENT_ACCEPT \<Rightarrow>
             if res < 0 then Some s else do { s \<leftarrow> n_recv res MAXLINE s; n_accept fd s }
         | EVENT_READ \<Rightarrow>
             if res < 0 then Some (n_close fd s)
             else if res = 0 then Some (n_close fd s)
             else n_send fd (nat res) s
         | EVENT_WRITE \<Rightarrow>
             n_recv fd MAXLINE (if res < 0 then n_close fd s else s)))"

section \<open>Program and kernel\<close>

definition n_submit :: "nsrv \<Rightarrow> nsrv" where
  "n_submit s = s\<lparr>nsq := [], nreqs := nreqs s @ nsq s\<rparr>"

text \<open>The next step of the main loop. At the end of a batch, whose entries are handed back, it starts
  again; \<open>io_uring_wait_cqe\<close> stays where it is while there is nothing.\<close>

definition loop_next :: "(int \<times> sevent \<Rightarrow> int \<Rightarrow> nsrv \<Rightarrow> nsrv option) \<Rightarrow> nsrv \<Rightarrow> nsrv option" where
  "loop_next handle s =
     (case npc s of
        At_Submit \<Rightarrow> Some ((n_submit s)\<lparr>npc := At_Wait\<rparr>)
      | At_Wait \<Rightarrow>
          if ncq s = [] then Some s else Some (s\<lparr>npc := In_Batch (min CQE_LEN (length (ncq s)))\<rparr>)
      | In_Batch n \<Rightarrow>
          if n = 0 then Some (s\<lparr>npc := At_Submit\<rparr>)
          else (case ncq s of
             [] \<Rightarrow> None
           | (ci, res) # q \<Rightarrow> handle ci res (s\<lparr>ncq := q, npc := In_Batch (n - 1)\<rparr>)))"

text \<open>The kernel completing a request: a receive has stored its bytes, a send has read them.\<close>

definition n_complete :: "nop \<Rightarrow> int \<times> sevent \<Rightarrow> int \<Rightarrow> byte list \<Rightarrow> nsrv \<Rightarrow> nsrv" where
  "n_complete oper ci res bytes s =
     (let s = s\<lparr>nreqs := remove1 (oper, ci) (nreqs s), ncq := ncq s @ [(ci, res)]\<rparr> in
      if res \<le> 0 then s
      else (case oper of
         N_Recv fd len \<Rightarrow> s\<lparr>nbuf := bytes @ drop (length bytes) (nbuf s), nheard := nheard s @ [(fd, bytes)]\<rparr>
       | N_Send fd len \<Rightarrow> s\<lparr>nsent := nsent s @ [(fd, take (nat res) (nbuf s))]\<rparr>
       | _ \<Rightarrow> s))"

datatype nact = Runs | Completes nop "int \<times> sevent" int "byte list"

definition loop_step :: "(int \<times> sevent \<Rightarrow> int \<Rightarrow> nsrv \<Rightarrow> nsrv option) \<Rightarrow> nact \<Rightarrow> nsrv \<Rightarrow> nsrv option" where
  "loop_step handle a s =
     (case a of
        Runs \<Rightarrow> loop_next handle s
      | Completes oper ci res bytes \<Rightarrow> Some (n_complete oper ci res bytes s))"

text \<open>What the kernel promises: it completes requests it has, with a result they allow.\<close>

definition n_admissible :: "nop \<Rightarrow> int \<Rightarrow> byte list \<Rightarrow> bool" where
  "n_admissible oper res bytes \<longleftrightarrow>
     (case oper of
        N_Empty \<Rightarrow> res = 0 \<and> bytes = []
      | N_Accept fd \<Rightarrow> bytes = []
      | N_Recv fd n \<Rightarrow> length bytes = nat res \<and> nat res \<le> n
      | N_Send fd n \<Rightarrow> nat res \<le> n \<and> bytes = [])"

fun kernel_does :: "nact \<Rightarrow> nsrv \<Rightarrow> bool" where
  "kernel_does Runs s \<longleftrightarrow> True"
| "kernel_does (Completes oper ci res bytes) s \<longleftrightarrow> (oper, ci) \<in> set (nreqs s) \<and> n_admissible oper res bytes"

text \<open>\<open>main\<close>, for what program and kernel do in turn; the loop itself has no end.\<close>

definition normal_server_main :: "'s sock_api \<Rightarrow> nact list \<Rightarrow> 's \<Rightarrow> int + nsrv option" where
  "normal_server_main api acts s =
     (case fst (echo_setup api s) of
        Ended st \<Rightarrow> Inl st
      | Listening sockfd \<Rightarrow> Inr (Option.bind (n_start sockfd) (run_steps (loop_step normal_cqe) acts)))"

section \<open>The loop, whatever it handles\<close>

text \<open>In a batch every completion handled so far has taken at most two entries, and there are as many
  completions as the program still expects.\<close>

definition loop_inv :: "nsrv \<Rightarrow> bool" where
  "loop_inv s \<longleftrightarrow>
     (case npc s of
        At_Submit \<Rightarrow> length (nsq s) \<le> 2 * CQE_LEN
      | At_Wait \<Rightarrow> nsq s = []
      | In_Batch n \<Rightarrow> n \<le> CQE_LEN \<and> n \<le> length (ncq s) \<and> length (nsq s) + 2 * n \<le> 2 * CQE_LEN)"

locale one_buffer =
  fixes handle :: "int \<times> sevent \<Rightarrow> int \<Rightarrow> nsrv \<Rightarrow> nsrv option"
    and ok :: "nact \<Rightarrow> nsrv \<Rightarrow> bool" and inv :: "nsrv \<Rightarrow> bool"
  assumes handled: "inv s \<Longrightarrow> ncq s = (ci, res) # q \<Longrightarrow> length (nsq s) + 2 \<le> RING_LEN \<Longrightarrow>
      \<exists>s'. handle ci res (s\<lparr>ncq := q, npc := pc\<rparr>) = Some s' \<and> inv s' \<and> length (nsq s') \<le> length (nsq s) + 2 \<and>
        ncq s' = q \<and> npc s' = pc"
    and completed: "inv s \<Longrightarrow> ok (Completes oper ci res bytes) s \<Longrightarrow> inv (n_complete oper ci res bytes s)"
    and submitted: "inv s \<Longrightarrow> inv (n_submit s)"
    and moved: "inv s \<Longrightarrow> inv (s\<lparr>npc := pc\<rparr>)"

lemma n_complete_loop:
  "npc (n_complete oper ci res bytes s) = npc s" "nsq (n_complete oper ci res bytes s) = nsq s"
  "ncq (n_complete oper ci res bytes s) = ncq s @ [(ci, res)]"
  "nreqs (n_complete oper ci res bytes s) = remove1 (oper, ci) (nreqs s)"
  "nclosed (n_complete oper ci res bytes s) = nclosed s"
  by (auto simp: n_complete_def Let_def split: nop.splits)

lemma n_complete_data:
  "nheard (n_complete oper ci res bytes s) =
     nheard s @ (case oper of N_Recv fd n \<Rightarrow> if 0 < res then [(fd, bytes)] else [] | _ \<Rightarrow> [])"
  "nsent (n_complete oper ci res bytes s) =
     nsent s @ (case oper of N_Send fd n \<Rightarrow> if 0 < res then [(fd, take (nat res) (nbuf s))] else [] | _ \<Rightarrow> [])"
  "nbuf (n_complete oper ci res bytes s) =
     (case oper of N_Recv fd n \<Rightarrow> if 0 < res then bytes @ drop (length bytes) (nbuf s) else nbuf s | _ \<Rightarrow> nbuf s)"
  by (auto simp: n_complete_def Let_def split: nop.splits)

lemma loop_inv_complete: "loop_inv s \<Longrightarrow> loop_inv (n_complete oper ci res bytes s)"
  by (auto simp: loop_inv_def n_complete_loop split: loop_pc.splits)

sublocale one_buffer \<subseteq> loop: trace_invariant "loop_step handle" ok "\<lambda>s. inv s \<and> loop_inv s"
proof
  fix s a
  assume I: "inv s \<and> loop_inv s" and ok: "ok a s"
  show "\<exists>s'. loop_step handle a s = Some s' \<and> inv s' \<and> loop_inv s'"
  proof (cases a)
    case (Completes oper ci res bytes)
    then show ?thesis using I ok by (simp add: loop_step_def completed loop_inv_complete)
  next
    case Runs
    show ?thesis
    proof (cases "npc s")
      case At_Submit
      then show ?thesis using I Runs submitted moved
        by (simp add: loop_step_def loop_next_def) (simp add: loop_inv_def n_submit_def)
    next
      case At_Wait
      then show ?thesis using I Runs moved by (auto simp: loop_step_def loop_next_def loop_inv_def)
    next
      case (In_Batch n)
      show ?thesis
      proof (cases n)
        case 0
        then show ?thesis using I Runs In_Batch moved by (auto simp: loop_step_def loop_next_def loop_inv_def)
      next
        case (Suc k)
        then obtain ci res q where q: "ncq s = (ci, res) # q"
          using I In_Batch by (cases "ncq s") (auto simp: loop_inv_def)
        have "length (nsq s) + 2 \<le> RING_LEN" using I In_Batch Suc by (auto simp: loop_inv_def CQE_LEN_def RING_LEN_def)
        from handled [OF _ q this, of "In_Batch k"] I obtain s' where
          "handle ci res (s\<lparr>ncq := q, npc := In_Batch k\<rparr>) = Some s'" "inv s'" "length (nsq s') \<le> length (nsq s) + 2"
          "ncq s' = q" "npc s' = In_Batch k" by auto
        then show ?thesis using I Runs In_Batch Suc q
          by (auto simp: loop_step_def loop_next_def loop_inv_def)
      qed
    qed
  qed
qed

section \<open>Exchanges\<close>

text \<open>An exchange is open from the completion of its receive to that of its send: as a completion that
  is not handled, or as a send that is queued or with the kernel.\<close>

fun read_of :: "(int \<times> sevent) \<times> int \<Rightarrow> (int \<times> nat) list" where
  "read_of ((fd, ev), res) = (if ev = EVENT_READ \<and> 0 < res then [(fd, nat res)] else [])"

fun send_of :: "nop \<times> int \<times> sevent \<Rightarrow> (int \<times> nat) list" where
  "send_of (N_Send fd n, ci) = [(fd, n)]"
| "send_of _ = []"

definition tokens :: "('a \<Rightarrow> 'b list) \<Rightarrow> 'a list \<Rightarrow> 'b multiset" where
  "tokens f xs = mset (concat (map f xs))"

lemma tokens_simps [simp]:
  "tokens f [] = {#}" "tokens f (x # xs) = mset (f x) + tokens f xs" "tokens f (xs @ ys) = tokens f xs + tokens f ys"
  by (simp_all add: tokens_def)

lemma tokens_remove1: "x \<in> set xs \<Longrightarrow> tokens f xs = mset (f x) + tokens f (remove1 x xs)"
  by (induction xs) (auto simp: add_ac)

definition open_exchanges :: "nsrv \<Rightarrow> (int \<times> nat) multiset" where
  "open_exchanges s = tokens read_of (ncq s) + tokens send_of (nsq s @ nreqs s)"

text \<open>User data and request belong together.\<close>

fun entry_wf :: "nop \<times> int \<times> sevent \<Rightarrow> bool" where
  "entry_wf (N_Empty, fd, ev) \<longleftrightarrow> ev = EVENT_ACCEPT"
| "entry_wf (N_Accept f, fd, ev) \<longleftrightarrow> ev = EVENT_ACCEPT"
| "entry_wf (N_Recv f n, fd, ev) \<longleftrightarrow> ev = EVENT_READ \<and> fd = f \<and> n = MAXLINE"
| "entry_wf (N_Send f n, fd, ev) \<longleftrightarrow> ev = EVENT_WRITE \<and> fd = f"

lemma set_remove1_wf: "\<forall>e \<in> set es. P e \<Longrightarrow> \<forall>e \<in> set (remove1 x es). P e"
  using set_remove1_subset [of x es] by blast

text \<open>What handling a completion does, on every branch: it opens and closes no exchange.\<close>

lemma normal_cqe_effect:
  assumes "length (nsq s) + 2 \<le> RING_LEN"
  shows "\<exists>es fds. normal_cqe ci res s = Some (s\<lparr>nsq := nsq s @ es, nclosed := nclosed s @ fds\<rparr>) \<and>
    length es \<le> 2 \<and> (\<forall>e \<in> set es. entry_wf e) \<and> tokens send_of es = mset (read_of (ci, res))"
proof -
  obtain fd ev where ci: "ci = (fd, ev)" by (cases ci)
  have room: "length (nsq s) < RING_LEN" "Suc (length (nsq s)) < RING_LEN" using assms by auto
  show ?thesis
  proof (cases ev)
    case EVENT_ACCEPT
    show ?thesis
    proof (cases "res < 0")
      case True
      show ?thesis by (rule exI [of _ "[]"], rule exI [of _ "[]"]) (simp add: normal_cqe_def ci EVENT_ACCEPT True)
    next
      case False
      show ?thesis
        by (rule exI [of _ "[(N_Recv res MAXLINE, res, EVENT_READ), (N_Accept fd, fd, EVENT_ACCEPT)]"], rule exI [of _ "[]"])
           (simp add: normal_cqe_def ci EVENT_ACCEPT False n_recv_def n_accept_def n_take_def room)
    qed
  next
    case EVENT_READ
    show ?thesis
    proof (cases "res \<le> 0")
      case True
      show ?thesis
        by (rule exI [of _ "[]"], rule exI [of _ "[fd]"]) (use True in \<open>simp add: normal_cqe_def ci EVENT_READ n_close_def\<close>)
    next
      case False
      show ?thesis
        by (rule exI [of _ "[(N_Send fd (nat res), fd, EVENT_WRITE)]"], rule exI [of _ "[]"])
           (use False in \<open>simp add: normal_cqe_def ci EVENT_READ n_send_def n_take_def room\<close>)
    qed
  next
    case EVENT_WRITE
    show ?thesis
      by (rule exI [of _ "[(N_Recv fd MAXLINE, fd, EVENT_READ)]"], rule exI [of _ "if res < 0 then [fd] else []"])
         (simp add: normal_cqe_def ci EVENT_WRITE n_recv_def n_take_def n_close_def room)
  qed
qed

section \<open>Safety of every run\<close>

definition wf_requests :: "nsrv \<Rightarrow> bool" where
  "wf_requests s \<longleftrightarrow> (\<forall>e \<in> set (nsq s @ nreqs s). entry_wf e) \<and> length (nbuf s) = MAXLINE"

lemma wf_complete:
  assumes "wf_requests s" and "kernel_does (Completes oper ci res bytes) s"
  shows "wf_requests (n_complete oper ci res bytes s)"
proof -
  have "entry_wf (oper, ci)" using assms by (auto simp: wf_requests_def)
  then have "length (nbuf (n_complete oper ci res bytes s)) = length (nbuf s)"
    using assms by (cases ci; cases oper) (auto simp: n_complete_data wf_requests_def n_admissible_def)
  then show ?thesis using assms set_remove1_wf [of "nreqs s" entry_wf]
    by (auto simp: wf_requests_def n_complete_loop)
qed

lemma wf_submit: "wf_requests s \<Longrightarrow> wf_requests (n_submit s)"
  by (auto simp: wf_requests_def n_submit_def)

interpretation normal: one_buffer normal_cqe kernel_does wf_requests
proof
  fix s ci res q pc
  assume "wf_requests s" and "ncq s = (ci, res) # q" and room: "length (nsq s) + 2 \<le> RING_LEN"
  then show "\<exists>s'. normal_cqe ci res (s\<lparr>ncq := q, npc := pc\<rparr>) = Some s' \<and> wf_requests s' \<and>
      length (nsq s') \<le> length (nsq s) + 2 \<and> ncq s' = q \<and> npc s' = pc"
    using normal_cqe_effect [of "s\<lparr>ncq := q, npc := pc\<rparr>" ci res] by (auto simp: wf_requests_def)
qed (auto simp: wf_complete wf_submit, simp add: wf_requests_def)

section \<open>One exchange at a time\<close>

text \<open>A kernel under which exchanges do not overlap and sends are whole.\<close>

fun one_at_a_time :: "nact \<Rightarrow> nsrv \<Rightarrow> bool" where
  "one_at_a_time (Completes (N_Recv fd n) ci res bytes) s \<longleftrightarrow>
     kernel_does (Completes (N_Recv fd n) ci res bytes) s \<and> (0 < res \<longrightarrow> open_exchanges s = {#})"
| "one_at_a_time (Completes (N_Send fd n) ci res bytes) s \<longleftrightarrow>
     kernel_does (Completes (N_Send fd n) ci res bytes) s \<and> res = int n"
| "one_at_a_time a s \<longleftrightarrow> kernel_does a s"

text \<open>All messages are answered but the one of the open exchange, which is still in the buffer.\<close>

definition echoed :: "nsrv \<Rightarrow> (int \<times> byte list) list \<Rightarrow> bool" where
  "echoed s left \<longleftrightarrow> nheard s = nsent s @ left \<and> length left \<le> 1 \<and>
     open_exchanges s = mset (map (\<lambda>(fd, bs). (fd, length bs)) left) \<and>
     (\<forall>(fd, bs) \<in> set left. bs \<noteq> [] \<and> take (length bs) (nbuf s) = bs)"

definition echo_inv :: "nsrv \<Rightarrow> bool" where
  "echo_inv s \<longleftrightarrow> wf_requests s \<and> (\<exists>left. echoed s left)"

lemma open_complete:
  assumes "(oper, ci) \<in> set (nreqs s)"
  shows "open_exchanges (n_complete oper ci res bytes s) + mset (send_of (oper, ci)) =
    open_exchanges s + mset (read_of (ci, res))"
  using tokens_remove1 [OF assms, of send_of] by (simp add: open_exchanges_def n_complete_loop add_ac)

lemma echo_complete:
  assumes "echo_inv s" and "one_at_a_time (Completes oper ci res bytes) s"
  shows "echo_inv (n_complete oper ci res bytes s)"
proof -
  let ?t = "n_complete oper ci res bytes s"
  obtain left where left: "echoed s left" and wf: "wf_requests s" using assms(1) by (auto simp: echo_inv_def)
  have k: "kernel_does (Completes oper ci res bytes) s" using assms(2) by (cases oper) auto
  then have mem: "(oper, ci) \<in> set (nreqs s)" and e: "entry_wf (oper, ci)" using wf by (auto simp: wf_requests_def)
  note op = open_complete [OF mem, of res bytes]
  have "\<exists>left. echoed ?t left"
  proof (cases oper)
    case (N_Recv fd n)
    then have ci: "ci = (fd, EVENT_READ)" "n = MAXLINE" using e by (cases ci, simp)+
    show ?thesis
    proof (cases "0 < res")
      case True
      then have "open_exchanges s = {#}" using assms(2) N_Recv by simp
      then have "left = []" using left by (auto simp: echoed_def)
      moreover have "bytes \<noteq> []" "length bytes = nat res" using k N_Recv True by (auto simp: n_admissible_def)
      ultimately have "echoed ?t [(fd, bytes)]"
        using left op N_Recv ci True by (auto simp: echoed_def n_complete_data)
      then show ?thesis ..
    next
      case False
      then have "echoed ?t left" using left op N_Recv ci by (auto simp: echoed_def n_complete_data)
      then show ?thesis ..
    qed
  next
    case (N_Send fd n)
    then have ci: "ci = (fd, EVENT_WRITE)" and res: "res = int n" using e assms(2) by (cases ci, simp_all)
    have "open_exchanges s = add_mset (fd, n) (open_exchanges ?t)" using op N_Send ci by simp
    then have "(fd, n) \<in># open_exchanges s" by simp
    then obtain bs where l: "left = [(fd, bs)]" "length bs = n" "bs \<noteq> []" "take n (nbuf s) = bs"
      using left by (cases left) (auto simp: echoed_def)
    then have "echoed ?t []" using left op N_Send ci res by (auto simp: echoed_def n_complete_data)
    then show ?thesis ..
  next
    case N_Empty
    then have "echoed ?t left" using left op e by (cases ci) (auto simp: echoed_def n_complete_data)
    then show ?thesis ..
  next
    case (N_Accept f)
    then have "echoed ?t left" using left op e by (cases ci) (auto simp: echoed_def n_complete_data)
    then show ?thesis ..
  qed
  then show ?thesis using wf_complete [OF wf k] by (simp add: echo_inv_def)
qed

lemma echo_submit: "echo_inv s \<Longrightarrow> echo_inv (n_submit s)"
  using wf_submit by (auto simp: echo_inv_def echoed_def open_exchanges_def n_submit_def add_ac)

lemma echo_handled:
  assumes "echo_inv s" and "ncq s = (ci, res) # q" and "length (nsq s) + 2 \<le> RING_LEN"
  shows "\<exists>s'. normal_cqe ci res (s\<lparr>ncq := q, npc := pc\<rparr>) = Some s' \<and> echo_inv s' \<and>
    length (nsq s') \<le> length (nsq s) + 2 \<and> ncq s' = q \<and> npc s' = pc"
proof -
  let ?u = "s\<lparr>ncq := q, npc := pc\<rparr>"
  obtain es fds where h: "normal_cqe ci res ?u = Some (?u\<lparr>nsq := nsq ?u @ es, nclosed := nclosed ?u @ fds\<rparr>)"
    "length es \<le> 2" "\<forall>e \<in> set es. entry_wf e" "tokens send_of es = mset (read_of (ci, res))"
    using normal_cqe_effect [of ?u ci res] assms(3) by auto
  let ?t = "?u\<lparr>nsq := nsq ?u @ es, nclosed := nclosed ?u @ fds\<rparr>"
  have "open_exchanges ?t = open_exchanges s" using assms(2) h(4) by (simp add: open_exchanges_def add_ac)
  then have "echo_inv ?t" using assms(1) h(3) by (auto simp: echo_inv_def echoed_def wf_requests_def)
  then show ?thesis using h by simp
qed

interpretation serial: one_buffer normal_cqe one_at_a_time echo_inv
proof
  show "echo_inv s \<Longrightarrow> echo_inv (s\<lparr>npc := pc\<rparr>)" for s pc
    by (simp add: echo_inv_def echoed_def wf_requests_def open_exchanges_def)
qed (fact echo_handled echo_complete echo_submit)+

lemma start_echo:
  assumes "n_start sockfd = Some s0"
  shows "echo_inv s0 \<and> loop_inv s0"
  using assms
  by (auto simp: n_start_def n_accept_def n_take_def empty_entry_def echo_inv_def echoed_def wf_requests_def
      open_exchanges_def loop_inv_def CQE_LEN_def split: if_splits)

section \<open>Properties\<close>

text \<open>Claim C26: the loop of socket_uring_normal.c is safe in every run. However program and kernel
  interleave and whatever the results are, \<open>main\<close> never has more than 20 of its 1024 submission
  entries in use when it asks for one, so that \<open>io_uring_get_sqe\<close>, whose result it does not test,
  does not return NULL; it finds every completion of its batch, and no receive exceeds the buffer.\<close>

theorem one_buffer_safe:
  assumes "n_start sockfd = Some s0" and "run_ok (loop_step normal_cqe) kernel_does acts s0"
  shows "\<exists>s. run_steps (loop_step normal_cqe) acts s0 = Some s \<and> length (nsq s) \<le> 20 \<and> 20 + 2 \<le> RING_LEN \<and>
    length (nbuf s) = MAXLINE \<and> (\<forall>e \<in> set (nsq s @ nreqs s). entry_wf e)"
proof -
  have "wf_requests s0 \<and> loop_inv s0" using start_echo [OF assms(1)] by (simp add: echo_inv_def)
  then obtain s where "run_steps (loop_step normal_cqe) acts s0 = Some s" "wf_requests s" "loop_inv s"
    using normal.loop.inv_run [OF _ assms(2)] by blast
  then show ?thesis by (auto simp: wf_requests_def loop_inv_def CQE_LEN_def RING_LEN_def split: loop_pc.splits)
qed

definition demo_exchange :: "nact list" where
  "demo_exchange = [Runs, Completes (N_Accept 3) (3, EVENT_ACCEPT) 5 [], Runs, Runs, Runs, Runs,
     Completes (N_Recv 5 MAXLINE) (5, EVENT_READ) 2 [104, 105], Runs, Runs, Runs, Runs,
     Completes (N_Send 5 2) (5, EVENT_WRITE) 2 []]"

lemmas loop_simps = loop_step_def loop_next_def n_submit_def n_complete_def normal_cqe_def n_take_def n_recv_def
  n_send_def n_accept_def n_admissible_def open_exchanges_def

lemma demo_exchange_ok:
  "\<exists>s0. n_start 3 = Some s0 \<and> run_ok (loop_step normal_cqe) one_at_a_time demo_exchange s0 \<and>
     run_ok (loop_step normal_cqe) kernel_does demo_exchange s0"
  by (simp add: n_start_def demo_exchange_def loop_simps empty_entry_def RING_LEN_def CQE_LEN_def MAXLINE_def)

theorem one_buffer_safe_witness:
  "\<exists>s0 s. n_start 3 = Some s0 \<and> run_steps (loop_step normal_cqe) demo_exchange s0 = Some s \<and> length (nsq s) \<le> 20"
proof -
  obtain s0 where s0: "n_start 3 = Some s0" "run_ok (loop_step normal_cqe) kernel_does demo_exchange s0"
    using demo_exchange_ok by blast
  from one_buffer_safe [OF this] s0(1) show ?thesis by blast
qed

text \<open>Claim C27: socket_uring_normal.c echoes as long as exchanges do not overlap. When no receive
  delivers bytes between the completion of another receive and that of the send that answers it,
  and sends are whole, every message is sent back unchanged on its own descriptor, in the order of
  arrival, up to the one whose exchange is open.\<close>

theorem one_buffer_echoes:
  assumes "n_start sockfd = Some s0" and "run_ok (loop_step normal_cqe) one_at_a_time acts s0"
  shows "\<exists>s left. run_steps (loop_step normal_cqe) acts s0 = Some s \<and> nheard s = nsent s @ left \<and>
    open_exchanges s = mset (map (\<lambda>(fd, bs). (fd, length bs)) left) \<and> length left \<le> 1"
  using serial.loop.inv_run [OF start_echo [OF assms(1)] assms(2)] by (auto simp: echo_inv_def echoed_def)

theorem one_buffer_echoes_witness:
  "\<exists>s0 s. n_start 3 = Some s0 \<and> run_steps (loop_step normal_cqe) demo_exchange s0 = Some s \<and>
     (\<exists>left. nheard s = nsent s @ left)"
proof -
  obtain s0 where s0: "n_start 3 = Some s0" "run_ok (loop_step normal_cqe) one_at_a_time demo_exchange s0"
    using demo_exchange_ok by blast
  from one_buffer_echoes [OF this] s0(1) show ?thesis by blast
qed

text \<open>Further: the server with one buffer mixes up its clients. When a second client sends as many bytes
  before the exchange of the first is through, both are answered with the bytes of the second.\<close>

definition overlapping :: "int \<Rightarrow> byte list \<Rightarrow> int \<Rightarrow> byte list \<Rightarrow> nact list" where
  "overlapping a as b bs =
     [Completes (N_Recv a MAXLINE) (a, EVENT_READ) (int (length as)) as,
      Completes (N_Recv b MAXLINE) (b, EVENT_READ) (int (length bs)) bs, Runs, Runs, Runs, Runs, Runs,
      Completes (N_Send a (length as)) (a, EVENT_WRITE) (int (length as)) [],
      Completes (N_Send b (length bs)) (b, EVENT_WRITE) (int (length bs)) []]"

theorem shared_buffer_mixes_clients:
  assumes "npc s = At_Wait" and "nsq s = []" and "ncq s = []" and "length as = length bs" and "bs \<noteq> []"
  shows "\<exists>s'. run_steps (loop_step normal_cqe) (overlapping a as b bs) s = Some s' \<and>
    nsent s' = nsent s @ [(a, bs), (b, bs)] \<and> nheard s' = nheard s @ [(a, as), (b, bs)]"
  using assms by (simp add: overlapping_def loop_simps RING_LEN_def CQE_LEN_def Let_def)

theorem shared_buffer_mixes_clients_witness:
  "\<exists>s s'. run_steps (loop_step normal_cqe) (overlapping 5 [65] 6 [66]) s = Some s' \<and> nsent s' = [(5, [66]), (6, [66])]"
proof -
  let ?s = "\<lparr>nbuf = replicate MAXLINE 0, npc = At_Wait, nsq = [],
    nreqs = [(N_Recv 5 MAXLINE, 5, EVENT_READ), (N_Recv 6 MAXLINE, 6, EVENT_READ)], ncq = [], nclosed = [],
    nheard = [], nsent = []\<rparr>"
  from shared_buffer_mixes_clients [of ?s "[65]" "[66]" 5 6] show ?thesis by auto
qed

text \<open>Further: the entry that \<open>main\<close> leaves empty completes like an accept on descriptor 0, and the
  server then receives and accepts on its standard input.\<close>

theorem empty_entry_reads_stdin:
  assumes "n_start sockfd = Some s0"
  shows "\<exists>s. run_steps (loop_step normal_cqe) [Runs, Completes N_Empty (0, EVENT_ACCEPT) 0 [], Runs, Runs] s0 = Some s \<and>
    nsq s = [(N_Recv 0 MAXLINE, 0, EVENT_READ), (N_Accept 0, 0, EVENT_ACCEPT)]"
  using assms by (auto simp: n_start_def loop_simps empty_entry_def RING_LEN_def CQE_LEN_def split: if_splits)

theorem empty_entry_reads_stdin_witness:
  "\<exists>s0 s. n_start 3 = Some s0 \<and>
     run_steps (loop_step normal_cqe) [Runs, Completes N_Empty (0, EVENT_ACCEPT) 0 [], Runs, Runs] s0 = Some s \<and>
     nsq s = [(N_Recv 0 MAXLINE, 0, EVENT_READ), (N_Accept 0, 0, EVENT_ACCEPT)]"
proof -
  obtain s0 where s0: "n_start 3 = Some s0" using demo_exchange_ok by blast
  from empty_entry_reads_stdin [OF this] s0 show ?thesis by blast
qed

end
