(* ===== verification/Web_Server.thy ===== *)
theory Web_Server
  imports One_Buffer
begin

text \<open>
  The file server src/io_uring/socket_uring.c: \<open>render\<close>, which takes the path out of the request in the
  shared buffer, reads the file and sends it, and the main loop of One\_Buffer with its own handling
  of completions. \<open>None\<close> is a scan that runs past the end of the buffer.
\<close>

section \<open>Rendering\<close>

abbreviation SP :: byte where "SP \<equiv> of_char CHR '' ''"
abbreviation QM :: byte where "QM \<equiv> of_char CHR ''?''"

text \<open>\<open>strtok\<close> on the bytes from a pointer to the end of the array: delimiters are skipped, the token ends
  at the next delimiter, which is overwritten with NUL, or at the NUL. The results are the bytes
  afterwards and where the token starts; no token is NULL.\<close>

definition strtok :: "byte \<Rightarrow> byte list \<Rightarrow> (byte list \<times> nat option) option" where
  "strtok d str =
     (let i = length (takeWhile (\<lambda>c. c = d) str);
          tok = takeWhile (\<lambda>c. c \<noteq> d \<and> c \<noteq> 0) (drop i str);
          j = i + length tok
      in if length str \<le> j then None
         else if tok = [] then Some (str, None)
         else Some (if str ! j = 0 then str else str[j := 0], Some i))"

text \<open>The path: the first word behind the four bytes of the verb, up to a question mark. After a NULL of
  the first call the second one continues at the end of the string and returns NULL as well, which
  \<open>sprintf\<close> prints as \<open>(null)\<close>. The name has to fit its array of \<open>MAXLINE\<close> bytes.\<close>

definition render_path :: "byte list \<Rightarrow> (byte list \<times> byte list) option" where
  "render_path buf = do {
     (str, url) \<leftarrow> strtok SP (drop 4 buf);
     (str, name) \<leftarrow>
       (case url of
          None \<Rightarrow> Some (str, bytes_of ''(null)'')
        | Some i \<Rightarrow> do {
            (tok, path) \<leftarrow> strtok QM (drop i str);
            name \<leftarrow> (case path of None \<Rightarrow> Some (bytes_of ''(null)'') | Some k \<Rightarrow> cstr (drop k tok));
            Some (take i str @ tok, name) });
     let file_path = bytes_of ''./'' @ name;
     if MAXLINE \<le> length file_path then None else Some (take 4 buf @ str, file_path) }"

text \<open>The pieces that \<open>fgets\<close> reads, each sent up to its first NUL.\<close>

function file_chunks :: "byte list \<Rightarrow> byte list list" where
  "file_chunks content =
     (if content = [] then []
      else let line = take (MAXLINE - 1) (line_of content)
           in line # file_chunks (drop (length line) content))"
  by pat_completeness auto
termination
  by (relation "measure length") (auto simp: MAXLINE_def Let_def line_of_nonempty)

declare file_chunks.simps [simp del]

definition OK_200 :: "byte list" where
  "OK_200 = bytes_of ''HTTP/1.1 200 OK'' @ [10, 10]"

definition NOT_FOUND_404 :: "byte list" where
  "NOT_FOUND_404 = bytes_of ''HTTP/1.1 404 Not Found'' @ [10, 10]"

text \<open>\<open>render\<close>: \<open>fopen\<close> gives the contents of a file that can be opened. The results are the buffer
  afterwards and everything that is sent before the descriptor is closed.\<close>

definition render :: "(byte list \<Rightarrow> byte list option) \<Rightarrow> byte list \<Rightarrow> (byte list \<times> byte list) option" where
  "render fopen buf = do {
     (buf, file_path) \<leftarrow> render_path buf;
     Some (buf,
       case fopen file_path of
         Some content \<Rightarrow> OK_200 @ concat (map (takeWhile (\<lambda>c. c \<noteq> 0)) (file_chunks content))
       | None \<Rightarrow> NOT_FOUND_404) }"

section \<open>The main loop\<close>

text \<open>A receive that fails or finds the connection closed leaves the descriptor as it is; \<open>render\<close>
  closes it.\<close>

definition render_cqe :: "(byte list \<Rightarrow> byte list option) \<Rightarrow> int \<times> sevent \<Rightarrow> int \<Rightarrow> nsrv \<Rightarrow> nsrv option" where
  "render_cqe fopen ci res s =
     (case ci of (fd, ev) \<Rightarrow>
        (case ev of
           EVENT_ACCEPT \<Rightarrow>
             if res < 0 then Some s else do { s \<leftarrow> n_recv res MAXLINE s; n_accept fd s }
         | EVENT_READ \<Rightarrow>
             if res < 0 then Some s
             else if res = 0 then Some s
             else do {
               (buf, answer) \<leftarrow> render fopen (nbuf s);
               Some (n_close fd (s\<lparr>nbuf := buf, nsent := nsent s @ [(fd, answer)]\<rparr>)) }
         | EVENT_WRITE \<Rightarrow> n_recv fd MAXLINE s))"

definition render_server_main ::
  "'s sock_api \<Rightarrow> (byte list \<Rightarrow> byte list option) \<Rightarrow> nact list \<Rightarrow> 's \<Rightarrow> int + nsrv option" where
  "render_server_main api fopen acts s =
     (case fst (render_setup api s) of
        Ended st \<Rightarrow> Inl st
      | Listening sockfd \<Rightarrow> Inr (Option.bind (n_start sockfd) (run_steps (loop_step (render_cqe fopen)) acts)))"

section \<open>Pages\<close>

lemma concat_file_chunks: "concat (file_chunks content) = content"
proof (induction content rule: file_chunks.induct)
  case (1 content)
  show ?case
  proof (cases "content = []")
    case True
    then show ?thesis by (subst file_chunks.simps) simp
  next
    case False
    let ?line = "take (MAXLINE - 1) (line_of content)"
    obtain rest where "content = line_of content @ rest" using line_of_prefix by blast
    then obtain left where "content = ?line @ left" by (metis append.assoc append_take_drop_id)
    then have "?line @ drop (length ?line) content = content"
      by (metis append_eq_conv_conj append_take_drop_id)
    with 1 False show ?thesis by (subst file_chunks.simps) (simp add: Let_def)
  qed
qed

lemma sent_chunks:
  assumes "0 \<notin> set content"
  shows "concat (map (takeWhile (\<lambda>c. c \<noteq> 0)) (file_chunks content)) = content"
proof -
  have "takeWhile (\<lambda>c. c \<noteq> 0) ch = ch" if "ch \<in> set (file_chunks content)" for ch
    using that assms concat_file_chunks [of content]
    by (intro takeWhile_eq_all_conv [THEN iffD2]) (metis UN_I set_concat)
  then have "map (takeWhile (\<lambda>c. c \<noteq> 0)) (file_chunks content) = file_chunks content"
    by (simp add: map_idI)
  then show ?thesis by (simp add: concat_file_chunks)
qed

text \<open>What is asked for: the first word behind the verb, without its query. A request has such a word,
  and a space behind it.\<close>

definition url_of :: "byte list \<Rightarrow> byte list" where
  "url_of req = takeWhile (\<lambda>c. c \<noteq> SP) (drop 4 req)"

definition path_of :: "byte list \<Rightarrow> byte list" where
  "path_of req = takeWhile (\<lambda>c. c \<noteq> QM) (url_of req)"

definition request_ok :: "byte list \<Rightarrow> bool" where
  "request_ok req \<longleftrightarrow> SP \<in> set (drop 4 req) \<and> path_of req \<noteq> [] \<and> 0 \<notin> set (url_of req)"

definition page :: "(byte list \<Rightarrow> byte list option) \<Rightarrow> byte list \<Rightarrow> byte list" where
  "page fopen path = (case fopen (bytes_of ''./'' @ path) of Some content \<Rightarrow> OK_200 @ content | None \<Rightarrow> NOT_FOUND_404)"

text \<open>\<open>strtok\<close> at a token.\<close>

lemma strtok_token:
  assumes "tok \<noteq> []" and "d \<notin> set tok" and "0 \<notin> set tok" and "c = d \<or> c = 0" and "d \<noteq> 0"
  shows "strtok d (tok @ c # rest) = Some (tok @ 0 # rest, Some 0)"
proof -
  have "takeWhile (\<lambda>x. x = d) (tok @ c # rest) = []" using assms(1,2) by (cases tok) auto
  moreover have "takeWhile (\<lambda>x. x \<noteq> d \<and> x \<noteq> 0) (tok @ c # rest) = tok"
    using assms(2-4) by (subst takeWhile_append2) auto
  ultimately show ?thesis using assms(1,4) by (auto simp: strtok_def Let_def nth_append list_update_append)
qed

lemma render_path_word:
  assumes "drop 4 buf = url @ c # rest" and "c = SP \<or> c = 0" and "SP \<notin> set url" and "0 \<notin> set url"
    and "path = takeWhile (\<lambda>c. c \<noteq> QM) url" and "path \<noteq> []" and "length buf = MAXLINE"
  shows "\<exists>rest'. render_path buf = Some (take 4 buf @ path @ 0 # rest', bytes_of ''./'' @ path) \<and>
    length (take 4 buf @ path @ 0 # rest') = MAXLINE"
proof -
  have url: "url \<noteq> []" using assms(5,6) by auto
  have p: "0 \<notin> set path" "QM \<notin> set path" using assms(4,5) by (auto dest: set_takeWhileD)
  have tok1: "strtok SP (drop 4 buf) = Some (url @ 0 # rest, Some 0)"
    unfolding assms(1) by (rule strtok_token) (use url assms(2-4) in auto)
  have "\<exists>rest'. strtok QM (url @ 0 # rest) = Some (path @ 0 # rest', Some 0) \<and>
      length (path @ 0 # rest') = length (url @ 0 # rest)"
  proof (cases "QM \<in> set url")
    case True
    then obtain p q where pq: "url = p @ QM # q" "QM \<notin> set p" by (metis split_list_first)
    then have q: "url = path @ QM # q" using assms(5) takeWhile_stop [OF pq(2), of q] by simp
    show ?thesis
      by (rule exI [of _ "q @ 0 # rest"]) (use strtok_token [OF assms(6) p(2,1), of QM "q @ 0 # rest"] q in simp)
  next
    case False
    then have "path = url" using assms(5) by (auto simp: takeWhile_eq_all_conv)
    then show ?thesis using strtok_token [OF assms(6) p(2,1), of 0 rest] by auto
  qed
  then obtain rest' where tok2: "strtok QM (url @ 0 # rest) = Some (path @ 0 # rest', Some 0)"
    "length (path @ 0 # rest') = length (url @ 0 # rest)" by blast
  have len: "length (url @ 0 # rest) = MAXLINE - 4"
    using arg_cong [OF assms(1), of length] assms(7) by simp
  then have "\<not> MAXLINE \<le> length (bytes_of ''./'' @ path)" using tok2(2) by (simp add: MAXLINE_def bytes_of_def)
  then have "render_path buf = Some (take 4 buf @ path @ 0 # rest', bytes_of ''./'' @ path)"
    using tok1 tok2(1) p(1) by (simp add: render_path_def cstr_append_nul)
  moreover have "length (take 4 buf @ path @ 0 # rest') = MAXLINE"
    using tok2(2) len assms(7) by (simp add: MAXLINE_def)
  ultimately show ?thesis by blast
qed

lemma request_split:
  assumes "request_ok req"
  shows "\<exists>rest. drop 4 req = url_of req @ SP # rest"
proof -
  obtain u rest where u: "drop 4 req = u @ SP # rest" "SP \<notin> set u"
    using assms by (metis request_ok_def split_list_first)
  then have "url_of req = u" using takeWhile_stop [OF u(2), of rest] by (simp add: url_of_def)
  then show ?thesis using u(1) by blast
qed

lemma render_request:
  assumes "request_ok req" and "take (length req) buf = req" and "length buf = MAXLINE"
    and "\<And>f content. fopen f = Some content \<Longrightarrow> 0 \<notin> set content"
  shows "\<exists>rest. render fopen buf = Some (take 4 buf @ path_of req @ 0 # rest, page fopen (path_of req)) \<and>
    length (take 4 buf @ path_of req @ 0 # rest) = MAXLINE"
proof -
  obtain left where r: "drop 4 req = url_of req @ SP # left" using request_split [OF assms(1)] by blast
  then have "4 \<le> length req" by (cases "4 \<le> length req") auto
  moreover have "buf = req @ drop (length req) buf" using assms(2) by (metis append_take_drop_id)
  ultimately have "drop 4 buf = drop 4 req @ drop (length req) buf" by (metis drop_append diff_is_0_eq' drop_0)
  then have d: "drop 4 buf = url_of req @ SP # left @ drop (length req) buf" using r by simp
  have u: "SP \<notin> set (url_of req)" "0 \<notin> set (url_of req)" "path_of req \<noteq> []"
    using assms(1) by (auto simp: request_ok_def url_of_def dest: set_takeWhileD)
  obtain rest where rest: "render_path buf = Some (take 4 buf @ path_of req @ 0 # rest, bytes_of ''./'' @ path_of req)"
    "length (take 4 buf @ path_of req @ 0 # rest) = MAXLINE"
    using render_path_word [OF d disjI1 [OF refl] u(1,2) path_of_def u(3) assms(3)] by blast
  then show ?thesis using assms(4) by (auto simp: render_def page_def sent_chunks split: option.splits)
qed

section \<open>One request at a time\<close>

text \<open>A kernel that delivers a request only when the one before has been handled, to clients that send
  requests in one piece.\<close>

fun one_request :: "nact \<Rightarrow> nsrv \<Rightarrow> bool" where
  "one_request (Completes (N_Recv fd n) ci res bytes) s \<longleftrightarrow>
     kernel_does (Completes (N_Recv fd n) ci res bytes) s \<and>
     (0 < res \<longrightarrow> tokens read_of (ncq s) = {#} \<and> request_ok bytes)"
| "one_request a s \<longleftrightarrow> kernel_does a s"

lemma one_request_kernel: "one_request a s \<Longrightarrow> kernel_does a s"
  by (induction a s rule: one_request.induct) auto

definition served_pages :: "(byte list \<Rightarrow> byte list option) \<Rightarrow> nsrv \<Rightarrow> (int \<times> byte list) list \<Rightarrow>
    (int \<times> byte list) list \<Rightarrow> bool" where
  "served_pages fopen s answered left \<longleftrightarrow> nheard s = answered @ left \<and> length left \<le> 1 \<and>
     nsent s = map (\<lambda>(fd, req). (fd, page fopen (path_of req))) answered \<and> nclosed s = map fst answered \<and>
     tokens read_of (ncq s) = mset (map (\<lambda>(fd, req). (fd, length req)) left) \<and>
     (\<forall>(fd, req) \<in> set left. request_ok req \<and> take (length req) (nbuf s) = req)"

definition web_inv :: "(byte list \<Rightarrow> byte list option) \<Rightarrow> nsrv \<Rightarrow> bool" where
  "web_inv fopen s \<longleftrightarrow> wf_requests s \<and> tokens send_of (nsq s @ nreqs s) = {#} \<and>
     (\<exists>answered left. served_pages fopen s answered left)"

lemma web_complete:
  assumes "web_inv fopen s" and "one_request (Completes oper ci res bytes) s"
  shows "web_inv fopen (n_complete oper ci res bytes s)"
proof -
  let ?t = "n_complete oper ci res bytes s"
  obtain answered left where p: "served_pages fopen s answered left" and wf: "wf_requests s"
    and no_send: "tokens send_of (nsq s @ nreqs s) = {#}" using assms(1) by (auto simp: web_inv_def)
  have k: "kernel_does (Completes oper ci res bytes) s" using one_request_kernel [OF assms(2)] .
  then have mem: "(oper, ci) \<in> set (nreqs s)" and e: "entry_wf (oper, ci)" using wf by (auto simp: wf_requests_def)
  have no: "mset (send_of (oper, ci)) = {#}" "tokens send_of (nsq ?t @ nreqs ?t) = {#}"
    using tokens_remove1 [OF mem, of send_of] no_send by (simp_all add: n_complete_loop)
  have "\<exists>answered left. served_pages fopen ?t answered left"
  proof (cases "\<exists>fd n. oper = N_Recv fd n \<and> 0 < res")
    case True
    then obtain fd n where r: "oper = N_Recv fd n" "0 < res" by blast
    then have ci: "ci = (fd, EVENT_READ)" using e by (cases ci) simp
    have "tokens read_of (ncq s) = {#}" "request_ok bytes" "length bytes = nat res"
      using assms(2) k r by (auto simp: n_admissible_def)
    moreover from this have "left = []" using p by (auto simp: served_pages_def)
    ultimately have "served_pages fopen ?t answered [(fd, bytes)]"
      using p r ci by (auto simp: served_pages_def n_complete_loop n_complete_data)
    then show ?thesis by blast
  next
    case False
    have "mset (read_of (ci, res)) = {#}" using False e by (cases ci; cases oper) auto
    moreover have "\<not> (\<exists>fd n. oper = N_Send fd n)" using no(1) by auto
    ultimately have "served_pages fopen ?t answered left"
      using p False by (cases oper) (auto simp: served_pages_def n_complete_loop n_complete_data)
    then show ?thesis by blast
  qed
  then show ?thesis using wf_complete [OF wf k] no(2) by (simp add: web_inv_def)
qed

lemma web_submit: "web_inv fopen s \<Longrightarrow> web_inv fopen (n_submit s)"
  using wf_submit by (auto simp: web_inv_def served_pages_def n_submit_def)

text \<open>Handling anything but a request takes at most two entries and changes nothing else.\<close>

lemma render_cqe_other:
  assumes "read_of (ci, res) = []" and "length (nsq s) + 2 \<le> RING_LEN"
  shows "\<exists>es. render_cqe fopen ci res s = Some (s\<lparr>nsq := nsq s @ es\<rparr>) \<and> length es \<le> 2 \<and>
    (\<forall>e \<in> set es. entry_wf e) \<and> tokens send_of es = {#}"
proof -
  obtain fd ev where ci: "ci = (fd, ev)" by (cases ci)
  have room: "length (nsq s) < RING_LEN" "Suc (length (nsq s)) < RING_LEN" using assms(2) by auto
  consider "ev = EVENT_ACCEPT" "\<not> res < 0" | "ev = EVENT_ACCEPT" "res < 0" | "ev = EVENT_READ" "res \<le> 0" | "ev = EVENT_WRITE"
    using assms(1) ci by (cases ev) (auto split: if_splits)
  then show ?thesis
  proof cases
    case 1
    then show ?thesis
      by (intro exI [of _ "[(N_Recv res MAXLINE, res, EVENT_READ), (N_Accept fd, fd, EVENT_ACCEPT)]"])
         (simp add: render_cqe_def ci n_recv_def n_accept_def n_take_def room)
  next
    case 4
    then show ?thesis
      by (intro exI [of _ "[(N_Recv fd MAXLINE, fd, EVENT_READ)]"])
         (simp add: render_cqe_def ci n_recv_def n_take_def room)
  qed (intro exI [of _ "[]"], simp add: render_cqe_def ci)+
qed

lemma web_handled:
  assumes "web_inv fopen s" and "ncq s = (ci, res) # q" and "length (nsq s) + 2 \<le> RING_LEN"
    and "\<And>f content. fopen f = Some content \<Longrightarrow> 0 \<notin> set content"
  shows "\<exists>s'. render_cqe fopen ci res (s\<lparr>ncq := q, npc := pc\<rparr>) = Some s' \<and> web_inv fopen s' \<and>
    length (nsq s') \<le> length (nsq s) + 2 \<and> ncq s' = q \<and> npc s' = pc"
proof -
  let ?u = "s\<lparr>ncq := q, npc := pc\<rparr>"
  obtain answered left where p: "served_pages fopen s answered left" and wf: "wf_requests s"
    and no_send: "tokens send_of (nsq s @ nreqs s) = {#}" using assms(1) by (auto simp: web_inv_def)
  show ?thesis
  proof (cases "read_of (ci, res) = []")
    case True
    then obtain es where es: "render_cqe fopen ci res ?u = Some (?u\<lparr>nsq := nsq ?u @ es\<rparr>)" "length es \<le> 2"
      "\<forall>e \<in> set es. entry_wf e" "tokens send_of es = {#}" using render_cqe_other [of ci res ?u fopen] assms(3) by auto
    have "served_pages fopen (?u\<lparr>nsq := nsq ?u @ es\<rparr>) answered left" using p True assms(2) by (simp add: served_pages_def)
    then have "web_inv fopen (?u\<lparr>nsq := nsq ?u @ es\<rparr>)"
      using wf no_send es(3,4) by (auto simp: web_inv_def wf_requests_def)
    then show ?thesis using es by simp
  next
    case False
    then obtain fd where ci: "ci = (fd, EVENT_READ)" "0 < res" by (cases ci) (auto split: if_splits)
    then have "add_mset (fd, nat res) (tokens read_of q) = mset (map (\<lambda>(fd, req). (fd, length req)) left)"
      using p assms(2) by (simp add: served_pages_def)
    moreover have "length left \<le> 1" using p by (simp add: served_pages_def)
    ultimately obtain req where l: "left = [(fd, req)]" "tokens read_of q = {#}" by (cases left) auto
    then have "request_ok req" "take (length req) (nbuf s) = req" using p by (auto simp: served_pages_def)
    then obtain buf where b: "render fopen (nbuf s) = Some (buf, page fopen (path_of req))" "length buf = MAXLINE"
      using render_request [of req "nbuf s" fopen] wf assms(4) unfolding wf_requests_def by blast
    let ?t = "n_close fd (?u\<lparr>nbuf := buf, nsent := nsent s @ [(fd, page fopen (path_of req))]\<rparr>)"
    have "served_pages fopen ?t (answered @ [(fd, req)]) []" using p l by (simp add: served_pages_def n_close_def)
    then have "web_inv fopen ?t" using wf no_send b(2) by (auto simp: web_inv_def wf_requests_def n_close_def)
    moreover have "render_cqe fopen ci res ?u = Some ?t" using ci b(1) by (simp add: render_cqe_def)
    ultimately show ?thesis by (simp add: n_close_def)
  qed
qed

locale text_files =
  fixes fopen :: "byte list \<Rightarrow> byte list option"
  assumes no_nul: "fopen f = Some content \<Longrightarrow> 0 \<notin> set content"

sublocale text_files \<subseteq> web: one_buffer "render_cqe fopen" one_request "web_inv fopen"
proof
  show "web_inv fopen s \<Longrightarrow> web_inv fopen (s\<lparr>npc := pc\<rparr>)" for s pc
    by (simp add: web_inv_def served_pages_def wf_requests_def)
qed (use web_handled no_nul web_complete web_submit in auto)

context text_files
begin

lemma web_run:
  assumes "web_inv fopen s0 \<and> loop_inv s0" and "run_ok (loop_step (render_cqe fopen)) one_request acts s0"
  shows "\<exists>s. run_steps (loop_step (render_cqe fopen)) acts s0 = Some s \<and> web_inv fopen s \<and> loop_inv s"
  using web.loop.inv_run [OF assms] .

end

text \<open>A directory with the names and contents of its files.\<close>

definition directory :: "(byte list \<times> byte list) list \<Rightarrow> byte list \<Rightarrow> byte list option" where
  "directory fs f = map_of (filter (\<lambda>(name, content). 0 \<notin> set content) fs) f"

interpretation site: text_files "directory fs"
  by unfold_locales (auto simp: directory_def dest: map_of_SomeD)

lemma start_web:
  assumes "n_start sockfd = Some s0"
  shows "web_inv fopen s0 \<and> loop_inv s0"
proof -
  have "served_pages fopen s0 [] []"
    using assms by (auto simp: n_start_def n_accept_def n_take_def served_pages_def split: if_splits)
  moreover have "wf_requests s0 \<and> loop_inv s0" using start_echo [OF assms] by (simp add: echo_inv_def)
  moreover have "tokens send_of (nsq s0 @ nreqs s0) = {#}"
    using assms by (auto simp: n_start_def n_accept_def n_take_def empty_entry_def split: if_splits)
  ultimately show ?thesis by (auto simp: web_inv_def)
qed

section \<open>Properties\<close>

text \<open>Claim C13: socket_uring.c as a file server. In every run in which the files have no NUL byte, every
  request comes in one piece with a path and a space behind it, and each is handled before the next
  one is received, the server stays inside its buffers and its submission queue: each request is
  answered on its own descriptor with the header and the contents of the file below the server
  directory that its path names, up to a question mark, or with the 404 header when that cannot be
  opened; the answers, as handed to \<open>send\<close>, are in the order of the requests, a descriptor is closed
  once, when it has been answered, and a request is unanswered only while its completion waits. The
  path is used as it comes, with whatever \<open>..\<close> it contains.\<close>

theorem web_server_serves:
  assumes "text_files fopen" and "n_start sockfd = Some s0"
    and "run_ok (loop_step (render_cqe fopen)) one_request acts s0"
  shows "\<exists>s answered left. run_steps (loop_step (render_cqe fopen)) acts s0 = Some s \<and>
    nheard s = answered @ left \<and> nsent s = map (\<lambda>(fd, req). (fd, page fopen (path_of req))) answered \<and>
    nclosed s = map fst answered \<and> length left \<le> 1 \<and> (ncq s = [] \<longrightarrow> left = []) \<and> length (nsq s) + 2 \<le> RING_LEN"
proof -
  obtain s where s: "run_steps (loop_step (render_cqe fopen)) acts s0 = Some s" "web_inv fopen s" "loop_inv s"
    using text_files.web_run [OF assms(1) start_web [OF assms(2)] assms(3)] by blast
  moreover have "length (nsq s) + 2 \<le> RING_LEN"
    using s(3) by (auto simp: loop_inv_def CQE_LEN_def RING_LEN_def split: loop_pc.splits)
  moreover obtain answered left where p: "served_pages fopen s answered left" using s(2) by (auto simp: web_inv_def)
  moreover have "left = []" if "ncq s = []" using p that by (auto simp: served_pages_def)
  ultimately show ?thesis by (intro exI [of _ s] exI [of _ answered] exI [of _ left]) (simp add: served_pages_def)
qed

definition demo_get :: "byte list" where
  "demo_get = bytes_of ''GET /a?b HTTP/1.1''"

definition demo_visit :: "nact list" where
  "demo_visit = [Runs, Completes (N_Accept 3) (3, EVENT_ACCEPT) 5 [], Runs, Runs, Runs, Runs,
     Completes (N_Recv 5 MAXLINE) (5, EVENT_READ) (int (length demo_get)) demo_get, Runs, Runs]"

lemmas demo_visit_simps = n_start_def demo_visit_def loop_simps render_cqe_def empty_entry_def RING_LEN_def
  CQE_LEN_def MAXLINE_def

lemma demo_visit_ok:
  "\<exists>s0. n_start 3 = Some s0 \<and> run_ok (loop_step (render_cqe fopen)) one_request demo_visit s0"
proof -
  have "request_ok demo_get" "length demo_get = 17" by code_simp+
  then show ?thesis by (simp add: demo_visit_simps split: option.splits)
qed

lemma demo_visit_end:
  assumes "n_start 3 = Some s0" and "run_steps (loop_step (render_cqe fopen)) demo_visit s0 = Some s"
  shows "nheard s = [(5, demo_get)] \<and> ncq s = []"
proof -
  have "length demo_get = 17" by code_simp
  then show ?thesis using assms by (auto simp: demo_visit_simps n_close_def split: bind_splits)
qed

theorem web_server_serves_witness:
  "\<exists>s0 s. n_start 3 = Some s0 \<and>
     run_steps (loop_step (render_cqe (directory [(bytes_of ''.//a'', [65])]))) demo_visit s0 = Some s \<and>
     nsent s = [(5, OK_200 @ [65])] \<and> nclosed s = [5]"
proof -
  let ?f = "directory [(bytes_of ''.//a'', [65])]"
  obtain s0 where s0: "n_start 3 = Some s0" "run_ok (loop_step (render_cqe ?f)) one_request demo_visit s0"
    using demo_visit_ok by blast
  have "page ?f (path_of demo_get) = OK_200 @ [65]" by code_simp
  with web_server_serves [OF site.text_files_axioms s0] s0(1) demo_visit_end [OF s0(1), of ?f] show ?thesis
    by fastforce
qed

text \<open>Further: a request that is in the buffer is answered, also when the bytes behind it are those of
  older requests: \<open>render\<close> stays inside the buffer and the array for the name, which it cannot fill.\<close>

theorem render_serves_path:
  assumes "text_files fopen" and "request_ok req" and "take (length req) buf = req" and "length buf = MAXLINE"
  shows "\<exists>buf'. render fopen buf = Some (buf', page fopen (path_of req)) \<and> length buf' = MAXLINE \<and>
    take 4 buf' = take 4 buf"
proof -
  obtain rest where "render fopen buf = Some (take 4 buf @ path_of req @ 0 # rest, page fopen (path_of req))"
    "length (take 4 buf @ path_of req @ 0 # rest) = MAXLINE"
    using render_request [OF assms(2-4)] text_files.no_nul [OF assms(1)] by blast
  then show ?thesis using assms(4) by (simp add: MAXLINE_def)
qed

theorem render_serves_path_witness:
  "\<exists>buf'. render (directory [(bytes_of ''.//a'', [65])]) (demo_get @ replicate (MAXLINE - 17) 7) =
     Some (buf', OK_200 @ [65])"
proof -
  have d: "request_ok demo_get" "length demo_get = 17" "page (directory [(bytes_of ''.//a'', [65])]) (path_of demo_get) = OK_200 @ [65]"
    by code_simp+
  have "length (demo_get @ replicate (MAXLINE - 17) 7) = MAXLINE" using d(2) by (simp add: MAXLINE_def)
  from render_serves_path [OF site.text_files_axioms d(1) _ this, of "[(bytes_of ''.//a'', [65])]"] show ?thesis
    using d(3) by auto
qed

text \<open>Further: the file server mixes up its clients too. When a second request arrives before the first
  is handled, both clients get the page of the second. \<open>strtok\<close> has cut the request in the buffer,
  but at the end of the path.\<close>

lemma render_again:
  assumes "text_files fopen" and "path \<noteq> []" and "SP \<notin> set path" and "QM \<notin> set path" and "0 \<notin> set path"
    and "length (take 4 buf @ path @ 0 # rest) = MAXLINE" and "4 \<le> length buf"
  shows "\<exists>buf'. render fopen (take 4 buf @ path @ 0 # rest) = Some (buf', page fopen path)"
proof -
  have "drop 4 (take 4 buf @ path @ 0 # rest) = path @ 0 # rest" using assms(7) by simp
  moreover have "takeWhile (\<lambda>c. c \<noteq> QM) path = path" using assms(4) by (auto simp: takeWhile_eq_all_conv)
  note this [symmetric]
  ultimately obtain buf' where "render_path (take 4 buf @ path @ 0 # rest) = Some (buf', bytes_of ''./'' @ path)"
    using render_path_word [OF _ disjI2 [OF refl] assms(3,5) _ assms(2,6)] by blast
  then show ?thesis using text_files.no_nul [OF assms(1)]
    by (auto simp: render_def page_def sent_chunks split: option.splits)
qed

theorem web_server_mixes_clients:
  assumes "text_files fopen" and "npc s = At_Wait" and "ncq s = []" and "length (nbuf s) = MAXLINE"
    and "xs \<noteq> []" and "length xs \<le> MAXLINE" and "request_ok bs" and "length bs \<le> MAXLINE"
  shows "\<exists>s'. run_steps (loop_step (render_cqe fopen))
      [Completes (N_Recv a MAXLINE) (a, EVENT_READ) (int (length xs)) xs,
       Completes (N_Recv b MAXLINE) (b, EVENT_READ) (int (length bs)) bs, Runs, Runs, Runs] s = Some s' \<and>
    nsent s' = nsent s @ [(a, page fopen (path_of bs)), (b, page fopen (path_of bs))]"
proof -
  define buf where "buf = bs @ drop (length bs) (xs @ drop (length xs) (nbuf s))"
  have ne: "bs \<noteq> []" using assms(7) by (auto simp: request_ok_def)
  have len: "length buf = MAXLINE" using assms(4,6,8) by (simp add: buf_def)
  obtain rest where r: "render fopen buf = Some (take 4 buf @ path_of bs @ 0 # rest, page fopen (path_of bs))"
    "length (take 4 buf @ path_of bs @ 0 # rest) = MAXLINE"
    using render_request [OF assms(7) _ len, of fopen] text_files.no_nul [OF assms(1)] by (auto simp: buf_def)
  have p: "path_of bs \<noteq> []" "SP \<notin> set (path_of bs)" "QM \<notin> set (path_of bs)" "0 \<notin> set (path_of bs)"
    using assms(7) by (auto simp: request_ok_def path_of_def url_of_def dest!: set_takeWhileD)
  obtain buf' where "render fopen (take 4 buf @ path_of bs @ 0 # rest) = Some (buf', page fopen (path_of bs))"
    using render_again [OF assms(1) p r(2)] len by (auto simp: MAXLINE_def)
  then show ?thesis using r(1) [unfolded buf_def] assms(2,3,5) ne
    by (simp add: buf_def loop_step_def loop_next_def n_complete_def render_cqe_def n_close_def CQE_LEN_def Let_def)
qed

theorem web_server_mixes_clients_witness:
  "\<exists>s s' acts. run_steps (loop_step (render_cqe (directory [(bytes_of ''.//a'', [65])]))) acts s = Some s' \<and>
     nsent s' = [(5, OK_200 @ [65]), (6, OK_200 @ [65])]"
proof -
  let ?s = "\<lparr>nbuf = replicate MAXLINE 0, npc = At_Wait, nsq = [],
    nreqs = [(N_Recv 5 MAXLINE, 5, EVENT_READ), (N_Recv 6 MAXLINE, 6, EVENT_READ)], ncq = [], nclosed = [],
    nheard = [], nsent = []\<rparr>"
  have d: "request_ok demo_get" "length demo_get = 17" "page (directory [(bytes_of ''.//a'', [65])]) (path_of demo_get) = OK_200 @ [65]"
    by code_simp+
  have "length demo_get \<le> MAXLINE" "length (nbuf ?s) = MAXLINE" "length [65 :: byte] \<le> MAXLINE"
    using d(2) by (simp_all add: MAXLINE_def)
  from web_server_mixes_clients [OF site.text_files_axioms [of "[(bytes_of ''.//a'', [65])]"] _ _ this(2) _ this(3) d(1) this(1), where a = 5 and b = 6] d(3) show ?thesis
    by fastforce
qed

text \<open>Further: a request that fills the buffer and has neither a space nor a NUL behind its verb sends
  \<open>strtok\<close> past the end of the array.\<close>

theorem render_overreads:
  assumes "\<forall>c \<in> set (drop 4 buf). c \<noteq> 0 \<and> c \<noteq> SP"
  shows "render fopen buf = None"
proof -
  have "takeWhile (\<lambda>c. c = SP) (drop 4 buf) = []" using assms by (cases "drop 4 buf") auto
  moreover have "takeWhile (\<lambda>c. c \<noteq> SP \<and> c \<noteq> 0) (drop 4 buf) = drop 4 buf"
    using assms by (auto simp: takeWhile_eq_all_conv)
  then have "length (takeWhile (\<lambda>c. c \<noteq> SP \<and> c \<noteq> 0) (drop 4 buf)) = length (drop 4 buf)" by (rule arg_cong)
  ultimately have "strtok SP (drop 4 buf) = None" by (simp add: strtok_def Let_def)
  then show ?thesis by (simp add: render_def render_path_def)
qed

theorem render_overreads_witness: "render (\<lambda>f. None) (replicate MAXLINE 65) = None"
  by (rule render_overreads) (simp add: MAXLINE_def)

text \<open>Further: socket_uring.c closes a descriptor only after answering on it; one whose client
  goes away, or whose receive fails, stays open with nothing queued for it.\<close>

theorem render_server_leaks_descriptor:
  "res \<le> 0 \<Longrightarrow> render_cqe fopen (fd, EVENT_READ) res s = Some s"
  by (auto simp: render_cqe_def)

theorem render_server_leaks_descriptor_witness: "\<forall>s. render_cqe (\<lambda>f. None) (5, EVENT_READ) 0 s = Some s"
  by (simp add: render_server_leaks_descriptor)

end
