(* ===== verification/Aio.thy ===== *)
theory Aio
  imports Traces
begin

text \<open>
  The asynchronous read of src/aio/aio.c: one read of 4096 bytes through libaio into a block of
  1024, its completion signalled on an eventfd that an endless epoll loop watches. The results of
  the set-up calls are what the environment gives, and one round of the loop is a function of what
  its calls return. What they return in a run is decided by the kernel: it may complete the request
  before any round or never, an eventfd is readable while its counter is not zero, and
  \<open>epoll_wait\<close> may be interrupted. \<open>None\<close> is a run that writes or reads outside the block.
\<close>

section \<open>Model\<close>

definition AIO_BUF_SIZE :: nat where "AIO_BUF_SIZE = 4096"
definition AIO_BLOCK :: nat where "AIO_BLOCK = 1024"
definition AIO_MAX_EVENTS :: nat where "AIO_MAX_EVENTS = 1"
definition EXIT_FAILURE :: int where "EXIT_FAILURE = 1"

text \<open>The calls before the loop: what each returns, the file, and what the block from
  \<open>posix_memalign\<close> held. The results of \<open>posix_memalign\<close>, \<open>eventfd\<close> and \<open>epoll_create\<close> are not
  looked at.\<close>

record aio_env =
  io_setup_ret :: int
  open_ret :: int
  io_submit_ret :: int
  epoll_ctl_ret :: int
  content :: "byte list"
  stale :: "byte list"

text \<open>One return of \<open>epoll_wait\<close>: its result, for each event whether \<open>EPOLLIN\<close> is set, the result
  of reading the eventfd with the counter, and the results of the requests \<open>io_getevents\<close>
  delivers (its return value is their number, or negative).\<close>

record wake =
  wait_ret :: int
  epollin :: "bool list"
  efd_read :: "int \<times> u64"
  getevents_ret :: int
  completed :: "int list"

datatype aio_out =
    Epoll_ret int
  | Ret2 int u64
  | Read_failure
  | Ret3 int
  | Bytes_read int
  | Results "byte list"

text \<open>The request block and its buffer when the loop is entered: \<open>memset(buf, 0, sizeof(buf))\<close>
  clears as many bytes as a pointer has.\<close>

definition aio_buffer :: "byte list \<Rightarrow> byte list" where
  "aio_buffer old = replicate 8 0 @ drop 8 old"

definition aio_start :: "aio_env \<Rightarrow> int + byte list" where
  "aio_start env =
     (if io_setup_ret env < 0 then Inl EXIT_FAILURE
      else if open_ret env < 0 then Inl EXIT_FAILURE
      else if io_submit_ret env < 0 then Inl (-1)
      else if epoll_ctl_ret env = -1 then Inl EXIT_FAILURE
      else Inr (aio_buffer (stale env)))"

text \<open>The kernel's side of the request: up to 4096 bytes of the file go to the block.\<close>

definition aio_transfer :: "byte list \<Rightarrow> byte list \<Rightarrow> (int \<times> byte list) option" where
  "aio_transfer data buf =
     (let bytes = take AIO_BUF_SIZE data
      in map_option (\<lambda>b. (int (length bytes), b)) (st_bytes buf 0 bytes))"

text \<open>The loop over the delivered results; a positive one prints the block as a C string.\<close>

fun show_events :: "byte list \<Rightarrow> int list \<Rightarrow> aio_out list option" where
  "show_events buf [] = Some []"
| "show_events buf (res # rest) = do {
     out \<leftarrow> (if res > 0 then do { str \<leftarrow> cstr buf; Some [Bytes_read res, Results str] } else Some [Bytes_read res]);
     outs \<leftarrow> show_events buf rest;
     Some (out @ outs) }"

text \<open>One event of the epoll set, and one round of the loop.\<close>

definition aio_event :: "byte list \<Rightarrow> wake \<Rightarrow> bool \<Rightarrow> aio_out list option" where
  "aio_event buf w ready =
     (if \<not> ready then Some []
      else case efd_read w of (ret2, counter) \<Rightarrow>
        if ret2 < 0 then Some [Ret2 ret2 counter, Read_failure]
        else if getevents_ret w > 0
          then map_option (\<lambda>outs. [Ret2 ret2 counter, Ret3 (getevents_ret w)] @ outs)
            (show_events buf (take (nat (getevents_ret w)) (completed w)))
          else Some [Ret2 ret2 counter, Ret3 (getevents_ret w)])"

fun aio_for :: "byte list \<Rightarrow> wake \<Rightarrow> bool list \<Rightarrow> aio_out list option" where
  "aio_for buf w [] = Some []"
| "aio_for buf w (e # es) = do { o1 \<leftarrow> aio_event buf w e; o2 \<leftarrow> aio_for buf w es; Some (o1 @ o2) }"

definition aio_round :: "byte list \<Rightarrow> wake \<Rightarrow> aio_out list option" where
  "aio_round buf w =
     map_option (\<lambda>outs. Epoll_ret (wait_ret w) # outs) (aio_for buf w (take (nat (wait_ret w)) (epollin w)))"

text \<open>The kernel and the loop: the block, whether the request is under way, the counter of the eventfd,
  the results that \<open>io_getevents\<close> has not delivered, and what the program has printed.\<close>

record aio_state =
  a_block :: "byte list"
  a_pending :: bool
  a_count :: u64
  a_done :: "int list"
  a_out :: "aio_out list"

text \<open>What happens: the kernel completes the request; the loop makes a round in which \<open>epoll_wait\<close>
  reports the eventfd or times out; or one in which it is interrupted.\<close>

datatype aio_act = Transfer | Round | Interrupt

definition wake_of :: "aio_state \<Rightarrow> wake" where
  "wake_of st =
     (if a_count st = 0
      then \<lparr>wait_ret = 0, epollin = [], efd_read = (-1, 0), getevents_ret = 0, completed = []\<rparr>
      else let got = take AIO_MAX_EVENTS (a_done st)
           in \<lparr>wait_ret = 1, epollin = [True], efd_read = (8, a_count st), getevents_ret = int (length got),
               completed = got\<rparr>)"

definition interrupted :: wake where
  "interrupted = \<lparr>wait_ret = -1, epollin = [], efd_read = (-1, 0), getevents_ret = 0, completed = []\<rparr>"

fun aio_step :: "aio_env \<Rightarrow> aio_act \<Rightarrow> aio_state \<Rightarrow> aio_state option" where
  "aio_step env Transfer st = do {
     (res, buf) \<leftarrow> aio_transfer (content env) (a_block st);
     Some (st\<lparr>a_block := buf, a_pending := False, a_count := a_count st + 1, a_done := a_done st @ [res]\<rparr>) }"
| "aio_step env Round st = do {
     outs \<leftarrow> aio_round (a_block st) (wake_of st);
     Some (st\<lparr>a_out := a_out st @ outs, a_count := 0,
       a_done := if a_count st = 0 then a_done st else drop AIO_MAX_EVENTS (a_done st)\<rparr>) }"
| "aio_step env Interrupt st = do {
     outs \<leftarrow> aio_round (a_block st) interrupted;
     Some (st\<lparr>a_out := a_out st @ outs\<rparr>) }"


definition aio_enter :: "aio_env \<Rightarrow> byte list \<Rightarrow> aio_state" where
  "aio_enter env buf = \<lparr>a_block = buf, a_pending = (0 < io_submit_ret env), a_count = 0, a_done = [], a_out = []\<rparr>"

text \<open>\<open>main\<close> up to any point of its endless loop.\<close>

definition aio_main :: "aio_env \<Rightarrow> aio_act list \<Rightarrow> int + aio_out list option" where
  "aio_main env acts =
     (case aio_start env of
        Inl st \<Rightarrow> Inl st
      | Inr buf \<Rightarrow> Inr (map_option a_out (run_steps (aio_step env) acts (aio_enter env buf))))"

section \<open>One request\<close>











section \<open>Properties\<close>


definition demo_aio :: aio_env where
  "demo_aio = \<lparr>io_setup_ret = 0, open_ret = 3, io_submit_ret = 1, epoll_ctl_ret = 0, content = bytes_of ''hello'',
     stale = replicate AIO_BLOCK 7\<rparr>"


text \<open>Further: a file of more than 1024 bytes overruns the block: the read asks for 4096 bytes and
  the block has 1024, so that its completion writes behind it.\<close>

theorem aio_overruns_block:
  assumes "aio_start env = Inr buf" and "length (stale env) = AIO_BLOCK" and "AIO_BLOCK < length (content env)"
  shows "aio_main env [Transfer] = Inr None"
proof -
  have "length buf = AIO_BLOCK"
    using assms(1,2) by (auto simp: aio_start_def aio_buffer_def AIO_BLOCK_def split: if_splits)
  then show ?thesis
    using assms(1,3) by (simp add: aio_main_def aio_enter_def aio_transfer_def st_bytes_def AIO_BLOCK_def AIO_BUF_SIZE_def Let_def min_def)
qed

theorem aio_overruns_block_witness:
  "aio_main (demo_aio\<lparr>content := replicate 1025 65\<rparr>) [Transfer] = Inr None"
  by (rule aio_overruns_block [of _ "aio_buffer (replicate AIO_BLOCK 7)"])
     (simp_all add: demo_aio_def aio_start_def AIO_BLOCK_def)

end
