(* ===== verification/Kmodule.thy ===== *)
theory Kmodule
  imports Prelude "HOL-Library.Multiset"
begin

text \<open>
  What the kernel modules of the repository share: the life of a module between \<open>module_init\<close>
  and \<open>module_exit\<close>, and the part of the kernel interface they call. Kernel objects (device
  numbers, classes, character devices, proc entries, network devices, queues) are counted in
  a multiset of what is registered. The calls themselves are parameters, collected in a
  record, with the documented behaviour as the laws of the locale \<open>chr_kernel\<close>.
\<close>

section \<open>Loading and unloading\<close>

text \<open>One attempt at loading, with the unloading when it succeeded: the kernel does not call the
  exit function of a module whose initialisation failed.\<close>

definition load_unload :: "('s \<Rightarrow> (int \<times> 'g) \<times> 's) \<Rightarrow> ('g \<Rightarrow> 's \<Rightarrow> 's) \<Rightarrow> 's \<Rightarrow> 's" where
  "load_unload init quit s = (case init s of ((ret, g), s') \<Rightarrow> if ret = 0 then quit g s' else s')"

definition loads :: "('s \<Rightarrow> (int \<times> 'g) \<times> 's) \<Rightarrow> 's \<Rightarrow> bool" where
  "loads init s \<longleftrightarrow> fst (fst (init s)) = 0"

text \<open>A module whose exit gives back everything its successful initialisation took can be
  loaded and unloaded any number of times.\<close>

locale kernel_module =
  fixes init :: "'s \<Rightarrow> (int \<times> 'g) \<times> 's"
    and quit :: "'g \<Rightarrow> 's \<Rightarrow> 's"
    and held :: "'s \<Rightarrow> 'o multiset"
  assumes init_quit: "init s = ((0, g), s') \<Longrightarrow> held (quit g s') = held s"
begin

lemma cycle_ok: "loads init s \<Longrightarrow> held (load_unload init quit s) = held s"
  using init_quit by (auto simp: load_unload_def loads_def split: prod.splits)

lemma cycles_ok:
  "(\<And>k. k < n \<Longrightarrow> loads init ((load_unload init quit ^^ k) s)) \<Longrightarrow>
    held ((load_unload init quit ^^ n) s) = held s"
  by (induction n) (simp_all add: cycle_ok)

end

text \<open>When a failing initialisation keeps nothing either, no condition is left.\<close>

locale clean_module = kernel_module +
  assumes init_fails: "init s = ((ret, g), s') \<Longrightarrow> ret \<noteq> 0 \<Longrightarrow> held s' = held s"
begin

lemma cycle_clean: "held (load_unload init quit s) = held s"
  using init_quit init_fails by (auto simp: load_unload_def split: prod.splits)

lemma cycles_clean: "held ((load_unload init quit ^^ n) s) = held s"
  by (induction n) (simp_all add: cycle_clean)

end

section \<open>Character devices\<close>

type_synonym dev_t = u32
type_synonym class_ptr = u64

text \<open>Registered objects: a range of device numbers, a class, a cdev, a device node, and a major
  number taken by the old \<open>register_chrdev\<close>.\<close>

datatype kobj = Region dev_t | Class class_ptr | Cdev dev_t | Device class_ptr dev_t | Major nat

record 's chr_api =
  alloc_chrdev_region :: "'s \<Rightarrow> (int \<times> dev_t) \<times> 's"
  unregister_chrdev_region :: "dev_t \<Rightarrow> 's \<Rightarrow> 's"
  class_create :: "'s \<Rightarrow> class_ptr \<times> 's"
  class_destroy :: "class_ptr \<Rightarrow> 's \<Rightarrow> 's"
  cdev_add :: "dev_t \<Rightarrow> 's \<Rightarrow> int \<times> 's"
  cdev_del :: "dev_t \<Rightarrow> 's \<Rightarrow> 's"
  device_create :: "class_ptr \<Rightarrow> dev_t \<Rightarrow> 's \<Rightarrow> 's"
  device_destroy :: "class_ptr \<Rightarrow> dev_t \<Rightarrow> 's \<Rightarrow> 's"
  register_chrdev :: "nat \<Rightarrow> 's \<Rightarrow> int \<times> 's"
  unregister_chrdev :: "nat \<Rightarrow> 's \<Rightarrow> 's"

text \<open>
  The laws: a failing call registers nothing, a successful one registers its object, and the
  opposite call takes that object away and nothing else. Device numbers and cdevs may be
  refused; there is always memory for classes and device nodes, whose results the modules do
  not look at. A dynamic major number (\<open>register_chrdev\<close> with 0) is not 0.
\<close>

locale chr_kernel =
  fixes api :: "'s chr_api" and held :: "'s \<Rightarrow> kobj multiset"
  assumes alloc_region: "alloc_chrdev_region api s = ((ret, d), s') \<Longrightarrow>
      ret \<le> 0 \<and> held s' = held s + (if ret < 0 then {#} else {#Region d#})"
    and free_region: "held (unregister_chrdev_region api d s) = held s - {#Region d#}"
    and create_class: "class_create api s = (c, s') \<Longrightarrow> held s' = held s + {#Class c#}"
    and destroy_class: "held (class_destroy api c s) = held s - {#Class c#}"
    and add_cdev: "cdev_add api d s = (ret, s') \<Longrightarrow>
      ret \<le> 0 \<and> held s' = held s + (if ret < 0 then {#} else {#Cdev d#})"
    and del_cdev: "held (cdev_del api d s) = held s - {#Cdev d#}"
    and create_device: "held (device_create api c d s) = held s + {#Device c d#}"
    and destroy_device: "held (device_destroy api c d s) = held s - {#Device c d#}"
    and register_major: "register_chrdev api 0 s = (m, s') \<Longrightarrow>
      m \<noteq> 0 \<and> held s' = held s + (if m < 0 then {#} else {#Major (nat m)#})"
    and unregister_major: "held (unregister_chrdev api k s) = held s - {#Major k#}"

text \<open>The instance the witnesses run on: a kernel that keeps the registered objects themselves
  and can be told to refuse new device numbers or new cdevs.\<close>

record kreg =
  kobjs :: "kobj multiset"
  next_dev :: dev_t
  next_class :: class_ptr
  no_region :: bool
  no_cdev :: bool

definition kreg_add :: "kobj \<Rightarrow> kreg \<Rightarrow> kreg" where
  "kreg_add x = kobjs_update (add_mset x)"

definition kreg_del :: "kobj \<Rightarrow> kreg \<Rightarrow> kreg" where
  "kreg_del x = kobjs_update (\<lambda>M. M - {#x#})"

definition kreg_api :: "kreg chr_api" where
  "kreg_api = \<lparr>
     alloc_chrdev_region = (\<lambda>s. if no_region s then ((-16, 0), s)
        else ((0, next_dev s), (kreg_add (Region (next_dev s)) s)\<lparr>next_dev := next_dev s + 2 ^ 20\<rparr>)),
     unregister_chrdev_region = (\<lambda>d. kreg_del (Region d)),
     class_create = (\<lambda>s. (next_class s, (kreg_add (Class (next_class s)) s)\<lparr>next_class := next_class s + 64\<rparr>)),
     class_destroy = (\<lambda>c. kreg_del (Class c)),
     cdev_add = (\<lambda>d s. if no_cdev s then (-12, s) else (0, kreg_add (Cdev d) s)),
     cdev_del = (\<lambda>d. kreg_del (Cdev d)),
     device_create = (\<lambda>c d. kreg_add (Device c d)),
     device_destroy = (\<lambda>c d. kreg_del (Device c d)),
     register_chrdev = (\<lambda>m s. if no_region s then (-16, s) else (234, kreg_add (Major 234) s)),
     unregister_chrdev = (\<lambda>m. kreg_del (Major m))\<rparr>"

definition kreg_fresh :: kreg where
  "kreg_fresh = \<lparr>kobjs = {#}, next_dev = 0x0ea00000, next_class = 4096, no_region = False, no_cdev = False\<rparr>"

interpretation kreg: chr_kernel kreg_api kobjs
  by unfold_locales (auto simp: kreg_api_def kreg_add_def kreg_del_def split: if_splits)

end
