(* ===== verification/Chardev.thy ===== *)
theory Chardev
  imports Kmodule
begin

text \<open>
  The character-device modules and the programs that use them: src/driver_demo/driver_demo.c,
  src/driver_demo/driver_demo_new.c with src/driver_demo/main.c, and src/ioctl/ioctl_demo.c with
  src/ioctl/main.c. The file operations of the two driver modules have the same text.

  Copying between kernel and user space is a parameter: \<open>cfu n\<close> is
  \<open>copy_from_user(to, from, n)\<close> for the pointer the caller passed, with the number of bytes not
  copied and the \<open>n\<close> bytes of the destination; \<open>ctu bs\<close> is \<open>copy_to_user\<close>, with the number of bytes
  not copied and the user memory behind the pointer afterwards. \<open>Oops\<close> is an access outside
  every object, by which the kernel stops the caller.
\<close>

section \<open>Copying from and to user space\<close>

datatype 'a kresult = Oops | Done 'a

definition EFAULT :: int where "EFAULT = 14"
definition ENOMEM :: int where "ENOMEM = 12"
definition ENOTTY :: int where "ENOTTY = 25"

text \<open>The documented behaviour, for user memory whose readable (writable) part is \<open>user\<close>: as
  many bytes are copied as the routine gets at, all of them when all are accessible, and the
  rest of a kernel buffer is filled with zeros.\<close>

definition reads_user :: "byte list \<Rightarrow> (nat \<Rightarrow> nat \<times> byte list) \<Rightarrow> bool" where
  "reads_user user cfu \<longleftrightarrow> (\<forall>n. \<exists>k. k \<le> n \<and> k \<le> length user \<and> (n \<le> length user \<longrightarrow> k = n) \<and>
     cfu n = (n - k, take k user @ replicate (n - k) 0))"

definition writes_user :: "byte list \<Rightarrow> (byte list \<Rightarrow> nat \<times> byte list) \<Rightarrow> bool" where
  "writes_user user ctu \<longleftrightarrow> (\<forall>bs. \<exists>k. k \<le> length bs \<and> k \<le> length user \<and>
     (length bs \<le> length user \<longrightarrow> k = length bs) \<and>
     ctu bs = (length bs - k, take k bs @ drop k user))"

definition user_read :: "byte list \<Rightarrow> nat \<Rightarrow> nat \<times> byte list" where
  "user_read user n = (n - length user, take n user @ replicate (n - length user) 0)"

definition user_write :: "byte list \<Rightarrow> byte list \<Rightarrow> nat \<times> byte list" where
  "user_write user bs =
     (length bs - length user, take (length user) bs @ drop (length bs) user)"

lemma reads_user_read: "reads_user user (user_read user)"
  unfolding reads_user_def user_read_def
  by (intro allI, rule_tac x = "min n (length user)" in exI) (auto simp: min_def)

lemma writes_user_write: "writes_user user (user_write user)"
  unfolding writes_user_def user_write_def
  by (intro allI, rule_tac x = "min (length bs) (length user)" in exI) (auto simp: min_def)

text \<open>The conversion of the returned \<open>unsigned long\<close> to the variable \<open>int ret\<close>.\<close>

definition int_of_ulong :: "nat \<Rightarrow> int" where
  "int_of_ulong n = sint (word_of_nat n :: 32 word)"

lemma int_of_ulong_nonneg: "n < 2 ^ 31 \<Longrightarrow> int_of_ulong n = int n"
  by (simp add: int_of_ulong_def sint_uint signed_take_bit_int_eq_self unsigned_of_nat
      take_bit_nat_eq_self)

section \<open>The driver: write and read\<close>

text \<open>\<open>device_write\<close>: \<open>kmalloc\<close> says whether a size can be allocated. The result is the return value
  and the string that is logged, when one is.\<close>

definition device_write ::
  "(u64 \<Rightarrow> bool) \<Rightarrow> (nat \<Rightarrow> nat \<times> byte list) \<Rightarrow> u64 \<Rightarrow> (int \<times> byte list option) kresult" where
  "device_write kmalloc cfu len =
     (let size = len + 1; data = replicate (unat size) 0 in
      if \<not> kmalloc size \<and> size \<noteq> 0 then Oops
      else if \<not> kmalloc size then Done (- ENOMEM, None)
      else case cfu (unat len) of (left, bytes) \<Rightarrow>
        (case st_bytes data 0 bytes of
           None \<Rightarrow> Oops
         | Some data' \<Rightarrow>
             if int_of_ulong left < 0 then Done (- EFAULT, None)
             else (case st_bytes data' (unat len) [0] of
                 None \<Rightarrow> Oops
               | Some data'' \<Rightarrow>
                   (case cstr data'' of
                      None \<Rightarrow> Oops
                    | Some text \<Rightarrow> Done (sint len, Some text)))))"

text \<open>\<open>device_read\<close>: the return value and the user memory afterwards.\<close>

definition device_read :: "(byte list \<Rightarrow> nat \<times> byte list) \<Rightarrow> u64 \<Rightarrow> int \<times> byte list" where
  "device_read ctu len =
     (case ctu (bytes_of ''derek sunder'') of (left, user) \<Rightarrow>
        if int_of_ulong left < 0 then (- EFAULT, user) else (sint len, user))"

text \<open>\<open>main\<close> of driver_demo/main.c over a device: \<open>wr\<close> and \<open>rd\<close> are the \<open>write\<close> and \<open>read\<close> calls on the
  descriptor, \<open>rd\<close> given the 8192-byte buffer, whose first \<open>sizeof(char *)\<close> bytes are cleared.
  The result is the exit status and the string printed; \<open>None\<close> is a NULL from \<open>malloc\<close> or a
  missing NUL at the end of the buffer.\<close>

definition driver_main ::
  "int \<Rightarrow> byte list option \<Rightarrow> (byte list \<Rightarrow> int) \<Rightarrow> (byte list \<Rightarrow> u64 \<Rightarrow> int \<times> byte list) \<Rightarrow>
     (int \<times> byte list option) option" where
  "driver_main fd read_msg wr rd =
     (if fd < 0 then Some (-1, None)
      else case read_msg of
          None \<Rightarrow> None
        | Some junk \<Rightarrow>
            (let buf = replicate 8 0 @ drop 8 junk;
                 _ = wr (bytes_of ''This is from user space!'');
                 (_, buf') = rd buf 1024
             in map_option (\<lambda>text. (0, Some text)) (cstr buf')))"

section \<open>The driver: registration\<close>

text \<open>The old interface: the major number that is returned is dropped.\<close>

definition driver_init :: "'s chr_api \<Rightarrow> 's \<Rightarrow> (int \<times> unit) \<times> 's" where
  "driver_init api s = (case register_chrdev api 0 s of (_, s') \<Rightarrow> ((0, ()), s'))"

definition driver_exit :: "'s chr_api \<Rightarrow> unit \<Rightarrow> 's \<Rightarrow> 's" where
  "driver_exit api g s = unregister_chrdev api 0 s"

text \<open>The static variables of the new modules.\<close>

record chr_globals =
  dev_num :: dev_t
  driver_class :: class_ptr

definition new_init :: "'s chr_api \<Rightarrow> 's \<Rightarrow> (int \<times> chr_globals) \<times> 's" where
  "new_init api s =
     (case alloc_chrdev_region api s of ((r, num), s1) \<Rightarrow>
        if r < 0 then ((-1, \<lparr>dev_num = num, driver_class = 0\<rparr>), s1)
        else (case class_create api s1 of (cls, s2) \<Rightarrow>
          (case cdev_add api num s2 of (ret, s3) \<Rightarrow>
             if ret \<noteq> 0 then ((ret, \<lparr>dev_num = num, driver_class = cls\<rparr>), s3)
             else ((0, \<lparr>dev_num = num, driver_class = cls\<rparr>), device_create api cls num s3))))"

definition new_exit :: "'s chr_api \<Rightarrow> chr_globals \<Rightarrow> 's \<Rightarrow> 's" where
  "new_exit api g s =
     (let s = unregister_chrdev_region api (dev_num g) s;
          s = device_destroy api (driver_class g) (dev_num g) s;
          s = cdev_del api (dev_num g) s
      in class_destroy api (driver_class g) s)"

section \<open>The ioctl device\<close>

text \<open>\<open>_IOC(dir, type, nr, size)\<close> of the kernel headers, with \<open>_IOW\<close> and \<open>_IOR\<close> of an \<open>int\<close>.\<close>

definition IOC :: "u32 \<Rightarrow> u32 \<Rightarrow> u32 \<Rightarrow> u32 \<Rightarrow> u32" where
  "IOC dir type nr sz = push_bit 30 dir OR push_bit 8 type OR nr OR push_bit 16 sz"

definition MY_IOCTL_MAGIC :: u32 where "MY_IOCTL_MAGIC = of_char CHR ''k''"
definition MY_IOCTL_SET_STATUS :: u32 where "MY_IOCTL_SET_STATUS = IOC 1 MY_IOCTL_MAGIC 1 4"
definition MY_IOCTL_GET_STATUS :: u32 where "MY_IOCTL_GET_STATUS = IOC 2 MY_IOCTL_MAGIC 2 4"

text \<open>\<open>my_ioctl\<close> on \<open>device_status\<close>, held as its four bytes since a copy may store only some of
  them; \<open>user\<close> is the memory behind \<open>arg\<close>.\<close>

definition my_ioctl ::
  "(nat \<Rightarrow> nat \<times> byte list) \<Rightarrow> (byte list \<Rightarrow> nat \<times> byte list) \<Rightarrow> u32 \<Rightarrow> byte list \<Rightarrow> byte list \<Rightarrow>
     int \<times> byte list \<times> byte list" where
  "my_ioctl cfu ctu cmd device_status user =
     (if cmd = MY_IOCTL_SET_STATUS then
        (case cfu 4 of (left, bytes) \<Rightarrow>
           (if left \<noteq> 0 then - EFAULT else 0, bytes, user))
      else if cmd = MY_IOCTL_GET_STATUS then
        (case ctu device_status of (left, user') \<Rightarrow>
           (if left \<noteq> 0 then - EFAULT else 0, device_status, user'))
      else (- ENOTTY, device_status, user))"

text \<open>\<open>main\<close> of ioctl/main.c: \<open>ioctl\<close> is the system call on the open device, from the command, the
  device state and the memory of \<open>status\<close>. The result is the exit status, the values printed
  and the device state.\<close>

definition ioctl_main ::
  "int \<Rightarrow> (u32 \<Rightarrow> byte list \<Rightarrow> byte list \<Rightarrow> int \<times> byte list \<times> byte list) \<Rightarrow> byte list \<Rightarrow>
     (int \<times> u32 option list \<times> byte list)" where
  "ioctl_main fd ioctl dev =
     (if fd < 0 then (-1, [], dev)
      else case ioctl MY_IOCTL_SET_STATUS dev (bytes32 3344) of (r1, dev1, status1) \<Rightarrow>
        if r1 < 0 then (-1, [], dev1)
        else (case ioctl MY_IOCTL_GET_STATUS dev1 (bytes32 0) of (r2, dev2, status2) \<Rightarrow>
          if r2 < 0 then (-1, [ld32 status1 0], dev2)
          else (0, [ld32 status1 0, ld32 status2 0], dev2)))"

definition ioctl_init :: "'s chr_api \<Rightarrow> 's \<Rightarrow> (int \<times> chr_globals) \<times> 's" where
  "ioctl_init api s =
     (case alloc_chrdev_region api s of ((r, num), s1) \<Rightarrow>
        if r < 0 then ((-1, \<lparr>dev_num = num, driver_class = 0\<rparr>), s1)
        else (case class_create api s1 of (cls, s2) \<Rightarrow>
          (case cdev_add api num s2 of (ret, s3) \<Rightarrow>
             if ret < 0 then
               ((-1, \<lparr>dev_num = num, driver_class = cls\<rparr>), unregister_chrdev_region api num s3)
             else ((0, \<lparr>dev_num = num, driver_class = cls\<rparr>), device_create api cls num s3))))"

definition ioctl_exit :: "'s chr_api \<Rightarrow> chr_globals \<Rightarrow> 's \<Rightarrow> 's" where
  "ioctl_exit api g s =
     (let s = unregister_chrdev_region api (dev_num g) s;
          s = device_destroy api (driver_class g) (dev_num g) s;
          s = cdev_del api (dev_num g) s
      in class_destroy api (driver_class g) s)"

section \<open>What registration takes and gives back\<close>

context chr_kernel
begin

lemma new_init_cases:
  assumes "new_init api s = ((ret, g), s')"
  obtains (refused) "ret = -1" "held s' = held s"
  | (failed) d c where "ret < 0" "held s' = held s + {#Region d, Class c#}"
  | (loaded) d c where "ret = 0" "g = \<lparr>dev_num = d, driver_class = c\<rparr>"
      "held s' = held s + {#Region d, Class c, Cdev d, Device c d#}"
  using assms
  by (auto simp: new_init_def create_device add_mset_commute split: prod.splits if_splits
      dest!: alloc_region create_class add_cdev)

lemma ioctl_init_cases:
  assumes "ioctl_init api s = ((ret, g), s')"
  obtains (refused) "ret = -1" "held s' = held s"
  | (failed) c where "ret = -1" "held s' = held s + {#Class c#}"
  | (loaded) d c where "ret = 0" "g = \<lparr>dev_num = d, driver_class = c\<rparr>"
      "held s' = held s + {#Region d, Class c, Cdev d, Device c d#}"
  using assms
  by (auto simp: ioctl_init_def create_device free_region split: prod.splits if_splits
      dest!: alloc_region create_class add_cdev)

lemma exit_releases:
  assumes "held s' = held s + {#Region d, Class c, Cdev d, Device c d#}"
    and "g = \<lparr>dev_num = d, driver_class = c\<rparr>"
  shows "held (new_exit api g s') = held s" "held (ioctl_exit api g s') = held s"
  using assms
  by (simp_all add: new_exit_def ioctl_exit_def Let_def free_region destroy_device del_cdev
      destroy_class)

end

sublocale chr_kernel \<subseteq> new_module: kernel_module "new_init api" "new_exit api" held
  by unfold_locales (auto elim!: new_init_cases simp: exit_releases)

sublocale chr_kernel \<subseteq> ioctl_module: kernel_module "ioctl_init api" "ioctl_exit api" held
  by unfold_locales (auto elim!: ioctl_init_cases simp: exit_releases)

context chr_kernel
begin

lemmas reload_new = new_module.cycles_ok
lemmas reload_ioctl = ioctl_module.cycles_ok

end

section \<open>Lemmas on the file operations\<close>

lemma cstr_zeros: "cstr (bs @ replicate (Suc n) 0) = Some (takeWhile (\<lambda>x. x \<noteq> 0) bs)"
  by (induction bs) (auto simp: cstr_def)

lemma reads_user_full: "reads_user user cfu \<Longrightarrow> n \<le> length user \<Longrightarrow> cfu n = (0, take n user)"
  unfolding reads_user_def by (drule spec [of _ n]) auto

lemma writes_user_full:
  "writes_user user ctu \<Longrightarrow> length bs \<le> length user \<Longrightarrow> ctu bs = (0, bs @ drop (length bs) user)"
  unfolding writes_user_def by (drule spec [of _ bs]) auto

lemma size_plus_one:
  fixes len :: u64
  assumes "unat len < 2 ^ 31"
  shows "unat (len + 1) = Suc (unat len)" "len + 1 \<noteq> 0"
proof -
  show size: "unat (len + 1) = Suc (unat len)"
    using assms by (subst unat_word_ariths) (simp add: take_bit_nat_eq_self mod_less)
  then show "len + 1 \<noteq> 0" by (metis nat.distinct(1) unat_0)
qed

lemma st_bytes_fill: "length bytes = n \<Longrightarrow> st_bytes (replicate (Suc n) 0) 0 bytes = Some (bytes @ [0])"
  by (simp add: st_bytes_def drop_replicate del: replicate_Suc) simp

lemma st_bytes_last: "length bytes = n \<Longrightarrow> st_bytes (bytes @ [0]) n [0] = Some (bytes @ [0])"
  by (simp add: st_bytes_def)

lemma device_write_value:
  assumes "kmalloc (len + 1)" and "unat len < 2 ^ 31" and "reads_user user cfu"
  shows "\<exists>k \<le> unat len. k \<le> length user \<and> (unat len \<le> length user \<longrightarrow> k = unat len) \<and>
    device_write kmalloc cfu len = Done (sint len, Some (takeWhile (\<lambda>x. x \<noteq> 0) (take k user)))"
proof -
  let ?n = "unat len"
  from assms(3) obtain k where k: "k \<le> ?n" "k \<le> length user" "?n \<le> length user \<longrightarrow> k = ?n"
    "cfu ?n = (?n - k, take k user @ replicate (?n - k) 0)" unfolding reads_user_def by blast
  let ?bytes = "take k user @ replicate (?n - k) 0"
  have len: "length ?bytes = ?n" using k by simp
  have c: "cstr (?bytes @ [0]) = Some (takeWhile (\<lambda>x. x \<noteq> 0) (take k user))"
    using cstr_zeros [of "take k user" "?n - k"] by (simp add: replicate_append_same)
  have ret: "\<not> int_of_ulong (?n - k) < 0" using assms(2) by (simp add: int_of_ulong_nonneg)
  have "device_write kmalloc cfu len =
      Done (sint len, Some (takeWhile (\<lambda>x. x \<noteq> 0) (take k user)))"
    unfolding device_write_def Let_def size_plus_one(1) [OF assms(2)] k(4)
    using assms(1) ret c by (simp only: st_bytes_fill [OF len] st_bytes_last [OF len] prod.case
        option.case if_True if_False simp_thms)
  with k show ?thesis by blast
qed

lemma device_read_value:
  assumes "writes_user user ctu" and "12 \<le> length user"
  shows "device_read ctu len = (sint len, bytes_of ''derek sunder'' @ drop 12 user)"
proof -
  have "length (bytes_of ''derek sunder'') = 12" by (simp add: bytes_of_def)
  with writes_user_full [OF assms(1), of "bytes_of ''derek sunder''"] assms(2)
  have "ctu (bytes_of ''derek sunder'') = (0, bytes_of ''derek sunder'' @ drop 12 user)" by simp
  then show ?thesis by (simp add: device_read_def int_of_ulong_def)
qed

section \<open>Properties\<close>

text \<open>Further: on every kernel that keeps the documented contract of the registration calls,
  any number of successful load and unload cycles of driver_demo_new.c and of ioctl_demo.c
  leaves registered exactly what was registered before.\<close>

theorem device_modules_reload:
  assumes "chr_kernel api held"
    and "\<forall>k < n. loads (new_init api) ((load_unload (new_init api) (new_exit api) ^^ k) s)"
    and "\<forall>k < n. loads (ioctl_init api) ((load_unload (ioctl_init api) (ioctl_exit api) ^^ k) t)"
  shows "held ((load_unload (new_init api) (new_exit api) ^^ n) s) = held s \<and>
    held ((load_unload (ioctl_init api) (ioctl_exit api) ^^ n) t) = held t"
  using chr_kernel.reload_new [OF assms(1)] chr_kernel.reload_ioctl [OF assms(1)] assms(2,3) by blast

theorem device_modules_reload_witness:
  "kobjs ((load_unload (new_init kreg_api) (new_exit kreg_api) ^^ 1) kreg_fresh) = {#} \<and>
   kobjs ((load_unload (ioctl_init kreg_api) (ioctl_exit kreg_api) ^^ 1) kreg_fresh) = {#}"
  using device_modules_reload [OF kreg.chr_kernel_axioms, of 1 kreg_fresh kreg_fresh]
  by (simp add: loads_def new_init_def ioctl_init_def kreg_api_def kreg_fresh_def kreg_add_def)

text \<open>Further: the error paths are not as clean. When \<open>cdev_add\<close> fails, driver_demo_new.c keeps the
  device-number range and the class it has taken, and ioctl_demo.c keeps the class.\<close>

theorem failed_init_leaks:
  assumes "chr_kernel api held"
    and "alloc_chrdev_region api s = ((0, d), s1)" and "class_create api s1 = (c, s2)"
    and "cdev_add api d s2 = (e, s3)" and "e < 0"
  shows "fst (fst (new_init api s)) = e \<and>
      held (load_unload (new_init api) (new_exit api) s) = held s + {#Region d, Class c#} \<and>
    fst (fst (ioctl_init api s)) = -1 \<and>
      held (load_unload (ioctl_init api) (ioctl_exit api) s) = held s + {#Class c#}"
proof -
  note laws = chr_kernel.alloc_region [OF assms(1,2)] chr_kernel.create_class [OF assms(1,3)]
    chr_kernel.add_cdev [OF assms(1,4)] chr_kernel.free_region [OF assms(1)]
  show ?thesis using laws assms(2-)
    by (simp add: new_init_def ioctl_init_def load_unload_def add_mset_commute)
qed

theorem failed_init_leaks_witness:
  "kobjs (load_unload (new_init kreg_api) (new_exit kreg_api) (kreg_fresh\<lparr>no_cdev := True\<rparr>)) =
     {#Region 0x0ea00000, Class 4096#}"
proof -
  let ?s = "kreg_fresh\<lparr>no_cdev := True\<rparr>"
  let ?s1 = "snd (alloc_chrdev_region kreg_api ?s)"
  let ?s2 = "snd (class_create kreg_api ?s1)"
  show ?thesis
    using failed_init_leaks [OF kreg.chr_kernel_axioms, of ?s "0x0ea00000" ?s1 4096 ?s2 "-12" ?s2]
    by (simp add: kreg_api_def kreg_fresh_def kreg_add_def)
qed

text \<open>Further: driver_demo.c drops the major number that \<open>register_chrdev(0, ...)\<close> returns and
  unregisters number 0 instead, so every load and unload leaves one more major number taken,
  with operations that point into the unloaded module.\<close>

theorem driver_demo_leaks_major:
  assumes "chr_kernel api held" and "register_chrdev api 0 s = (m, s')" and "0 < m"
    and "Major 0 \<notin># held s"
  shows "held (load_unload (driver_init api) (driver_exit api) s) = held s + {#Major (nat m)#}"
proof -
  have "held s' = held s + {#Major (nat m)#}"
    using chr_kernel.register_major [OF assms(1,2)] assms(3) by simp
  moreover have "Major 0 \<notin># held s'" using calculation assms(3,4) by simp
  ultimately show ?thesis
    using assms(2) chr_kernel.unregister_major [OF assms(1), of 0]
    by (simp add: load_unload_def driver_init_def driver_exit_def diff_single_trivial)
qed

theorem driver_demo_leaks_major_witness:
  "kobjs (load_unload (driver_init kreg_api) (driver_exit kreg_api) kreg_fresh) = {#Major 234#}"
  using driver_demo_leaks_major [OF kreg.chr_kernel_axioms, of kreg_fresh 234
      "kreg_add (Major 234) kreg_fresh"]
  by (simp add: kreg_api_def kreg_fresh_def)

text \<open>Further: for every length a \<open>write\<close> can have, \<open>device_write\<close> answers that all bytes were
  written and logs the string at the start of the bytes it could copy. The check of the
  result of \<open>copy_from_user\<close> never fires, since that result counts the missing bytes: an
  unreadable buffer is reported as written. Without memory it does not return \<open>-ENOMEM\<close> but
  clears a NULL pointer.\<close>

theorem device_write_reports_success:
  assumes "unat len < 2 ^ 31" and "reads_user user cfu"
  shows "if kmalloc (len + 1)
    then \<exists>k \<le> unat len. k \<le> length user \<and> (unat len \<le> length user \<longrightarrow> k = unat len) \<and>
      device_write kmalloc cfu len = Done (sint len, Some (takeWhile (\<lambda>x. x \<noteq> 0) (take k user)))
    else device_write kmalloc cfu len = Oops"
  using device_write_value [OF _ assms] size_plus_one(2) [OF assms(1)]
  by (simp add: device_write_def Let_def)

theorem device_write_reports_success_witness:
  "device_write (\<lambda>_. True) (user_read []) 5 = Done (5, Some [])"
  using device_write_reports_success [OF _ reads_user_read, of 5 "\<lambda>_. True" "[]"] by simp

text \<open>Further: \<open>device_read\<close> stores its twelve bytes at the caller's pointer whatever length was
  asked for and returns that length, so that a shorter buffer is overrun and a longer one is
  reported as filled. driver_demo/main.c asks for 1024 bytes of an uncleared buffer: what it
  prints is the message followed by whatever the buffer held from byte 12 on.\<close>

theorem driver_main_prints:
  assumes "\<forall>user. writes_user user (ctu user)" and "12 < length junk" and "0 \<le> fd"
    and "0 \<in> set (drop 12 junk)"
  shows "device_read (ctu junk) len = (sint len, bytes_of ''derek sunder'' @ drop 12 junk) \<and>
    driver_main fd (Some junk) wr (\<lambda>buf. device_read (ctu buf)) =
      Some (0, Some (bytes_of ''derek sunder'' @ takeWhile (\<lambda>x. x \<noteq> 0) (drop 12 junk)))"
proof -
  have rd: "device_read (ctu user) n = (sint n, bytes_of ''derek sunder'' @ drop 12 user)"
    if "12 \<le> length user" for user n
    using device_read_value [OF _ that] assms(1) by blast
  have nz: "\<forall>x \<in> set (bytes_of ''derek sunder''). x \<noteq> (0 :: byte)" by (simp add: bytes_of_def)
  have "cstr (bytes_of ''derek sunder'' @ drop 12 junk) =
      Some (bytes_of ''derek sunder'' @ takeWhile (\<lambda>x. x \<noteq> 0) (drop 12 junk))"
    using assms(4) nz by (simp add: cstr_def takeWhile_append2)
  then show ?thesis using assms(2,3) rd [of junk] by (simp add: driver_main_def Let_def rd)
qed

theorem driver_main_prints_witness:
  "driver_main 3 (Some (replicate 12 0 @ [33, 0])) (\<lambda>_. 0) (\<lambda>buf. device_read (user_write buf)) =
     Some (0, Some (bytes_of ''derek sunder!''))"
  using driver_main_prints [of user_write "replicate 12 0 @ [33, 0]" 3 1024 "\<lambda>_. 0"]
  by (simp add: writes_user_write bytes_of_def)

text \<open>Further: the device never reports the end of the file: however often and with whatever lengths it
  is read, every call answers with the length that was asked for, so that a program which reads up
  to the end of the file reads for ever.\<close>

theorem device_read_never_ends:
  assumes "\<forall>user. writes_user user (ctu user)" and "\<forall>(len, user) \<in> set calls. 0 < unat len \<and> unat len < 2 ^ 31 \<and> 12 \<le> length user"
  shows "\<forall>(len, user) \<in> set calls. 0 < fst (device_read (ctu user) len)"
proof clarify
  fix len user
  assume "(len, user) \<in> set calls"
  then have "0 < unat len" "unat len < 2 ^ 31" "12 \<le> length user" using assms(2) by auto
  moreover have "sint len = int (unat len)"
  proof -
    have "sint (word_of_nat n :: u64) = int n" if "n < 2 ^ 31" for n
      using that by (simp add: sint_uint signed_take_bit_int_eq_self unsigned_of_nat take_bit_nat_eq_self)
    from this [OF \<open>unat len < 2 ^ 31\<close>] show ?thesis by simp
  qed
  ultimately show "0 < fst (device_read (ctu user) len)"
    using device_read_value [of user "ctu user" len] assms(1) by (metis fst_conv of_nat_0_less_iff)
qed

theorem device_read_never_ends_witness:
  "\<forall>(len, user) \<in> set [(1024, [0,0,0,0,0,0,0,0,0,0,0,0])]. 0 < fst (device_read (user_write user) len)"
  using device_read_never_ends [of user_write "[(1024, [0,0,0,0,0,0,0,0,0,0,0,0])]"] by (simp add: writes_user_write)

text \<open>Further: the program ioctl/main.c on the device of ioctl_demo.c: whatever the status was,
  both commands succeed, the value read back is the one that was set, and the device keeps
  it. An unknown command changes nothing and is answered with \<open>-ENOTTY\<close>.\<close>

theorem ioctl_main_reads_back:
  assumes "\<forall>user. reads_user user (cfu user)" and "\<forall>user. writes_user user (ctu user)"
    and "0 \<le> fd" and "cmd \<noteq> MY_IOCTL_SET_STATUS" and "cmd \<noteq> MY_IOCTL_GET_STATUS"
  shows "ioctl_main fd (\<lambda>cmd dev user. my_ioctl (cfu user) (ctu user) cmd dev user) dev =
      (0, [Some 3344, Some 3344], bytes32 3344) \<and>
    my_ioctl (cfu user) (ctu user) cmd dev user = (- ENOTTY, dev, user)"
proof -
  have codes: "MY_IOCTL_GET_STATUS \<noteq> MY_IOCTL_SET_STATUS"
    by (simp add: MY_IOCTL_GET_STATUS_def MY_IOCTL_SET_STATUS_def MY_IOCTL_MAGIC_def IOC_def)
  have cf: "cfu (bytes32 w) 4 = (0, bytes32 w)" for w
    using reads_user_full [of "bytes32 w" "cfu (bytes32 w)" 4] assms(1) by simp
  have ct: "ctu (bytes32 w) (bytes32 v) = (0, bytes32 v)" for v w
    using writes_user_full [of "bytes32 w" "ctu (bytes32 w)" "bytes32 v"] assms(2) by simp
  show ?thesis using assms(3-) codes
    by (simp add: ioctl_main_def my_ioctl_def cf ct ld32_bytes32)
qed

theorem ioctl_main_reads_back_witness:
  "ioctl_main 3 (\<lambda>cmd dev user. my_ioctl (user_read user) (user_write user) cmd dev user)
     (bytes32 7) = (0, [Some 3344, Some 3344], bytes32 3344)"
  using ioctl_main_reads_back [of user_read user_write 3 0 "bytes32 7"]
  by (simp add: reads_user_read writes_user_write MY_IOCTL_GET_STATUS_def MY_IOCTL_SET_STATUS_def
      MY_IOCTL_MAGIC_def IOC_def)

text \<open>Further: a set command whose argument cannot be read returns \<open>-EFAULT\<close> and nevertheless
  changes the status: the bytes that could not be copied become zero.\<close>

theorem ioctl_set_fault_clobbers:
  assumes "reads_user user cfu" and "length user < 4"
  shows "\<exists>k < 4. my_ioctl cfu ctu MY_IOCTL_SET_STATUS dev user =
      (- EFAULT, take k user @ replicate (4 - k) 0, user)"
proof -
  from assms obtain k where "k \<le> length user" "cfu 4 = (4 - k, take k user @ replicate (4 - k) 0)"
    unfolding reads_user_def by blast
  then show ?thesis using assms(2) by (intro exI [of _ k]) (simp add: my_ioctl_def)
qed

theorem ioctl_set_fault_clobbers_witness:
  "\<exists>k < 4. my_ioctl (user_read []) (user_write []) MY_IOCTL_SET_STATUS (bytes32 3344) [] =
     (- EFAULT, take k [] @ replicate (4 - k) 0, [])"
  using ioctl_set_fault_clobbers [OF reads_user_read, of "[]" "user_write []"] by simp

end
