(* ===== verification/Device_Files.thy ===== *)
theory Device_Files
  imports Chardev Traces
begin

text \<open>
  The character-device modules under the system calls of any number of programs: loading and
  unloading, opening and closing, reading, writing and ioctl in any order. The tables of file
  operations are those of src/driver_demo/driver_demo.c, src/driver_demo/driver_demo_new.c and
  src/ioctl/ioctl_demo.c. What the file system layer and the module loader do is documented
  behaviour: a table that names its owner keeps the module in use while a file is open, one that
  does not leaves the use count alone, and a module in use is not unloaded. A call into a module that has been unloaded is \<open>None\<close>.
\<close>

section \<open>Tables of file operations\<close>

text \<open>The members the modules set, over the data of the module: whether \<open>owner\<close> is the module, and the
  functions, where \<open>None\<close> is a member that is NULL. What user memory a call gets at is an argument, as
  in Chardev.\<close>

record 'm file_operations =
  fo_owner :: bool
  fo_open :: "('m \<Rightarrow> int \<times> 'm) option"
  fo_release :: "('m \<Rightarrow> int \<times> 'm) option"
  fo_write :: "((u64 \<Rightarrow> bool) \<Rightarrow> (nat \<Rightarrow> nat \<times> byte list) \<Rightarrow> u64 \<Rightarrow> 'm \<Rightarrow> (int \<times> 'm) kresult) option"
  fo_read :: "((byte list \<Rightarrow> nat \<times> byte list) \<Rightarrow> u64 \<Rightarrow> 'm \<Rightarrow> int \<times> byte list \<times> 'm) option"
  fo_ioctl :: "((nat \<Rightarrow> nat \<times> byte list) \<Rightarrow> (byte list \<Rightarrow> nat \<times> byte list) \<Rightarrow> u32 \<Rightarrow> byte list \<Rightarrow> 'm \<Rightarrow>
     int \<times> byte list \<times> 'm) option"

text \<open>The drivers keep no data; \<open>'m\<close> is what they have logged of the strings they received. \<open>open\<close> and
  \<open>release\<close> log and return 0.\<close>

definition device_open :: "byte list list \<Rightarrow> int \<times> byte list list" where
  "device_open klog = (0, klog)"

definition device_release :: "byte list list \<Rightarrow> int \<times> byte list list" where
  "device_release klog = (0, klog)"

definition fops :: "byte list list file_operations" where
  "fops = \<lparr>
     fo_owner = True,
     fo_open = Some device_open,
     fo_release = Some device_release,
     fo_write = Some (\<lambda>kmalloc cfu len klog.
       case device_write kmalloc cfu len of
         Oops \<Rightarrow> Oops
       | Done (r, received) \<Rightarrow> Done (r, klog @ (case received of None \<Rightarrow> [] | Some str \<Rightarrow> [str]))),
     fo_read = Some (\<lambda>ctu len klog. case device_read ctu len of (r, user) \<Rightarrow> (r, user, klog)),
     fo_ioctl = None\<rparr>"

text \<open>The data of the ioctl module is \<open>device_status\<close>.\<close>

definition my_fops :: "byte list file_operations" where
  "my_fops = \<lparr>
     fo_owner = True,
     fo_open = None,
     fo_release = None,
     fo_write = None,
     fo_read = None,
     fo_ioctl = Some (\<lambda>cfu ctu cmd user device_status.
       case my_ioctl cfu ctu cmd device_status user of (r, device_status, user) \<Rightarrow> (r, user, device_status))\<rparr>"

text \<open>A module: its init and exit functions, its table and its data when it is loaded.\<close>

record ('s, 'g, 'm) kmod =
  km_init :: "'s \<Rightarrow> (int \<times> 'g) \<times> 's"
  km_exit :: "'g \<Rightarrow> 's \<Rightarrow> 's"
  km_fops :: "'m file_operations"
  km_data :: 'm

definition driver_demo_ko :: "'s chr_api \<Rightarrow> ('s, unit, byte list list) kmod" where
  "driver_demo_ko api = \<lparr>km_init = driver_init api, km_exit = driver_exit api, km_fops = fops, km_data = []\<rparr>"

definition driver_demo_new_ko :: "'s chr_api \<Rightarrow> ('s, chr_globals, byte list list) kmod" where
  "driver_demo_new_ko api = \<lparr>km_init = new_init api, km_exit = new_exit api, km_fops = fops, km_data = []\<rparr>"

definition ioctl_demo_ko :: "'s chr_api \<Rightarrow> ('s, chr_globals, byte list) kmod" where
  "ioctl_demo_ko api =
     \<lparr>km_init = ioctl_init api, km_exit = ioctl_exit api, km_fops = my_fops, km_data = bytes32 0\<rparr>"

section \<open>System calls\<close>

datatype syscall =
    Insmod
  | Rmmod
  | Sys_open kobj int
  | Sys_close int
  | Sys_write int u64 "byte list"
  | Sys_read int u64 "byte list"
  | Sys_ioctl int u32 "byte list"

text \<open>The value returned, and for calls that store into user memory that memory afterwards.\<close>

datatype sysres = Ret int | Ret_mem int "byte list"

text \<open>The rest of the kernel: the entries of its table of character devices (\<open>ke_base\<close> are those of other
  modules), its allocator and its copying routines.\<close>

record 's kernel_env =
  ke_entries :: "'s \<Rightarrow> kobj multiset"
  ke_base :: "kobj multiset"
  ke_malloc :: "u64 \<Rightarrow> bool"
  ke_from :: "byte list \<Rightarrow> nat \<Rightarrow> nat \<times> byte list"
  ke_to :: "byte list \<Rightarrow> byte list \<Rightarrow> nat \<times> byte list"

record ('s, 'g, 'm) vfs =
  vk :: 's
  vmod :: "('g \<times> 'm) option"
  vuse :: nat
  vfiles :: "int list"
  vhist :: "(syscall \<times> sysres) list"

definition EEXIST' :: int where "EEXIST' = 17"
definition ENOENT :: int where "ENOENT = 2"
definition EWOULDBLOCK :: int where "EWOULDBLOCK = 11"
definition ENXIO :: int where "ENXIO = 6"
definition EBADF :: int where "EBADF = 9"
definition EINVAL :: int where "EINVAL = 22"

text \<open>A call of a member, which a NULL member answers with 0.\<close>

definition member :: "('m \<Rightarrow> int \<times> 'm) option \<Rightarrow> 'm \<Rightarrow> int \<times> 'm" where
  "member f m = (case f of None \<Rightarrow> (0, m) | Some f \<Rightarrow> f m)"

text \<open>An open file is a use of the module only when its table names the owner: \<open>fops_get\<close> and \<open>fops_put\<close>
  of the file system layer do nothing for a table without one.\<close>

definition uses :: "'m file_operations \<Rightarrow> nat" where
  "uses f = (if fo_owner f then 1 else 0)"

text \<open>A call on a descriptor: of an open file, and then of the module behind it.\<close>

definition on_file :: "int \<Rightarrow> ('s, 'g, 'm) vfs \<Rightarrow> ('g \<Rightarrow> 'm \<Rightarrow> (('s, 'g, 'm) vfs \<times> sysres) option) \<Rightarrow>
    (('s, 'g, 'm) vfs \<times> sysres) option" where
  "on_file fd v f =
     (if fd \<notin> set (vfiles v) then Some (v, Ret (- EBADF))
      else case vmod v of None \<Rightarrow> None | Some (g, m) \<Rightarrow> f g m)"

fun vfs_call :: "'s kernel_env \<Rightarrow> ('s, 'g, 'm) kmod \<Rightarrow> syscall \<Rightarrow> ('s, 'g, 'm) vfs \<Rightarrow>
    (('s, 'g, 'm) vfs \<times> sysres) option" where
  "vfs_call E M Insmod v =
     (case vmod v of
        Some _ \<Rightarrow> Some (v, Ret (- EEXIST'))
      | None \<Rightarrow> (case km_init M (vk v) of ((r, g), s) \<Rightarrow>
          Some (v\<lparr>vk := s, vmod := if r = 0 then Some (g, km_data M) else None\<rparr>, Ret r)))"
| "vfs_call E M Rmmod v =
     (case vmod v of
        None \<Rightarrow> Some (v, Ret (- ENOENT))
      | Some (g, m) \<Rightarrow>
          if vuse v \<noteq> 0 then Some (v, Ret (- EWOULDBLOCK))
          else Some (v\<lparr>vk := km_exit M g (vk v), vmod := None\<rparr>, Ret 0))"
| "vfs_call E M (Sys_open k fd) v =
     (if k \<notin># ke_entries E (vk v) - ke_base E then Some (v, Ret (- ENXIO))
      else case vmod v of
        None \<Rightarrow> None
      | Some (g, m) \<Rightarrow> (case member (fo_open (km_fops M)) m of (r, m) \<Rightarrow>
          if r \<noteq> 0 then Some (v\<lparr>vmod := Some (g, m)\<rparr>, Ret r)
          else Some (v\<lparr>vmod := Some (g, m), vuse := vuse v + uses (km_fops M), vfiles := fd # vfiles v\<rparr>, Ret fd)))"
| "vfs_call E M (Sys_close fd) v = on_file fd v (\<lambda>g m.
     case member (fo_release (km_fops M)) m of (_, m) \<Rightarrow>
       Some (v\<lparr>vmod := Some (g, m), vuse := vuse v - uses (km_fops M), vfiles := remove1 fd (vfiles v)\<rparr>, Ret 0))"
| "vfs_call E M (Sys_write fd len user) v = on_file fd v (\<lambda>g m.
     case fo_write (km_fops M) of
       None \<Rightarrow> Some (v, Ret (- EINVAL))
     | Some write \<Rightarrow> (case write (ke_malloc E) (ke_from E user) len m of
          Oops \<Rightarrow> None
        | Done (r, m) \<Rightarrow> Some (v\<lparr>vmod := Some (g, m)\<rparr>, Ret r)))"
| "vfs_call E M (Sys_read fd len user) v = on_file fd v (\<lambda>g m.
     case fo_read (km_fops M) of
       None \<Rightarrow> Some (v, Ret (- EINVAL))
     | Some read \<Rightarrow> (case read (ke_to E user) len m of
          (r, user, m) \<Rightarrow> Some (v\<lparr>vmod := Some (g, m)\<rparr>, Ret_mem r user)))"
| "vfs_call E M (Sys_ioctl fd cmd user) v = on_file fd v (\<lambda>g m.
     case fo_ioctl (km_fops M) of
       None \<Rightarrow> Some (v, Ret (- ENOTTY))
     | Some ioctl \<Rightarrow> (case ioctl (ke_from E user) (ke_to E user) cmd user m of
          (r, user, m) \<Rightarrow> Some (v\<lparr>vmod := Some (g, m)\<rparr>, Ret_mem r user)))"

definition vfs_step :: "'s kernel_env \<Rightarrow> ('s, 'g, 'm) kmod \<Rightarrow> syscall \<Rightarrow> ('s, 'g, 'm) vfs \<Rightarrow> ('s, 'g, 'm) vfs option" where
  "vfs_step E M c v = map_option (\<lambda>(v, res). v\<lparr>vhist := vhist v @ [(c, res)]\<rparr>) (vfs_call E M c v)"

definition vfs_fresh :: "'s \<Rightarrow> ('s, 'g, 'm) vfs" where
  "vfs_fresh s = \<lparr>vk = s, vmod = None, vuse = 0, vfiles = [], vhist = []\<rparr>"

text \<open>What the callers keep to: a descriptor that is given out is not in use, and for a write there is
  memory and the length is one that \<open>write\<close> lets through.\<close>

fun call_ok :: "'s kernel_env \<Rightarrow> syscall \<Rightarrow> ('s, 'g, 'm) vfs \<Rightarrow> bool" where
  "call_ok E (Sys_open k fd) v \<longleftrightarrow> 0 \<le> fd \<and> fd \<notin> set (vfiles v)"
| "call_ok E (Sys_write fd len user) v \<longleftrightarrow> unat len < 2 ^ 31 \<and> ke_malloc E (len + 1)"
| "call_ok E _ v \<longleftrightarrow> True"

section \<open>Modules that take their entry away\<close>

locale device_module =
  fixes E :: "'s kernel_env" and M :: "('s, 'g, 'm) kmod" and entry :: "'g \<Rightarrow> kobj"
  assumes init_entry: "km_init M s = ((0, g), s') \<Longrightarrow> ke_entries E s' = add_mset (entry g) (ke_entries E s)"
    and init_fails: "km_init M s = ((r, g), s') \<Longrightarrow> r \<noteq> 0 \<Longrightarrow> ke_entries E s' = ke_entries E s"
    and exit_entry: "ke_entries E (km_exit M g s) = ke_entries E s - {#entry g#}"
    and owned: "fo_owner (km_fops M)"
    and write_ok: "fo_write (km_fops M) = Some write \<Longrightarrow> unat len < 2 ^ 31 \<Longrightarrow> ke_malloc E (len + 1) \<Longrightarrow>
      write (ke_malloc E) (ke_from E user) len m \<noteq> Oops"

text \<open>Files are open only while the module is loaded, each is one use of it, and the entry in the table
  of devices is there exactly as long.\<close>

definition vfs_inv :: "'s kernel_env \<Rightarrow> ('g \<Rightarrow> kobj) \<Rightarrow> ('s, 'g, 'm) vfs \<Rightarrow> bool" where
  "vfs_inv E entry v \<longleftrightarrow> vuse v = length (vfiles v) \<and> distinct (vfiles v) \<and>
     (case vmod v of
        None \<Rightarrow> vfiles v = [] \<and> ke_entries E (vk v) = ke_base E
      | Some (g, m) \<Rightarrow> ke_entries E (vk v) = add_mset (entry g) (ke_base E))"

lemma vfs_inv_hist [simp]: "vfs_inv E entry (v\<lparr>vhist := h\<rparr>) = vfs_inv E entry v"
  by (simp add: vfs_inv_def split: option.splits)

lemma vfs_inv_data: "vfs_inv E entry v \<Longrightarrow> vmod v = Some (g, m) \<Longrightarrow> vfs_inv E entry (v\<lparr>vmod := Some (g, m')\<rparr>)"
  by (simp add: vfs_inv_def)

lemma on_file_inv:
  assumes "vfs_inv E entry v"
    and "\<And>g m. fd \<in> set (vfiles v) \<Longrightarrow> vmod v = Some (g, m) \<Longrightarrow> \<exists>v' r. f g m = Some (v', r) \<and> vfs_inv E entry v'"
  shows "\<exists>v' r. on_file fd v f = Some (v', r) \<and> vfs_inv E entry v'"
  using assms by (auto simp: on_file_def vfs_inv_def split: option.splits)

context device_module
begin

lemma call_inv:
  assumes "vfs_inv E entry v" and "call_ok E c v"
  shows "\<exists>v' r. vfs_call E M c v = Some (v', r) \<and> vfs_inv E entry v'"
proof (cases c)
  case Insmod
  obtain r g s where i: "km_init M (vk v) = ((r, g), s)" by (metis prod.exhaust)
  show ?thesis
    using assms(1) i init_entry [of "vk v" g s] init_fails [OF i]
    by (auto simp: Insmod vfs_inv_def split: option.splits)
next
  case Rmmod
  then show ?thesis using assms(1) by (auto simp: vfs_inv_def exit_entry split: option.splits)
next
  case (Sys_open k fd)
  then show ?thesis using assms owned by (auto simp: vfs_inv_def uses_def split: option.splits prod.splits)
next
  case (Sys_close fd)
  show ?thesis unfolding Sys_close vfs_call.simps
    by (rule on_file_inv [OF assms(1)])
       (use assms(1) owned in \<open>auto simp: vfs_inv_def uses_def length_remove1 split: prod.splits\<close>)
next
  case (Sys_write fd len user)
  have "\<And>write m. fo_write (km_fops M) = Some write \<Longrightarrow> write (ke_malloc E) (ke_from E user) len m \<noteq> Oops"
    using assms(2) write_ok Sys_write by simp
  then show ?thesis unfolding Sys_write vfs_call.simps
    by (intro on_file_inv [OF assms(1)])
       (use assms(1) in \<open>auto split: option.splits kresult.splits dest: vfs_inv_data\<close>)
next
  case (Sys_read fd len user)
  show ?thesis unfolding Sys_read vfs_call.simps
    by (rule on_file_inv [OF assms(1)])
       (use assms(1) in \<open>auto split: option.splits prod.splits dest: vfs_inv_data\<close>)
next
  case (Sys_ioctl fd cmd user)
  show ?thesis unfolding Sys_ioctl vfs_call.simps
    by (rule on_file_inv [OF assms(1)])
       (use assms(1) in \<open>auto split: option.splits prod.splits dest: vfs_inv_data\<close>)
qed

end

sublocale device_module \<subseteq> files: trace_invariant "vfs_step E M" "call_ok E" "vfs_inv E entry"
proof
  fix v :: "('s, 'g, 'm) vfs" and c
  assume "vfs_inv E entry v" and "call_ok E c v"
  then show "\<exists>v'. vfs_step E M c v = Some v' \<and> vfs_inv E entry v'"
    using call_inv [of v c] by (auto simp: vfs_step_def)
qed

section \<open>The kernel they run on\<close>

text \<open>The entries a file can be opened through: character devices added to the table, and major numbers
  registered the old way.\<close>

fun is_entry :: "kobj \<Rightarrow> bool" where
  "is_entry (Cdev d) = True"
| "is_entry (Major n) = True"
| "is_entry _ = False"

definition dev_env :: "('s \<Rightarrow> kobj multiset) \<Rightarrow> kobj multiset \<Rightarrow> (u64 \<Rightarrow> bool) \<Rightarrow>
    (byte list \<Rightarrow> nat \<Rightarrow> nat \<times> byte list) \<Rightarrow> (byte list \<Rightarrow> byte list \<Rightarrow> nat \<times> byte list) \<Rightarrow> 's kernel_env" where
  "dev_env held base kmalloc cfu ctu =
     \<lparr>ke_entries = (\<lambda>s. filter_mset is_entry (held s)), ke_base = base, ke_malloc = kmalloc, ke_from = cfu, ke_to = ctu\<rparr>"

locale device_kernel = chr_kernel +
  fixes base :: "kobj multiset" and kmalloc :: "u64 \<Rightarrow> bool"
    and cfu :: "byte list \<Rightarrow> nat \<Rightarrow> nat \<times> byte list" and ctu :: "byte list \<Rightarrow> byte list \<Rightarrow> nat \<times> byte list"
  assumes reads: "reads_user user (cfu user)" and writes: "writes_user user (ctu user)"

lemma fops_write_ok:
  assumes "reads_user user cfu" and "fo_write fops = Some write" and "unat len < 2 ^ 31" and "kmalloc (len + 1)"
  shows "write kmalloc cfu len m \<noteq> Oops"
  using device_write_value [of kmalloc len user cfu] assms by (auto simp: fops_def)

lemma entries_exit:
  assumes "chr_kernel api held"
  shows "filter_mset is_entry (held (new_exit api g s)) = filter_mset is_entry (held s) - {#Cdev (dev_num g)#}"
    "filter_mset is_entry (held (ioctl_exit api g s)) = filter_mset is_entry (held s) - {#Cdev (dev_num g)#}"
proof -
  note laws = chr_kernel.free_region [OF assms] chr_kernel.destroy_device [OF assms] chr_kernel.del_cdev [OF assms]
    chr_kernel.destroy_class [OF assms]
  show "filter_mset is_entry (held (new_exit api g s)) = filter_mset is_entry (held s) - {#Cdev (dev_num g)#}"
    "filter_mset is_entry (held (ioctl_exit api g s)) = filter_mset is_entry (held s) - {#Cdev (dev_num g)#}"
    by (simp_all add: new_exit_def ioctl_exit_def Let_def laws)
qed

sublocale device_kernel \<subseteq> new_files: device_module "dev_env held base kmalloc cfu ctu" "driver_demo_new_ko api"
  "\<lambda>g. Cdev (dev_num g)"
proof
  show "ke_entries (dev_env held base kmalloc cfu ctu) s' =
      add_mset (Cdev (dev_num g)) (ke_entries (dev_env held base kmalloc cfu ctu) s)"
    if "km_init (driver_demo_new_ko api) s = ((0, g), s')" for s g s'
    using that by (auto simp: dev_env_def driver_demo_new_ko_def elim!: new_init_cases)
  show "ke_entries (dev_env held base kmalloc cfu ctu) s' = ke_entries (dev_env held base kmalloc cfu ctu) s"
    if "km_init (driver_demo_new_ko api) s = ((r, g), s')" "r \<noteq> 0" for s r g s'
    using that by (auto simp: dev_env_def driver_demo_new_ko_def elim!: new_init_cases)
  show "ke_entries (dev_env held base kmalloc cfu ctu) (km_exit (driver_demo_new_ko api) g s) =
      ke_entries (dev_env held base kmalloc cfu ctu) s - {#Cdev (dev_num g)#}" for g s
    by (simp add: dev_env_def driver_demo_new_ko_def entries_exit [OF chr_kernel_axioms])
  show "fo_owner (km_fops (driver_demo_new_ko api))" by (simp add: driver_demo_new_ko_def fops_def)
qed (use fops_write_ok [OF reads] in \<open>simp add: dev_env_def driver_demo_new_ko_def\<close>)

sublocale device_kernel \<subseteq> ioctl_files: device_module "dev_env held base kmalloc cfu ctu" "ioctl_demo_ko api"
  "\<lambda>g. Cdev (dev_num g)"
proof
  show "ke_entries (dev_env held base kmalloc cfu ctu) s' =
      add_mset (Cdev (dev_num g)) (ke_entries (dev_env held base kmalloc cfu ctu) s)"
    if "km_init (ioctl_demo_ko api) s = ((0, g), s')" for s g s'
    using that by (auto simp: dev_env_def ioctl_demo_ko_def elim!: ioctl_init_cases)
  show "ke_entries (dev_env held base kmalloc cfu ctu) s' = ke_entries (dev_env held base kmalloc cfu ctu) s"
    if "km_init (ioctl_demo_ko api) s = ((r, g), s')" "r \<noteq> 0" for s r g s'
    using that by (auto simp: dev_env_def ioctl_demo_ko_def elim!: ioctl_init_cases)
  show "ke_entries (dev_env held base kmalloc cfu ctu) (km_exit (ioctl_demo_ko api) g s) =
      ke_entries (dev_env held base kmalloc cfu ctu) s - {#Cdev (dev_num g)#}" for g s
    by (simp add: dev_env_def ioctl_demo_ko_def entries_exit [OF chr_kernel_axioms])
qed (simp_all add: ioctl_demo_ko_def my_fops_def)

interpretation kreg_files: device_kernel kreg_api kobjs base kmalloc user_read user_write for base kmalloc
  by unfold_locales (rule reads_user_read writes_user_write)+

lemma fresh_inv: "filter_mset is_entry (held s) = base \<Longrightarrow> vfs_inv (dev_env held base kmalloc cfu ctu) entry (vfs_fresh s)"
  by (simp add: vfs_inv_def vfs_fresh_def dev_env_def)

section \<open>The device as a register\<close>

text \<open>How many bytes of the four \<open>copy_from_user\<close> gets from an argument and \<open>copy_to_user\<close> puts into one.\<close>

definition taken :: "(byte list \<Rightarrow> nat \<Rightarrow> nat \<times> byte list) \<Rightarrow> byte list \<Rightarrow> nat" where
  "taken cfu user = 4 - fst (cfu user 4)"

definition given :: "(byte list \<Rightarrow> byte list \<Rightarrow> nat \<times> byte list) \<Rightarrow> byte list \<Rightarrow> byte list \<Rightarrow> nat" where
  "given ctu user r = 4 - fst (ctu user r)"

text \<open>What a history of calls leaves in the status: zero after loading, then what the last set command
  could take of its argument, and zeros for the rest, whether it was answered with success or not.\<close>

fun register_after :: "(byte list \<Rightarrow> nat \<Rightarrow> nat \<times> byte list) \<Rightarrow> byte list \<Rightarrow> syscall \<times> sysres \<Rightarrow> byte list" where
  "register_after cfu r (Insmod, Ret x) = (if x = 0 then bytes32 0 else r)"
| "register_after cfu r (Sys_ioctl fd cmd user, Ret_mem x mem) =
     (if cmd = MY_IOCTL_SET_STATUS then take (taken cfu user) user @ replicate (4 - taken cfu user) 0 else r)"
| "register_after cfu r _ = r"

definition register :: "(byte list \<Rightarrow> nat \<Rightarrow> nat \<times> byte list) \<Rightarrow> (syscall \<times> sysres) list \<Rightarrow> byte list" where
  "register cfu h = foldl (register_after cfu) (bytes32 0) h"

lemma register_snoc [simp]: "register cfu (h @ [x]) = register_after cfu (register cfu h) x"
  by (simp add: register_def)

text \<open>What an ioctl is to answer after a history: success when all four bytes were copied, as they are
  when the argument is accessible, and \<open>-EFAULT\<close> otherwise.\<close>

fun answer_ok :: "(byte list \<Rightarrow> nat \<Rightarrow> nat \<times> byte list) \<Rightarrow> (byte list \<Rightarrow> byte list \<Rightarrow> nat \<times> byte list) \<Rightarrow>
    (syscall \<times> sysres) list \<Rightarrow> syscall \<times> sysres \<Rightarrow> bool" where
  "answer_ok cfu ctu h (Sys_ioctl fd cmd user, Ret_mem x mem) \<longleftrightarrow>
     (if cmd = MY_IOCTL_SET_STATUS
      then x = (if taken cfu user = 4 then 0 else - EFAULT) \<and> mem = user \<and> (4 \<le> length user \<longrightarrow> x = 0)
      else if cmd = MY_IOCTL_GET_STATUS
      then (let r = register cfu h; n = given ctu user r in
        x = (if n = 4 then 0 else - EFAULT) \<and> mem = take n r @ drop n user \<and> (4 \<le> length user \<longrightarrow> x = 0))
      else x = - ENOTTY \<and> mem = user)"
| "answer_ok cfu ctu h (Sys_ioctl fd cmd user, Ret x) \<longleftrightarrow> x = - EBADF"
| "answer_ok cfu ctu h _ \<longleftrightarrow> True"

definition history_ok :: "(byte list \<Rightarrow> nat \<Rightarrow> nat \<times> byte list) \<Rightarrow> (byte list \<Rightarrow> byte list \<Rightarrow> nat \<times> byte list) \<Rightarrow>
    (syscall \<times> sysres) list \<Rightarrow> bool" where
  "history_ok cfu ctu h \<longleftrightarrow> (\<forall>i < length h. answer_ok cfu ctu (take i h) (h ! i))"

lemma history_snoc [simp]: "history_ok cfu ctu (h @ [x]) \<longleftrightarrow> history_ok cfu ctu h \<and> answer_ok cfu ctu h x"
  by (auto simp: history_ok_def less_Suc_eq nth_append)

definition register_inv :: "'s kernel_env \<Rightarrow> ('s, chr_globals, byte list) vfs \<Rightarrow> bool" where
  "register_inv E v \<longleftrightarrow> vfs_inv E (\<lambda>g. Cdev (dev_num g)) v \<and> history_ok (ke_from E) (ke_to E) (vhist v) \<and>
     (case vmod v of None \<Rightarrow> True | Some (g, m) \<Rightarrow> m = register (ke_from E) (vhist v) \<and> length m = 4)"

lemma my_ioctl_values:
  assumes "reads_user user (cfu user)" and "writes_user user (ctu user)" and "length m = 4"
  shows "my_ioctl (cfu user) (ctu user) cmd m user =
    (if cmd = MY_IOCTL_SET_STATUS
     then (if taken cfu user = 4 then 0 else - EFAULT, take (taken cfu user) user @ replicate (4 - taken cfu user) 0, user)
     else if cmd = MY_IOCTL_GET_STATUS
     then (if given ctu user m = 4 then 0 else - EFAULT, m, take (given ctu user m) m @ drop (given ctu user m) user)
     else (- ENOTTY, m, user))"
    and "taken cfu user \<le> 4" "taken cfu user \<le> length user" "4 \<le> length user \<Longrightarrow> taken cfu user = 4 \<and> given ctu user m = 4"
proof -
  from assms(1) obtain k where k: "k \<le> 4" "k \<le> length user" "4 \<le> length user \<longrightarrow> k = 4"
    "cfu user 4 = (4 - k, take k user @ replicate (4 - k) 0)" unfolding reads_user_def by blast
  from assms(2,3) obtain n where n: "n \<le> 4" "4 \<le> length user \<longrightarrow> n = 4"
    "ctu user m = (4 - n, take n m @ drop n user)" unfolding writes_user_def by metis
  have "taken cfu user = k" "given ctu user m = n" using k(1,4) n(1,3) by (simp_all add: taken_def given_def)
  then show "taken cfu user \<le> 4" "taken cfu user \<le> length user" "4 \<le> length user \<Longrightarrow> taken cfu user = 4 \<and> given ctu user m = 4"
    "my_ioctl (cfu user) (ctu user) cmd m user =
    (if cmd = MY_IOCTL_SET_STATUS
     then (if taken cfu user = 4 then 0 else - EFAULT, take (taken cfu user) user @ replicate (4 - taken cfu user) 0, user)
     else if cmd = MY_IOCTL_GET_STATUS
     then (if given ctu user m = 4 then 0 else - EFAULT, m, take (given ctu user m) m @ drop (given ctu user m) user)
     else (- ENOTTY, m, user))"
    using k n by (auto simp: my_ioctl_def)
qed

text \<open>No call but an ioctl on an open file changes the status of a loaded module.\<close>

lemma ioctl_demo_call:
  assumes "vfs_call E (ioctl_demo_ko api) c v = Some (u, r)"
  shows "vhist u = vhist v"
    and "(\<nexists>fd cmd user. c = Sys_ioctl fd cmd user) \<Longrightarrow> vmod u = Some (g, m) \<Longrightarrow>
      (vmod v = None \<and> c = Insmod \<and> r = Ret 0 \<and> m = bytes32 0) \<or>
      ((\<exists>g. vmod v = Some (g, m)) \<and> register_after cfu m (c, r) = m)"
  using assms
  by (cases c; auto simp: on_file_def ioctl_demo_ko_def my_fops_def member_def EEXIST'_def
      split: option.splits prod.splits if_splits)+

context device_kernel
begin

lemma register_step:
  assumes "register_inv (dev_env held base kmalloc cfu ctu) v" and "call_ok (dev_env held base kmalloc cfu ctu) c v"
  shows "\<exists>v'. vfs_step (dev_env held base kmalloc cfu ctu) (ioctl_demo_ko api) c v = Some v' \<and>
    register_inv (dev_env held base kmalloc cfu ctu) v'"
proof -
  let ?E = "dev_env held base kmalloc cfu ctu" and ?M = "ioctl_demo_ko api"
  have inv: "vfs_inv ?E (\<lambda>g. Cdev (dev_num g)) v" using assms(1) by (simp add: register_inv_def)
  obtain u r where u: "vfs_call ?E ?M c v = Some (u, r)" "vfs_inv ?E (\<lambda>g. Cdev (dev_num g)) u"
    using ioctl_files.call_inv [OF inv assms(2)] by blast
  have h: "vhist u = vhist v" using ioctl_demo_call(1) [OF u(1)] .
  let ?v = "u\<lparr>vhist := vhist u @ [(c, r)]\<rparr>"
  have step: "vfs_step ?E ?M c v = Some ?v" using u(1) by (simp add: vfs_step_def)
  have "register_inv ?E ?v"
  proof (cases "\<exists>fd cmd user. c = Sys_ioctl fd cmd user")
    case True
    then obtain fd cmd user where c: "c = Sys_ioctl fd cmd user" by blast
    show ?thesis
    proof (cases "fd \<in> set (vfiles v)")
      case False
      then have "u = v" "r = Ret (- EBADF)" using u(1) c by (auto simp: on_file_def)
      then show ?thesis using assms(1) c by (auto simp: register_inv_def split: option.splits)
    next
      case opened: True
      then obtain g m where m: "vmod v = Some (g, m)" using inv by (auto simp: vfs_inv_def split: option.splits)
      then have reg: "m = register cfu (vhist v)" "length m = 4"
        using assms(1) by (auto simp: register_inv_def dev_env_def)
      have "u = v\<lparr>vmod := Some (g, fst (snd (my_ioctl (cfu user) (ctu user) cmd m user)))\<rparr>"
        "r = Ret_mem (fst (my_ioctl (cfu user) (ctu user) cmd m user)) (snd (snd (my_ioctl (cfu user) (ctu user) cmd m user)))"
        using u(1) c opened m by (auto simp: on_file_def ioctl_demo_ko_def my_fops_def dev_env_def split: prod.splits)
      then show ?thesis
        using assms(1) reg c u(2) my_ioctl_values [where cfu = cfu and ctu = ctu, OF reads [of user] writes [of user] reg(2)]
        by (auto simp: register_inv_def dev_env_def Let_def)
    qed
  next
    case False
    then have "answer_ok cfu ctu (vhist v) (c, r)" by (cases c) auto
    moreover have "m = register cfu (vhist ?v) \<and> length m = 4" if "vmod u = Some (g, m)" for g m
      using ioctl_demo_call(2) [OF u(1) False that, of cfu] assms(1) h
      by (auto simp: register_inv_def dev_env_def)
    ultimately show ?thesis using assms(1) u(2) h by (auto simp: register_inv_def dev_env_def split: option.splits)
  qed
  then show ?thesis using step by blast
qed

end

sublocale device_kernel \<subseteq> status: trace_invariant "vfs_step (dev_env held base kmalloc cfu ctu) (ioctl_demo_ko api)"
  "call_ok (dev_env held base kmalloc cfu ctu)" "register_inv (dev_env held base kmalloc cfu ctu)"
  by unfold_locales (rule register_step)

context device_kernel
begin

lemmas driver_run = new_files.files.inv_run
lemmas ioctl_run = ioctl_files.files.inv_run
lemmas status_run = status.inv_run

end

section \<open>Properties\<close>

text \<open>Claim C9: the module of driver_demo_new.c under any sequence of system calls. Whatever programs load,
  unload, open, close, read, write and ioctl in whatever order, on whatever descriptors, and
  whether the device number or the table entry is refused, no operation of the module is called when
  it is not loaded and none stops the kernel, as long as writes are shorter than 2^31 bytes and there
  is memory for each, and the class and the device node can be made. A file is open only while the
  module is loaded, the use count is the number of open files, so that unloading is refused while
  there is one, and its entry in the table of devices is there exactly while it is loaded.\<close>

theorem driver_files_safe:
  assumes "device_kernel api held cfu ctu" and "filter_mset is_entry (held s) = base"
    and "run_ok (vfs_step (dev_env held base kmalloc cfu ctu) (driver_demo_new_ko api))
      (call_ok (dev_env held base kmalloc cfu ctu)) calls (vfs_fresh s)"
  shows "\<exists>v. run_steps (vfs_step (dev_env held base kmalloc cfu ctu) (driver_demo_new_ko api)) calls (vfs_fresh s) = Some v \<and>
    vuse v = length (vfiles v) \<and> (vmod v = None \<longrightarrow> vfiles v = []) \<and>
    filter_mset is_entry (held (vk v)) =
      (case vmod v of None \<Rightarrow> base | Some (g, klog) \<Rightarrow> add_mset (Cdev (dev_num g)) base)"
proof -
  obtain v where "run_steps (vfs_step (dev_env held base kmalloc cfu ctu) (driver_demo_new_ko api)) calls (vfs_fresh s) = Some v"
    "vfs_inv (dev_env held base kmalloc cfu ctu) (\<lambda>g. Cdev (dev_num g)) v"
    using device_kernel.driver_run [OF assms(1) fresh_inv [of held s base] assms(3)] assms(2) by blast
  then show ?thesis by (auto simp: vfs_inv_def dev_env_def split: option.splits)
qed

definition demo_env :: "kreg kernel_env" where
  "demo_env = dev_env kobjs {#} (\<lambda>_. True) user_read user_write"

definition demo_session :: "syscall list" where
  "demo_session = [Insmod, Sys_open (Cdev 0x0ea00000) 3, Rmmod, Sys_write 3 2 [104, 105], Sys_read 3 5 [1, 2],
     Sys_close 3, Sys_close 3, Rmmod, Sys_open (Cdev 0x0ea00000) 3]"

lemma demo_session_ok: "run_ok (vfs_step demo_env (driver_demo_new_ko kreg_api)) (call_ok demo_env) demo_session (vfs_fresh kreg_fresh)"
proof -
  have "device_write (\<lambda>_. True) (user_read [104, 105]) 2 = Done (2, Some [104, 105])"
    using device_write_value [of "\<lambda>_. True" 2 "[104, 105]" "user_read [104, 105]"] reads_user_read by auto
  then show ?thesis
    by (simp add: demo_session_def demo_env_def vfs_fresh_def vfs_step_def dev_env_def driver_demo_new_ko_def new_init_def
        new_exit_def kreg_api_def kreg_add_def kreg_del_def kreg_fresh_def on_file_def member_def fops_def
        device_open_def device_release_def uses_def split: prod.splits)
qed

theorem driver_files_safe_witness:
  "\<exists>v. run_steps (vfs_step demo_env (driver_demo_new_ko kreg_api)) demo_session (vfs_fresh kreg_fresh) = Some v \<and>
     vuse v = length (vfiles v)"
  using driver_files_safe [OF kreg_files.device_kernel_axioms _ demo_session_ok [unfolded demo_env_def]]
  by (auto simp: demo_env_def kreg_fresh_def)

text \<open>Claim C10: the device of ioctl_demo.c is a register that all open files share. Under any sequence of
  system calls, with arguments that can be accessed or not, a set command is answered with success
  when all four bytes of its argument could be read, as they can from accessible memory, and with
  \<open>-EFAULT\<close> otherwise; in both cases it stores the bytes that could be read and zeros for the rest, so
  that a failed set changes the value too. A get command gives the value of the last set command
  since the module was loaded, successful or not, or zero when there was none, through whatever
  descriptor either came, and \<open>-EFAULT\<close> when it cannot store all of it; other commands are answered
  with \<open>-ENOTTY\<close>, and commands on a descriptor that is not open with \<open>-EBADF\<close>.\<close>

theorem ioctl_device_is_register:
  assumes "device_kernel api held cfu ctu" and "filter_mset is_entry (held s) = base"
    and "run_ok (vfs_step (dev_env held base kmalloc cfu ctu) (ioctl_demo_ko api))
      (call_ok (dev_env held base kmalloc cfu ctu)) calls (vfs_fresh s)"
  shows "\<exists>v. run_steps (vfs_step (dev_env held base kmalloc cfu ctu) (ioctl_demo_ko api)) calls (vfs_fresh s) = Some v \<and>
    history_ok cfu ctu (vhist v) \<and> (case vmod v of None \<Rightarrow> vfiles v = [] | Some (g, m) \<Rightarrow> m = register cfu (vhist v))"
proof -
  have "register_inv (dev_env held base kmalloc cfu ctu) (vfs_fresh s)"
    using fresh_inv [of held s base] assms(2) by (simp add: register_inv_def history_ok_def vfs_fresh_def)
  then obtain v where "run_steps (vfs_step (dev_env held base kmalloc cfu ctu) (ioctl_demo_ko api)) calls (vfs_fresh s) = Some v"
    "register_inv (dev_env held base kmalloc cfu ctu) v"
    using device_kernel.status_run [OF assms(1) _ assms(3)] by blast
  then show ?thesis by (auto simp: register_inv_def vfs_inv_def dev_env_def split: option.splits)
qed

definition demo_ioctls :: "syscall list" where
  "demo_ioctls = [Insmod, Sys_open (Cdev 0x0ea00000) 3, Sys_open (Cdev 0x0ea00000) 4,
     Sys_ioctl 3 MY_IOCTL_SET_STATUS (bytes32 3344), Sys_close 3, Sys_ioctl 4 MY_IOCTL_GET_STATUS (bytes32 0),
     Sys_ioctl 4 MY_IOCTL_SET_STATUS [7, 7], Sys_ioctl 4 MY_IOCTL_GET_STATUS (bytes32 0)]"

lemma demo_ioctls_ok: "run_ok (vfs_step demo_env (ioctl_demo_ko kreg_api)) (call_ok demo_env) demo_ioctls (vfs_fresh kreg_fresh)"
  by code_simp

theorem ioctl_device_is_register_witness:
  "\<exists>v. run_steps (vfs_step demo_env (ioctl_demo_ko kreg_api)) demo_ioctls (vfs_fresh kreg_fresh) = Some v \<and>
     history_ok user_read user_write (vhist v)"
  using ioctl_device_is_register [OF kreg_files.device_kernel_axioms _ demo_ioctls_ok [unfolded demo_env_def]]
  by (auto simp: demo_env_def kreg_fresh_def)

text \<open>Further: driver_demo.c is not safe in this way. Its exit unregisters major number 0 and leaves the
  one it was given in the table: opening the device after the module has been unloaded calls an
  operation in memory that is no longer there.\<close>

theorem driver_demo_dangling_entry:
  assumes "chr_kernel api held" and "register_chrdev api 0 s = (m, s')" and "0 < m"
    and "filter_mset is_entry (held s) = base" and "Major 0 \<notin># held s"
  shows "\<exists>v. run_steps (vfs_step (dev_env held base kmalloc cfu ctu) (driver_demo_ko api)) [Insmod, Rmmod] (vfs_fresh s) = Some v \<and>
    vmod v = None \<and> vfs_step (dev_env held base kmalloc cfu ctu) (driver_demo_ko api) (Sys_open (Major (nat m)) fd) v = None"
proof -
  have "held s' = add_mset (Major (nat m)) (held s)" using chr_kernel.register_major [OF assms(1,2)] assms(3) by simp
  moreover have "held (unregister_chrdev api 0 s') = held s' - {#Major 0#}" using chr_kernel.unregister_major [OF assms(1)] .
  ultimately have "held (unregister_chrdev api 0 s') = add_mset (Major (nat m)) (held s)"
    using assms(3,5) by (simp add: diff_single_trivial)
  then show ?thesis using assms(2,4)
    by (simp add: vfs_step_def vfs_fresh_def driver_demo_ko_def driver_init_def driver_exit_def dev_env_def)
qed

theorem driver_demo_dangling_entry_witness:
  "\<exists>v. run_steps (vfs_step demo_env (driver_demo_ko kreg_api)) [Insmod, Rmmod] (vfs_fresh kreg_fresh) = Some v \<and>
     vfs_step demo_env (driver_demo_ko kreg_api) (Sys_open (Major 234) 3) v = None"
  using driver_demo_dangling_entry [OF kreg.chr_kernel_axioms, of kreg_fresh 234 "kreg_add (Major 234) kreg_fresh" "{#}" "\<lambda>_. True" user_read user_write 3]
  by (auto simp: demo_env_def kreg_api_def kreg_fresh_def)

text \<open>Further: a write through the file is logged and a read through it gives the fixed text, whatever
  length the caller asked for.\<close>

theorem driver_file_io:
  assumes "device_kernel api held cfu ctu" and "fd \<in> set (vfiles v)" and "vmod v = Some (g, klog)"
    and "unat len < 2 ^ 31" and "unat len \<le> length user" and "kmalloc (len + 1)" and "12 \<le> length user"
  shows "vfs_call (dev_env held base kmalloc cfu ctu) (driver_demo_new_ko api) (Sys_write fd len user) v =
      Some (v\<lparr>vmod := Some (g, klog @ [takeWhile (\<lambda>x. x \<noteq> 0) (take (unat len) user)])\<rparr>, Ret (sint len)) \<and>
    vfs_call (dev_env held base kmalloc cfu ctu) (driver_demo_new_ko api) (Sys_read fd len user) v =
      Some (v, Ret_mem (sint len) (bytes_of ''derek sunder'' @ drop 12 user))"
proof
  have user: "reads_user user (cfu user)" "writes_user user (ctu user)"
    using assms(1) by (simp_all add: device_kernel.reads device_kernel.writes)
  have "device_write kmalloc (cfu user) len = Done (sint len, Some (takeWhile (\<lambda>x. x \<noteq> 0) (take (unat len) user)))"
    using device_write_value [of kmalloc len user "cfu user", OF assms(6,4) user(1)] assms(5) by auto
  then show "vfs_call (dev_env held base kmalloc cfu ctu) (driver_demo_new_ko api) (Sys_write fd len user) v =
      Some (v\<lparr>vmod := Some (g, klog @ [takeWhile (\<lambda>x. x \<noteq> 0) (take (unat len) user)])\<rparr>, Ret (sint len))"
    using assms(2,3) by (simp add: on_file_def dev_env_def driver_demo_new_ko_def fops_def)
  show "vfs_call (dev_env held base kmalloc cfu ctu) (driver_demo_new_ko api) (Sys_read fd len user) v =
      Some (v, Ret_mem (sint len) (bytes_of ''derek sunder'' @ drop 12 user))"
    using assms(2,3) device_read_value [OF user(2) assms(7), of len]
    by (simp add: on_file_def dev_env_def driver_demo_new_ko_def fops_def)
qed

end
