(* ===== verification/Kthreads.thy ===== *)
theory Kthreads
  imports Prelude
begin

text \<open>
  The two synchronisation modules src/complete/complete_demo.c and src/semaphore/semaphore_demo.c,
  as step relations over the program counters of the threads that run their code. The
  scheduler may switch between any two steps; a step is one kernel call or one access to
  \<open>shared_resource\<close>. Completions and semaphores are their documented counters.
\<close>

section \<open>A thread and its completion\<close>

text \<open>Where \<open>my_module_init\<close>, the thread function and \<open>my_module_exit\<close> are. \<open>W_Tail\<close> is the rest of
  \<open>my_thread_func\<close> behind the call of \<open>complete\<close>.\<close>

datatype init_pc = I_Init | I_Run | I_Wait | I_Clear | I_Return int
datatype work_pc = W_Absent | W_Sleep | W_Update | W_Complete | W_Tail | W_Exited
datatype exit_pc = E_Not_Called | E_Test | E_Stop | E_Gone

record cd_state =
  ipc :: init_pc
  wpc :: work_pc
  epc :: exit_pc
  compl_done :: nat
  cd_shared :: int
  my_thread :: bool
  should_stop :: bool

definition cd_start :: cd_state where
  "cd_start = \<lparr>ipc = I_Init, wpc = W_Absent, epc = E_Not_Called, compl_done = 0, cd_shared = 0,
     my_thread = False, should_stop = False\<rparr>"

text \<open>The exit function may be called once the module is loaded, that is after
  \<open>my_module_init\<close> returned 0; when it has returned, the code of the module is gone.\<close>

inductive cd_step :: "cd_state \<Rightarrow> cd_state \<Rightarrow> bool" where
  init_completion: "ipc s = I_Init \<Longrightarrow> cd_step s (s\<lparr>compl_done := 0, ipc := I_Run\<rparr>)"
| kthread_run: "ipc s = I_Run \<Longrightarrow> cd_step s (s\<lparr>my_thread := True, wpc := W_Sleep, ipc := I_Wait\<rparr>)"
| kthread_run_err: "ipc s = I_Run \<Longrightarrow> e < 0 \<Longrightarrow> cd_step s (s\<lparr>my_thread := True, ipc := I_Return e\<rparr>)"
| wait_for_completion: "ipc s = I_Wait \<Longrightarrow> 0 < compl_done s \<Longrightarrow>
    cd_step s (s\<lparr>compl_done := compl_done s - 1, ipc := I_Clear\<rparr>)"
| init_returns: "ipc s = I_Clear \<Longrightarrow> cd_step s (s\<lparr>my_thread := False, ipc := I_Return 0\<rparr>)"
| msleep: "wpc s = W_Sleep \<Longrightarrow> cd_step s (s\<lparr>wpc := W_Update\<rparr>)"
| update: "wpc s = W_Update \<Longrightarrow> cd_step s (s\<lparr>cd_shared := cd_shared s + 1, wpc := W_Complete\<rparr>)"
| complete: "wpc s = W_Complete \<Longrightarrow> cd_step s (s\<lparr>compl_done := compl_done s + 1, wpc := W_Tail\<rparr>)"
| thread_returns: "wpc s = W_Tail \<Longrightarrow> cd_step s (s\<lparr>wpc := W_Exited\<rparr>)"
| rmmod: "ipc s = I_Return 0 \<Longrightarrow> epc s = E_Not_Called \<Longrightarrow> cd_step s (s\<lparr>epc := E_Test\<rparr>)"
| exit_stops: "epc s = E_Test \<Longrightarrow> my_thread s \<Longrightarrow> cd_step s (s\<lparr>should_stop := True, epc := E_Stop\<rparr>)"
| exit_stopped: "epc s = E_Stop \<Longrightarrow> wpc s = W_Exited \<Longrightarrow> cd_step s (s\<lparr>epc := E_Gone\<rparr>)"
| exit_no_thread: "epc s = E_Test \<Longrightarrow> \<not> my_thread s \<Longrightarrow> cd_step s (s\<lparr>epc := E_Gone\<rparr>)"

abbreviation cd_reachable :: "cd_state \<Rightarrow> bool" where
  "cd_reachable s \<equiv> cd_step\<^sup>*\<^sup>* cd_start s"

text \<open>The counter of the completion and the shared variable, read off the program counters.\<close>

definition updates :: "work_pc \<Rightarrow> nat" where
  "updates w = (if w \<in> {W_Complete, W_Tail, W_Exited} then 1 else 0)"

definition signals :: "work_pc \<Rightarrow> nat" where
  "signals w = (if w \<in> {W_Tail, W_Exited} then 1 else 0)"

definition cd_inv :: "cd_state \<Rightarrow> bool" where
  "cd_inv s \<longleftrightarrow> cd_shared s = int (updates (wpc s)) \<and>
     (wpc s = W_Absent \<longleftrightarrow> ipc s \<in> {I_Init, I_Run} \<or> (\<exists>e < 0. ipc s = I_Return e)) \<and>
     compl_done s + (if ipc s \<in> {I_Clear, I_Return 0} then 1 else 0) = signals (wpc s) \<and>
     (\<forall>e. ipc s = I_Return e \<longrightarrow> e \<le> 0) \<and> (ipc s = I_Return 0 \<longrightarrow> \<not> my_thread s) \<and>
     (epc s \<noteq> E_Not_Called \<longrightarrow> ipc s = I_Return 0) \<and> epc s \<noteq> E_Stop \<and> \<not> should_stop s"

lemma cd_inv_start: "cd_inv cd_start"
  by (simp add: cd_inv_def cd_start_def updates_def signals_def)

lemma cd_inv_step: "cd_step s t \<Longrightarrow> cd_inv s \<Longrightarrow> cd_inv t"
  by (induction rule: cd_step.induct)
     (auto simp: cd_inv_def updates_def signals_def split: if_splits)

lemma cd_inv_reachable: "cd_reachable s \<Longrightarrow> cd_inv s"
  by (induction rule: rtranclp_induct) (auto intro: cd_inv_start cd_inv_step)







section \<open>The semaphore\<close>

text \<open>
  \<open>access_shared_resource\<close> as any number of tasks run it: \<open>down_interruptible\<close> takes the semaphore
  or fails with a signal, \<open>shared_resource++\<close> is a load and a store, \<open>up\<close> releases.
\<close>

datatype task_pc = T_Down | T_Load | T_Store int | T_Print | T_Out | T_Interrupted

record sem_state =
  sem_count :: nat
  sem_shared :: int
  tasks :: "task_pc list"

definition sem_start :: "nat \<Rightarrow> sem_state" where
  "sem_start n = \<lparr>sem_count = 1, sem_shared = 0, tasks = replicate n T_Down\<rparr>"

inductive sem_step :: "sem_state \<Rightarrow> sem_state \<Rightarrow> bool" where
  down: "i < length (tasks s) \<Longrightarrow> tasks s ! i = T_Down \<Longrightarrow> 0 < sem_count s \<Longrightarrow>
    sem_step s (s\<lparr>sem_count := sem_count s - 1, tasks := (tasks s)[i := T_Load]\<rparr>)"
| interrupted: "i < length (tasks s) \<Longrightarrow> tasks s ! i = T_Down \<Longrightarrow>
    sem_step s (s\<lparr>tasks := (tasks s)[i := T_Interrupted]\<rparr>)"
| load: "i < length (tasks s) \<Longrightarrow> tasks s ! i = T_Load \<Longrightarrow>
    sem_step s (s\<lparr>tasks := (tasks s)[i := T_Store (sem_shared s)]\<rparr>)"
| store: "i < length (tasks s) \<Longrightarrow> tasks s ! i = T_Store v \<Longrightarrow>
    sem_step s (s\<lparr>sem_shared := v + 1, tasks := (tasks s)[i := T_Print]\<rparr>)"
| up: "i < length (tasks s) \<Longrightarrow> tasks s ! i = T_Print \<Longrightarrow>
    sem_step s (s\<lparr>sem_count := sem_count s + 1, tasks := (tasks s)[i := T_Out]\<rparr>)"

text \<open>\<open>my_module_init\<close> calls it twice, one after the other; its arguments say whether a signal
  arrives while it waits.\<close>

definition access_shared_resource :: "bool \<Rightarrow> nat \<times> int \<Rightarrow> nat \<times> int" where
  "access_shared_resource signal = (\<lambda>(cnt, shared).
     if signal then (cnt, shared)
     else let cnt = cnt - 1; shared = shared + 1 in (cnt + 1, shared))"

definition sem_module_init :: "bool \<Rightarrow> bool \<Rightarrow> nat \<times> int" where
  "sem_module_init sig1 sig2 = access_shared_resource sig2 (access_shared_resource sig1 (1, 0))"

fun in_section :: "task_pc \<Rightarrow> bool" where
  "in_section T_Load = True" | "in_section (T_Store v) = True" | "in_section T_Print = True"
| "in_section _ = False"

fun has_stored :: "task_pc \<Rightarrow> bool" where
  "has_stored T_Print = True" | "has_stored T_Out = True" | "has_stored _ = False"

definition sem_inv :: "nat \<Rightarrow> sem_state \<Rightarrow> bool" where
  "sem_inv n s \<longleftrightarrow> length (tasks s) = n \<and>
     sem_count s + length (filter in_section (tasks s)) = 1 \<and>
     sem_shared s = int (length (filter has_stored (tasks s))) \<and>
     (\<forall>v. T_Store v \<in> set (tasks s) \<longrightarrow> v = sem_shared s)"

lemma sem_inv_start: "sem_inv n (sem_start n)"
  by (simp add: sem_inv_def sem_start_def)

lemma sem_inv_step: "sem_step s t \<Longrightarrow> sem_inv n s \<Longrightarrow> sem_inv n t"
proof (induction rule: sem_step.induct)
  case (down i s)
  then have "length (filter in_section (tasks s)) = 0" unfolding sem_inv_def by linarith
  with down show ?case
    using length_filter_update [OF down(1), of in_section T_Load]
      length_filter_update [OF down(1), of has_stored T_Load]
    by (auto simp: sem_inv_def dest!: set_update_subset_insert [THEN subsetD])
next
  case (interrupted i s)
  then show ?case
    using length_filter_update [OF interrupted(1), of in_section T_Interrupted]
      length_filter_update [OF interrupted(1), of has_stored T_Interrupted]
    by (auto simp: sem_inv_def dest!: set_update_subset_insert [THEN subsetD])
next
  case (load i s)
  then show ?case
    using length_filter_update [OF load(1), of in_section "T_Store (sem_shared s)"]
      length_filter_update [OF load(1), of has_stored "T_Store (sem_shared s)"]
    by (auto simp: sem_inv_def dest!: set_update_subset_insert [THEN subsetD])
next
  case (store i s v)
  have "T_Store v \<in> set (tasks s)" using store(1,2) by (metis nth_mem)
  moreover have "T_Store w \<notin> set ((tasks s)[i := T_Print])" for w
    using only_one_in_filter [of in_section "tasks s" i "T_Store w" T_Print] store
    by (auto simp: sem_inv_def)
  ultimately show ?case
    using store length_filter_update [OF store(1), of in_section T_Print]
      length_filter_update [OF store(1), of has_stored T_Print]
    by (auto simp: sem_inv_def)
next
  case (up i s)
  note cnt = length_filter_update [OF up(1), of in_section T_Out]
  have "length (filter in_section ((tasks s)[i := T_Out])) = 0"
    using cnt up(3) unfolding sem_inv_def up(2) in_section.simps if_True if_False by linarith
  with up show ?case
    using cnt length_filter_update [OF up(1), of has_stored T_Out]
    by (auto simp: sem_inv_def dest!: set_update_subset_insert [THEN subsetD])
qed

lemma sem_inv_reachable: "sem_step\<^sup>*\<^sup>* (sem_start n) s \<Longrightarrow> sem_inv n s"
  by (induction rule: rtranclp_induct) (auto intro: sem_inv_start sem_inv_step)

text \<open>Steps that a task has left at most; every step of a run uses one up.\<close>

fun task_left :: "task_pc \<Rightarrow> nat" where
  "task_left T_Down = 4" | "task_left T_Load = 3" | "task_left (T_Store v) = 2" | "task_left T_Print = 1"
| "task_left _ = 0"

definition sem_left :: "sem_state \<Rightarrow> nat" where
  "sem_left s = sum_list (map task_left (tasks s))"

lemma sum_list_update_less:
  fixes f :: "'a \<Rightarrow> nat"
  assumes "i < length xs" and "f x < f (xs ! i)"
  shows "sum_list (map f (xs[i := x])) < sum_list (map f xs)"
  using assms by (induction xs arbitrary: i) (auto simp: nth_Cons split: nat.splits)

lemma sem_left_less: "sem_step s t \<Longrightarrow> sem_left t < sem_left s"
  by (induction rule: sem_step.induct) (auto simp: sem_left_def intro!: sum_list_update_less)

text \<open>A task in the section can move; when none is there, the semaphore is free for one that waits. No
  signal is needed for either.\<close>

definition interrupted_tasks :: "sem_state \<Rightarrow> nat" where
  "interrupted_tasks s = length (filter (\<lambda>t. t = T_Interrupted) (tasks s))"

lemma sem_moves:
  assumes "sem_inv n s" and "\<not> set (tasks s) \<subseteq> {T_Out, T_Interrupted}"
  shows "\<exists>t. sem_step s t \<and> interrupted_tasks t = interrupted_tasks s"
proof -
  have keep: "length (filter (\<lambda>t. t = T_Interrupted) ((tasks s)[i := x])) = interrupted_tasks s"
    if "i < length (tasks s)" "tasks s ! i \<noteq> T_Interrupted" "x \<noteq> T_Interrupted" for i x
    using length_filter_update [OF that(1), of "\<lambda>t. t = T_Interrupted" x] that by (simp add: interrupted_tasks_def)
  show ?thesis
  proof (cases "\<exists>i < length (tasks s). in_section (tasks s ! i)")
    case True
    then obtain i where i: "i < length (tasks s)" "in_section (tasks s ! i)" by blast
    show ?thesis
      using i keep [OF i(1)] sem_step.load [OF i(1)] sem_step.store [OF i(1)] sem_step.up [OF i(1)]
      by (cases "tasks s ! i") (fastforce simp: interrupted_tasks_def)+
  next
    case False
    then have "filter in_section (tasks s) = []" by (auto simp: filter_empty_conv in_set_conv_nth)
    then have free: "0 < sem_count s" using assms(1) by (simp add: sem_inv_def)
    obtain i where i: "i < length (tasks s)" "tasks s ! i \<notin> {T_Out, T_Interrupted}"
      using assms(2) by (metis in_set_conv_nth subsetI)
    then have "tasks s ! i = T_Down" using False by (cases "tasks s ! i") auto
    then show ?thesis using sem_step.down [OF i(1) _ free] keep [OF i(1)]
      by (fastforce simp: interrupted_tasks_def)
  qed
qed

section \<open>Properties\<close>

text \<open>Claim C30: in every interleaving of \<open>my_module_init\<close>, the thread and \<open>my_module_exit\<close> of
  complete_demo.c, initialisation gets past \<open>wait_for_completion\<close> only after the thread has
  updated \<open>shared_resource\<close>, exactly once.\<close>

theorem complete_demo_orders:
  assumes "cd_step\<^sup>*\<^sup>* cd_start s" and "ipc s \<in> {I_Clear, I_Return 0}"
  shows "cd_shared s = 1 \<and> wpc s \<in> {W_Tail, W_Exited}"
  using cd_inv_reachable [OF assms(1)] assms(2)
  by (auto simp: cd_inv_def updates_def signals_def split: if_splits)

definition cd_loaded :: cd_state where
  "cd_loaded = cd_start\<lparr>ipc := I_Return 0, wpc := W_Tail, cd_shared := 1\<rparr>"

lemma cd_loaded_reachable: "cd_step\<^sup>*\<^sup>* cd_start cd_loaded"
proof -
  note rtranclp.rtrancl_into_rtrancl [trans]
  let ?s = "cd_start\<lparr>compl_done := 0, ipc := I_Run\<rparr>"
  have "cd_step\<^sup>*\<^sup>* cd_start ?s" by (rule r_into_rtranclp, rule cd_step.init_completion) (simp add: cd_start_def)
  also have "cd_step ?s (?s\<lparr>my_thread := True, wpc := W_Sleep, ipc := I_Wait\<rparr>)" (is "cd_step _ ?t")
    by (rule cd_step.kthread_run) simp
  also have "cd_step ?t (?t\<lparr>wpc := W_Update\<rparr>)" (is "cd_step _ ?u") by (rule cd_step.msleep) simp
  also have "cd_step ?u (?u\<lparr>cd_shared := cd_shared ?u + 1, wpc := W_Complete\<rparr>)" (is "cd_step _ ?v")
    by (rule cd_step.update) simp
  also have "cd_step ?v (?v\<lparr>compl_done := compl_done ?v + 1, wpc := W_Tail\<rparr>)" (is "cd_step _ ?w")
    by (rule cd_step.complete) simp
  also have "cd_step ?w (?w\<lparr>compl_done := compl_done ?w - 1, ipc := I_Clear\<rparr>)" (is "cd_step _ ?x")
    by (rule cd_step.wait_for_completion) simp_all
  also have "cd_step ?x (?x\<lparr>my_thread := False, ipc := I_Return 0\<rparr>)" (is "cd_step _ ?y")
    by (rule cd_step.init_returns) simp
  finally have "cd_step\<^sup>*\<^sup>* cd_start ?y" .
  moreover have "?y = cd_loaded" by (simp add: cd_loaded_def cd_start_def)
  ultimately show ?thesis by simp
qed

theorem complete_demo_orders_witness: "cd_shared cd_loaded = 1"
  using complete_demo_orders [OF cd_loaded_reachable] by (simp add: cd_loaded_def)


definition cd_unloaded :: cd_state where
  "cd_unloaded = cd_loaded\<lparr>epc := E_Gone\<rparr>"

lemma cd_unloaded_reachable: "cd_step\<^sup>*\<^sup>* cd_start cd_unloaded"
proof -
  note rtranclp.rtrancl_into_rtrancl [trans]
  have "cd_step\<^sup>*\<^sup>* cd_start cd_loaded" by (rule cd_loaded_reachable)
  also have "cd_step cd_loaded (cd_loaded\<lparr>epc := E_Test\<rparr>)"
    by (rule cd_step.rmmod) (simp_all add: cd_loaded_def cd_start_def)
  also have "cd_step (cd_loaded\<lparr>epc := E_Test\<rparr>) (cd_loaded\<lparr>epc := E_Test\<rparr>\<lparr>epc := E_Gone\<rparr>)"
    by (rule cd_step.exit_no_thread) (simp_all add: cd_loaded_def cd_start_def)
  finally show ?thesis by (simp add: cd_unloaded_def)
qed


text \<open>Further: unloading does not wait for the thread. \<open>my_module_init\<close> has cleared \<open>my_thread\<close>, so
  \<open>my_module_exit\<close> never calls \<open>kthread_stop\<close>, and the module can be gone while its thread is
  still behind \<open>complete\<close> in the code of the module.\<close>

theorem complete_demo_unloads_under_thread:
  "(\<exists>s. cd_step\<^sup>*\<^sup>* cd_start s \<and> epc s = E_Gone \<and> wpc s = W_Tail) \<and>
   (\<forall>s. cd_step\<^sup>*\<^sup>* cd_start s \<longrightarrow> \<not> should_stop s \<and> epc s \<noteq> E_Stop)"
proof (intro conjI exI [of _ cd_unloaded] allI impI)
  show "cd_step\<^sup>*\<^sup>* cd_start cd_unloaded" by (rule cd_unloaded_reachable)
qed (auto simp: cd_unloaded_def cd_loaded_def cd_inv_def dest!: cd_inv_reachable)

theorem complete_demo_unloads_under_thread_witness: "\<not> should_stop cd_unloaded"
  using complete_demo_unloads_under_thread cd_unloaded_reachable by blast

text \<open>Claim C20: for any number of tasks in \<open>access_shared_resource\<close> of semaphore_demo.c and any
  interleaving, at most one is between \<open>down_interruptible\<close> and \<open>up\<close>, no increment is lost, and
  when all tasks are through, the semaphore is free again and \<open>shared_resource\<close> counts the
  tasks that were not interrupted. The two calls of \<open>my_module_init\<close> agree with that count.\<close>

theorem semaphore_demo_excludes:
  assumes "sem_step\<^sup>*\<^sup>* (sem_start n) s"
  shows "length (filter in_section (tasks s)) \<le> 1 \<and>
    sem_shared s = int (length (filter has_stored (tasks s))) \<and>
    (set (tasks s) \<subseteq> {T_Out, T_Interrupted} \<longrightarrow> sem_count s = 1 \<and>
       sem_shared s = int (length (filter (\<lambda>t. t = T_Out) (tasks s)))) \<and>
    sem_module_init sig1 sig2 = (1, int (length (filter Not [sig1, sig2])))"
proof -
  have inv: "sem_inv n s" by (rule sem_inv_reachable [OF assms])
  have "sem_count s = 1 \<and> sem_shared s = int (length (filter (\<lambda>t. t = T_Out) (tasks s)))"
    if "set (tasks s) \<subseteq> {T_Out, T_Interrupted}"
  proof -
    have "filter in_section (tasks s) = []" using that by (auto simp: filter_empty_conv)
    moreover have "filter has_stored (tasks s) = filter (\<lambda>t. t = T_Out) (tasks s)"
      using that by (intro filter_cong) auto
    ultimately show ?thesis using inv by (simp add: sem_inv_def)
  qed
  with inv show ?thesis
    by (auto simp: sem_inv_def sem_module_init_def access_shared_resource_def Let_def)
qed

theorem semaphore_demo_excludes_witness:
  "sem_shared (sem_start 2) = 0 \<and> sem_module_init False False = (1, 2)"
  using semaphore_demo_excludes [of 2 "sem_start 2" False False] by (simp add: sem_start_def)

text \<open>Claim C21: the tasks of semaphore_demo.c get through: for any number of tasks no run is infinite,
  and in every reachable state in which some task has not left \<open>access_shared_resource\<close> there is a
  step other than an interruption, so that the tasks never wait for each other. When all have left,
  the semaphore is free and \<open>shared_resource\<close> counts the tasks that were not interrupted.\<close>

theorem semaphore_demo_ends:
  "\<not> (\<exists>run. run 0 = sem_start n \<and> (\<forall>i. sem_step (run i) (run (Suc i)))) \<and>
   (sem_step\<^sup>*\<^sup>* (sem_start n) s \<longrightarrow>
     (if set (tasks s) \<subseteq> {T_Out, T_Interrupted}
      then sem_count s = 1 \<and> sem_shared s = int n - int (interrupted_tasks s)
      else \<exists>t. sem_step s t \<and> interrupted_tasks t = interrupted_tasks s))"
proof (intro conjI notI impI)
  assume "\<exists>run. run 0 = sem_start n \<and> (\<forall>i. sem_step (run i) (run (Suc i)))"
  then obtain run where "\<And>i. sem_step (run i) (run (Suc i))" by blast
  then have "(run (Suc i), run i) \<in> measure sem_left" for i using sem_left_less by simp
  then show False using wf_measure [of sem_left] unfolding wf_iff_no_infinite_down_chain by blast
next
  assume "sem_step\<^sup>*\<^sup>* (sem_start n) s"
  then have inv: "sem_inv n s" by (rule sem_inv_reachable)
  have "sem_count s = 1 \<and> sem_shared s = int n - int (interrupted_tasks s)"
    if through: "set (tasks s) \<subseteq> {T_Out, T_Interrupted}"
  proof -
    have "filter in_section (tasks s) = []" using through by (auto simp: filter_empty_conv)
    moreover have "int (length (filter has_stored ts)) = int (length ts) - int (length (filter (\<lambda>t. t = T_Interrupted) ts))"
      if "set ts \<subseteq> {T_Out, T_Interrupted}" for ts
      using that by (induction ts) auto
    ultimately show ?thesis using inv through by (simp add: sem_inv_def interrupted_tasks_def)
  qed
  then show "if set (tasks s) \<subseteq> {T_Out, T_Interrupted}
      then sem_count s = 1 \<and> sem_shared s = int n - int (interrupted_tasks s)
      else \<exists>t. sem_step s t \<and> interrupted_tasks t = interrupted_tasks s"
    using sem_moves [OF inv] by simp
qed

theorem semaphore_demo_ends_witness: "\<exists>t. sem_step (sem_start 2) t \<and> interrupted_tasks t = 0"
  using semaphore_demo_ends [of 2 "sem_start 2"] by (auto simp: sem_start_def interrupted_tasks_def)

end
