(* ===== verification/Deferred.thy ===== *)
theory Deferred
  imports Prelude
begin

text \<open>
  The modules that hand a callback to the kernel: src/timer_list.c, src/workqueue/demoqueue.c,
  src/tasklet/tasklet_demo.c and src/task_work/task_work_demo.c. The first three are step
  relations of the module and its callback, which runs on another processor whenever it is
  due. The question for each of them is whether the callback can still be due or running when
  \<open>my_module_exit\<close> has returned and the code of the module is freed.
\<close>

section \<open>The contract\<close>

text \<open>Unloading is safe when the call in the exit function leaves the callback neither due nor
  running, and nothing makes it due afterwards.\<close>

locale safe_unload =
  fixes step :: "'s \<Rightarrow> 's \<Rightarrow> bool"
    and start :: 's
    and gone :: "'s \<Rightarrow> bool"
    and busy :: "'s \<Rightarrow> bool"
  assumes start_loaded: "\<not> gone start"
    and exit_quiet: "step s t \<Longrightarrow> \<not> gone s \<Longrightarrow> gone t \<Longrightarrow> \<not> busy t"
    and gone_stays: "step s t \<Longrightarrow> gone s \<Longrightarrow> \<not> busy s \<Longrightarrow> gone t \<and> \<not> busy t"
begin

lemma never_busy: "step\<^sup>*\<^sup>* start s \<Longrightarrow> gone s \<Longrightarrow> \<not> busy s"
  by (induction rule: rtranclp_induct) (use start_loaded exit_quiet gone_stays in blast)+

end

section \<open>Model\<close>

datatype cb_pc = C_Idle | C_Entry | C_Tail
datatype mod_pc = M_New | M_Failed | M_Loaded | M_Cancelled | M_Gone

record dw_state =
  pending :: bool
  cb :: cb_pc
  mpc :: mod_pc
  runs :: nat

definition dw_start :: dw_state where
  "dw_start = \<lparr>pending = False, cb = C_Idle, mpc = M_New, runs = 0\<rparr>"

definition dw_gone :: "dw_state \<Rightarrow> bool" where
  "dw_gone s \<longleftrightarrow> mpc s \<in> {M_Cancelled, M_Gone}"

definition dw_busy :: "dw_state \<Rightarrow> bool" where
  "dw_busy s \<longleftrightarrow> pending s \<or> cb s \<noteq> C_Idle"

text \<open>The timer: its callback sets it again with \<open>mod_timer\<close>; \<open>del_timer\<close> takes a pending timer off
  and does not wait for a callback that is running.\<close>

inductive timer_step :: "dw_state \<Rightarrow> dw_state \<Rightarrow> bool" where
  timer_init: "mpc s = M_New \<Longrightarrow> timer_step s (s\<lparr>pending := True, mpc := M_Loaded\<rparr>)"
| timer_expires: "pending s \<Longrightarrow> cb s = C_Idle \<Longrightarrow>
    timer_step s (s\<lparr>pending := False, cb := C_Entry, runs := runs s + 1\<rparr>)"
| timer_mod: "cb s = C_Entry \<Longrightarrow> timer_step s (s\<lparr>pending := True, cb := C_Tail\<rparr>)"
| timer_return: "cb s = C_Tail \<Longrightarrow> timer_step s (s\<lparr>cb := C_Idle\<rparr>)"
| timer_del: "mpc s = M_Loaded \<Longrightarrow> timer_step s (s\<lparr>pending := False, mpc := M_Cancelled\<rparr>)"
| timer_exit: "mpc s = M_Cancelled \<Longrightarrow> timer_step s (s\<lparr>mpc := M_Gone\<rparr>)"

text \<open>The work queue: \<open>cancel_work_sync\<close> takes the work off the queue and returns only when its
  function is not running; the queue is destroyed after that.\<close>

inductive work_step :: "dw_state \<Rightarrow> dw_state \<Rightarrow> bool" where
  work_init: "mpc s = M_New \<Longrightarrow> work_step s (s\<lparr>pending := True, mpc := M_Loaded\<rparr>)"
| work_init_nomem: "mpc s = M_New \<Longrightarrow> work_step s (s\<lparr>mpc := M_Failed\<rparr>)"
| work_runs: "pending s \<Longrightarrow> cb s = C_Idle \<Longrightarrow>
    work_step s (s\<lparr>pending := False, cb := C_Entry, runs := runs s + 1\<rparr>)"
| work_return: "cb s = C_Entry \<Longrightarrow> work_step s (s\<lparr>cb := C_Idle\<rparr>)"
| work_cancel_sync: "mpc s = M_Loaded \<Longrightarrow> cb s = C_Idle \<Longrightarrow>
    work_step s (s\<lparr>pending := False, mpc := M_Cancelled\<rparr>)"
| work_exit: "mpc s = M_Cancelled \<Longrightarrow> work_step s (s\<lparr>mpc := M_Gone\<rparr>)"

text \<open>The tasklet: \<open>tasklet_kill\<close> waits until a scheduled tasklet has run.\<close>

inductive tasklet_step :: "dw_state \<Rightarrow> dw_state \<Rightarrow> bool" where
  tasklet_init: "mpc s = M_New \<Longrightarrow> tasklet_step s (s\<lparr>pending := True, mpc := M_Loaded\<rparr>)"
| tasklet_runs: "pending s \<Longrightarrow> cb s = C_Idle \<Longrightarrow>
    tasklet_step s (s\<lparr>pending := False, cb := C_Entry, runs := runs s + 1\<rparr>)"
| tasklet_return: "cb s = C_Entry \<Longrightarrow> tasklet_step s (s\<lparr>cb := C_Idle\<rparr>)"
| tasklet_kill: "mpc s = M_Loaded \<Longrightarrow> \<not> pending s \<Longrightarrow> cb s = C_Idle \<Longrightarrow>
    tasklet_step s (s\<lparr>mpc := M_Cancelled\<rparr>)"
| tasklet_exit: "mpc s = M_Cancelled \<Longrightarrow> tasklet_step s (s\<lparr>mpc := M_Gone\<rparr>)"

text \<open>The task work: every load allocates one structure and queues it for the current process,
  which runs the callbacks on its way back to user space. \<open>tw_live\<close> counts the structures
  allocated and not freed, \<open>tw_log\<close> the data that was printed.\<close>

record tw_state =
  tw_queue :: "int list"
  tw_live :: nat
  tw_log :: "int list"

definition demo_init :: "bool \<Rightarrow> tw_state \<Rightarrow> int \<times> tw_state" where
  "demo_init kzalloc s =
     (if \<not> kzalloc then (-12, s)
      else (0, s\<lparr>tw_live := tw_live s + 1, tw_queue := tw_queue s @ [3344]\<rparr>))"

definition my_task_work_callback :: "int \<Rightarrow> tw_state \<Rightarrow> tw_state" where
  "my_task_work_callback dwork_data s = s\<lparr>tw_log := tw_log s @ [dwork_data]\<rparr>"

definition return_to_user :: "tw_state \<Rightarrow> tw_state" where
  "return_to_user s = fold my_task_work_callback (tw_queue s) (s\<lparr>tw_queue := []\<rparr>)"

definition demo_exit :: "tw_state \<Rightarrow> tw_state" where
  "demo_exit s = s"

inductive_simps timer_step_simps: "timer_step s t"
inductive_simps work_step_simps: "work_step s t"
inductive_simps tasklet_step_simps: "tasklet_step s t"

section \<open>Safe modules\<close>

interpretation work: safe_unload work_step dw_start dw_gone dw_busy
  by unfold_locales
     (auto simp: work_step_simps dw_start_def dw_gone_def dw_busy_def)

interpretation tasklet: safe_unload tasklet_step dw_start dw_gone dw_busy
  by unfold_locales
     (auto simp: tasklet_step_simps dw_start_def dw_gone_def dw_busy_def)

text \<open>A callback that is queued once runs at most once.\<close>

definition once_inv :: "dw_state \<Rightarrow> bool" where
  "once_inv s \<longleftrightarrow> (if mpc s \<in> {M_New, M_Failed} then \<not> dw_busy s \<and> runs s = 0
     else runs s + (if pending s then 1 else 0) \<le> 1)"

lemma work_once: "work_step\<^sup>*\<^sup>* dw_start s \<Longrightarrow> once_inv s"
  by (induction rule: rtranclp_induct)
     (auto simp: work_step_simps once_inv_def dw_start_def dw_busy_def split: if_splits)

definition tasklet_inv :: "dw_state \<Rightarrow> bool" where
  "tasklet_inv s \<longleftrightarrow> (if mpc s = M_New then \<not> dw_busy s \<and> runs s = 0
     else mpc s \<noteq> M_Failed \<and> runs s + (if pending s then 1 else 0) = 1)"

lemma tasklet_once: "tasklet_step\<^sup>*\<^sup>* dw_start s \<Longrightarrow> tasklet_inv s"
  by (induction rule: rtranclp_induct)
     (auto simp: tasklet_step_simps tasklet_inv_def dw_start_def dw_busy_def split: if_splits)

section \<open>Properties\<close>

text \<open>Further: once the exit function of demoqueue.c has returned from \<open>cancel_work_sync\<close>, and that
  of tasklet_demo.c from \<open>tasklet_kill\<close>, the callback is neither queued nor running in any
  interleaving. The work function runs at most once, the tasklet exactly once before that.\<close>

theorem work_and_tasklet_unload_safely:
  assumes "work_step\<^sup>*\<^sup>* dw_start s" and "tasklet_step\<^sup>*\<^sup>* dw_start t"
  shows "(dw_gone s \<longrightarrow> \<not> dw_busy s) \<and> runs s \<le> 1 \<and>
    (dw_gone t \<longrightarrow> \<not> dw_busy t \<and> runs t = 1) \<and> runs t \<le> 1"
  using work.never_busy [OF assms(1)] tasklet.never_busy [OF assms(2)]
    work_once [OF assms(1)] tasklet_once [OF assms(2)]
  by (auto simp: once_inv_def tasklet_inv_def dw_gone_def dw_busy_def split: if_splits)

theorem work_and_tasklet_unload_safely_witness:
  "\<not> dw_busy \<lparr>pending = False, cb = C_Idle, mpc = M_Cancelled, runs = 0\<rparr> \<and>
   runs \<lparr>pending = False, cb = C_Idle, mpc = M_Cancelled, runs = 1\<rparr> = 1"
proof -
  note rtranclp.rtrancl_into_rtrancl [trans]
  let ?l = "\<lparr>pending = True, cb = C_Idle, mpc = M_Loaded, runs = 0\<rparr>"
  have "work_step\<^sup>*\<^sup>* dw_start ?l"
    by (rule r_into_rtranclp) (simp add: work_step_simps dw_start_def)
  also have "work_step ?l \<lparr>pending = False, cb = C_Idle, mpc = M_Cancelled, runs = 0\<rparr>" (is "work_step _ ?s")
    by (simp add: work_step_simps)
  finally have s: "work_step\<^sup>*\<^sup>* dw_start ?s" .
  have "tasklet_step\<^sup>*\<^sup>* dw_start ?l"
    by (rule r_into_rtranclp) (simp add: tasklet_step_simps dw_start_def)
  also have "tasklet_step ?l \<lparr>pending = False, cb = C_Entry, mpc = M_Loaded, runs = 1\<rparr>" (is "tasklet_step _ ?t")
    by (simp add: tasklet_step_simps)
  also have "tasklet_step ?t \<lparr>pending = False, cb = C_Idle, mpc = M_Loaded, runs = 1\<rparr>" (is "tasklet_step _ ?u")
    by (simp add: tasklet_step_simps)
  also have "tasklet_step ?u \<lparr>pending = False, cb = C_Idle, mpc = M_Cancelled, runs = 1\<rparr>" (is "tasklet_step _ ?v")
    by (simp add: tasklet_step_simps)
  finally have t: "tasklet_step\<^sup>*\<^sup>* dw_start ?v" .
  have "dw_gone ?s" "dw_gone ?v" by (simp_all add: dw_gone_def)
  then show ?thesis using work_and_tasklet_unload_safely [OF s t] by blast
qed

text \<open>Further: timer_list.c has no such guarantee. A callback that is running when
  \<open>my_module_exit\<close> calls \<open>del_timer\<close> sets the timer again, and the module goes away with its
  timer pending. Only an exit that meets the callback idle leaves nothing behind.\<close>

theorem timer_pending_after_unload:
  "(\<exists>s. timer_step\<^sup>*\<^sup>* dw_start s \<and> mpc s = M_Gone \<and> pending s) \<and>
   (\<forall>s t. mpc s = M_Cancelled \<and> \<not> dw_busy s \<and> timer_step\<^sup>*\<^sup>* s t \<longrightarrow> \<not> dw_busy t)"
proof (intro conjI allI impI)
  note rtranclp.rtrancl_into_rtrancl [trans]
  let ?s = "\<lparr>pending = True, cb = C_Idle, mpc = M_Loaded, runs = 0\<rparr>"
  have "timer_step\<^sup>*\<^sup>* dw_start ?s"
    by (rule r_into_rtranclp) (simp add: timer_step_simps dw_start_def)
  also have "timer_step ?s \<lparr>pending = False, cb = C_Entry, mpc = M_Loaded, runs = 1\<rparr>" (is "timer_step _ ?t")
    by (simp add: timer_step_simps)
  also have "timer_step ?t \<lparr>pending = False, cb = C_Entry, mpc = M_Cancelled, runs = 1\<rparr>" (is "timer_step _ ?u")
    by (simp add: timer_step_simps)
  also have "timer_step ?u \<lparr>pending = False, cb = C_Entry, mpc = M_Gone, runs = 1\<rparr>" (is "timer_step _ ?v")
    by (simp add: timer_step_simps)
  also have "timer_step ?v \<lparr>pending = True, cb = C_Tail, mpc = M_Gone, runs = 1\<rparr>" (is "timer_step _ ?w")
    by (simp add: timer_step_simps)
  finally have "timer_step\<^sup>*\<^sup>* dw_start ?w" .
  then show "\<exists>s. timer_step\<^sup>*\<^sup>* dw_start s \<and> mpc s = M_Gone \<and> pending s" by (intro exI [of _ ?w]) simp
next
  fix s t
  assume a: "mpc s = M_Cancelled \<and> \<not> dw_busy s \<and> timer_step\<^sup>*\<^sup>* s t"
  then have "timer_step\<^sup>*\<^sup>* s t" by blast
  then have "\<not> dw_busy t \<and> mpc t \<in> {M_Cancelled, M_Gone}"
    by (induction rule: rtranclp_induct) (use a in \<open>auto simp: timer_step_simps dw_busy_def\<close>)
  then show "\<not> dw_busy t" by blast
qed

theorem timer_pending_after_unload_witness:
  "\<not> dw_busy \<lparr>pending = False, cb = C_Idle, mpc = M_Cancelled, runs = 5\<rparr>"
  by (rule timer_pending_after_unload [THEN conjunct2, rule_format,
      where s = "\<lparr>pending = False, cb = C_Idle, mpc = M_Cancelled, runs = 5\<rparr>"])
     (simp add: dw_busy_def)

text \<open>The structure of task_work_demo.c is never freed: after \<open>n\<close> loads, each followed by the
  callback and by unloading, \<open>n\<close> structures are left.\<close>

theorem task_work_leaks:
  "((\<lambda>s. demo_exit (return_to_user (snd (demo_init True s)))) ^^ n)
     \<lparr>tw_queue = [], tw_live = 0, tw_log = []\<rparr> =
   \<lparr>tw_queue = [], tw_live = n, tw_log = replicate n 3344\<rparr>"
  by (induction n)
     (simp_all add: demo_init_def demo_exit_def return_to_user_def my_task_work_callback_def
      replicate_append_same)

end
