(* ===== verification/Percpu.thy ===== *)
theory Percpu
  imports Prelude
begin

text \<open>
  The modules over per-processor data, src/per_cpu/percpu_demo.c and src/del_module/force_rmmod.c.
  A per-CPU variable is the list of its instances, one for each possible processor, and
  \<open>this_cpu\<close> is the processor the code runs on.
\<close>

section \<open>The per-CPU counter\<close>

text \<open>\<open>my_module_init\<close>: the counters afterwards and the values printed, first the one of the
  current processor, then all of them.\<close>

definition percpu_init :: "nat \<Rightarrow> 32 word list \<Rightarrow> 32 word list \<times> 32 word list" where
  "percpu_init this_cpu my_counter =
     (let cleared = map (\<lambda>_. 0) my_counter;
          counted = cleared[this_cpu := cleared ! this_cpu + 1]
      in (counted, counted ! this_cpu # counted))"

section \<open>Resetting the use count of a module\<close>

text \<open>The reference counters of a module on Linux 3.10; \<open>m_incs\<close> and \<open>m_decs\<close> are \<open>int\<close> parameters,
  which are sign-extended to \<open>unsigned long\<close>. The sums run over all processors and wrap.\<close>

record module_ref =
  incs :: u64
  decs :: u64

fun sum_decs :: "module_ref list \<Rightarrow> u64" where
  "sum_decs [] = 0"
| "sum_decs (r # rs) = decs r + sum_decs rs"

fun sum_incs :: "module_ref list \<Rightarrow> u64" where
  "sum_incs [] = 0"
| "sum_incs (r # rs) = incs r + sum_incs rs"

text \<open>\<open>force_rmmod_init\<close>: \<open>find_module\<close> is \<open>None\<close> or the counters of the module. The result is the
  return value, the counters and the two sums that are printed.\<close>

definition force_rmmod_init ::
  "nat \<Rightarrow> 32 word \<Rightarrow> 32 word \<Rightarrow> module_ref list option \<Rightarrow>
     int \<times> module_ref list option \<times> (u64 \<times> u64) option" where
  "force_rmmod_init this_cpu m_incs m_decs found =
     (case found of
        None \<Rightarrow> (0, None, None)
      | Some refptr \<Rightarrow>
          (let refptr = refptr[this_cpu := (refptr ! this_cpu)\<lparr>decs := scast m_decs\<rparr>];
               refptr = refptr[this_cpu := (refptr ! this_cpu)\<lparr>incs := scast m_incs\<rparr>]
           in (0, Some refptr, Some (sum_incs refptr, sum_decs refptr))))"

text \<open>The use count the kernel computes: increments less decrements.\<close>

definition use_count :: "module_ref list \<Rightarrow> u64" where
  "use_count rs = sum_incs rs - sum_decs rs"

lemma sum_update:
  "i < length rs \<Longrightarrow> sum_incs (rs[i := r]) = sum_incs rs - incs (rs ! i) + incs r"
  "i < length rs \<Longrightarrow> sum_decs (rs[i := r]) = sum_decs rs - decs (rs ! i) + decs r"
proof (induction rs arbitrary: i)
  case (Cons x rs)
  { case 1 then show ?case using Cons.IH(1) by (cases i) auto }
  { case 2 then show ?case using Cons.IH(2) by (cases i) auto }
qed simp_all

section \<open>Properties\<close>

text \<open>Further: \<open>percpu_init\<close> leaves 1 in the counter of the current processor and 0 in every other,
  and prints 1 and then exactly these counters.\<close>

theorem percpu_counts_once:
  assumes "this_cpu < length my_counter"
  shows "percpu_init this_cpu my_counter =
    (map (\<lambda>i. if i = this_cpu then 1 else 0) [0 ..< length my_counter],
     1 # map (\<lambda>i. if i = this_cpu then 1 else 0) [0 ..< length my_counter])"
proof -
  have "(map (\<lambda>_. 0) my_counter)[this_cpu := 1] =
      map (\<lambda>i. if i = this_cpu then 1 else 0 :: 32 word) [0 ..< length my_counter]"
    by (rule nth_equalityI) (auto simp: nth_list_update)
  then show ?thesis using assms by (simp add: percpu_init_def Let_def)
qed

theorem percpu_counts_once_witness: "percpu_init 1 [7, 8, 9] = ([0, 1, 0], [1, 0, 1, 0])"
  using percpu_counts_once [of 1 "[7, 8, 9]"] by (simp add: upt_rec)

text \<open>Claim C40: force_rmmod.c overwrites the counters of one processor and leaves the others, so
  the use count becomes what the other processors contribute plus \<open>m_incs - m_decs\<close>. Following
  the instructions, with \<open>m_incs=0\<close> and \<open>m_decs\<close> the reported use count, brings it to zero exactly
  when the current processor contributed nothing itself.\<close>

theorem force_rmmod_use_count:
  assumes "this_cpu < length rs"
    and "own = incs (rs ! this_cpu) - decs (rs ! this_cpu)"
    and "force_rmmod_init this_cpu m_incs m_decs (Some rs) = (ret, Some rs', out)"
  shows "use_count rs' = use_count rs - own + scast m_incs - scast m_decs \<and>
    (m_incs = 0 \<and> scast m_decs = use_count rs \<longrightarrow> (use_count rs' = 0 \<longleftrightarrow> own = 0))"
proof -
  from assms(3) have rs': "rs' = rs[this_cpu := (rs ! this_cpu)\<lparr>decs := scast m_decs, incs := scast m_incs\<rparr>]"
    using assms(1) by (auto simp: force_rmmod_init_def Let_def)
  have "use_count rs' = use_count rs - own + scast m_incs - scast m_decs"
    using assms(1,2) by (simp add: rs' use_count_def sum_update)
  then show ?thesis by auto
qed

theorem force_rmmod_use_count_witness:
  "use_count [\<lparr>incs = 0, decs = 1\<rparr>, \<lparr>incs = 0, decs = 0\<rparr>] = -1"
proof -
  let ?rs = "[\<lparr>incs = 1, decs = 0\<rparr>, \<lparr>incs = 0, decs = 0\<rparr>]"
  have "force_rmmod_init 0 0 1 (Some ?rs) = (0, Some [\<lparr>incs = 0, decs = 1\<rparr>, \<lparr>incs = 0, decs = 0\<rparr>], Some (0, 1))"
    by (simp add: force_rmmod_init_def)
  from force_rmmod_use_count [OF _ refl this] show ?thesis by (simp add: use_count_def)
qed

end
