(* ===== verification/Netdev.thy ===== *)
theory Netdev
  imports Kmodule Traces
begin

text \<open>
  The virtual network device of src/netdev/netdev_demo.c: transmission through the physical
  card, the NAPI poll function that makes up received frames, opening and closing, and the
  registration of the device. The allocation of packet buffers and the network core are
  parameters.
\<close>

section \<open>Transmission\<close>

definition NETDEV_TX_OK :: int where "NETDEV_TX_OK = 0"

text \<open>What \<open>demo_xmit\<close> touches: the reference count of the physical device, the packets handed to
  it and the packets freed.\<close>

record 'p tx_state =
  real_refs :: nat
  tx_sent :: "'p list"
  tx_freed :: "'p list"

text \<open>\<open>dev_get_by_name\<close> takes a reference on the device it finds (\<open>found\<close>).\<close>

definition demo_xmit :: "bool \<Rightarrow> 'p \<Rightarrow> 'p tx_state \<Rightarrow> int \<times> 'p tx_state" where
  "demo_xmit found skb s =
     (if \<not> found then (NETDEV_TX_OK, s\<lparr>tx_freed := tx_freed s @ [skb]\<rparr>)
      else let s = s\<lparr>real_refs := real_refs s + 1\<rparr>
           in (NETDEV_TX_OK, s\<lparr>tx_sent := tx_sent s @ [skb]\<rparr>))"

section \<open>Polling\<close>

text \<open>The Ethernet header the poll function writes: broadcast, no source, IPv4.\<close>

definition vnet_header :: "byte list" where
  "vnet_header = replicate 6 0xff @ replicate 6 0 @ [0x08, 0x00]"

text \<open>A frame of 64 bytes in a fresh buffer: the header over what the memory held.\<close>

definition make_frame :: "byte list \<Rightarrow> byte list" where
  "make_frame mem = vnet_header @ drop 14 (take 64 mem)"

text \<open>The loop of \<open>demo_napi_poll\<close> with the number of rounds left; \<open>alloc\<close> is \<open>dev_alloc_skb(1500)\<close>.
  The result lists the frames passed to \<open>netif_receive_skb\<close>.\<close>

fun napi_loop :: "('s \<Rightarrow> byte list option \<times> 's) \<Rightarrow> nat \<Rightarrow> 's \<Rightarrow> byte list list \<times> 's" where
  "napi_loop alloc 0 s = ([], s)"
| "napi_loop alloc (Suc n) s =
     (case alloc s of
        (None, s') \<Rightarrow> ([], s')
      | (Some mem, s') \<Rightarrow>
          (case napi_loop alloc n s' of (frames, s'') \<Rightarrow> (make_frame mem # frames, s'')))"

record poll_result =
  processed :: int
  completed :: "int option"
  received :: "byte list list"

definition demo_napi_poll :: "('s \<Rightarrow> byte list option \<times> 's) \<Rightarrow> int \<Rightarrow> 's \<Rightarrow> poll_result \<times> 's" where
  "demo_napi_poll alloc budget s =
     (case napi_loop alloc (nat budget) s of (frames, s') \<Rightarrow>
        let n = int (length frames) in
        (\<lparr>processed = n, completed = (if n < budget then Some n else None), received = frames\<rparr>, s'))"

section \<open>Opening and closing\<close>

record nd_state =
  tx_queue_on :: bool
  napi_enabled :: bool
  napi_scheduled :: bool

definition demo_napi_trigger :: "nd_state \<Rightarrow> nd_state" where
  "demo_napi_trigger s = (if napi_enabled s then s\<lparr>napi_scheduled := True\<rparr> else s)"

definition demo_open :: "nd_state \<Rightarrow> int \<times> nd_state" where
  "demo_open s =
     (let s = s\<lparr>tx_queue_on := True\<rparr>; s = s\<lparr>napi_enabled := True\<rparr> in (0, demo_napi_trigger s))"

definition demo_stop :: "nd_state \<Rightarrow> int \<times> nd_state" where
  "demo_stop s =
     (let s = s\<lparr>tx_queue_on := False\<rparr>
      in (0, s\<lparr>napi_enabled := False, napi_scheduled := False\<rparr>))"

text \<open>The network core runs the poll function of a scheduled device and keeps it scheduled until
  it completes.\<close>

definition softirq :: "('s \<Rightarrow> byte list option \<times> 's) \<Rightarrow> int \<Rightarrow> nd_state \<times> 's \<Rightarrow> nd_state \<times> 's" where
  "softirq alloc budget = (\<lambda>(nd, s).
     if napi_scheduled nd
     then (case demo_napi_poll alloc budget s of (res, s') \<Rightarrow>
             (if completed res = None then nd else nd\<lparr>napi_scheduled := False\<rparr>, s'))
     else (nd, s))"

section \<open>The operations table in use\<close>

text \<open>
  What the network core does with \<open>demo_netdev_ops\<close> and the poll function: the interface is brought up
  and down, polled, triggered through \<open>ndo_poll_controller\<close> and given packets. \<open>napi_enable\<close> of an
  instance that is enabled is a bug of the caller, \<open>napi_disable\<close> of one that is not never returns,
  and so is polling an instance that is disabled: these are \<open>None\<close>.
\<close>

datatype 'p ncall = Ndo_open | Ndo_stop | Ndo_start_xmit bool 'p | Ndo_poll_controller | Net_rx int

record ('p, 's) vnet =
  if_up :: bool
  vn_nd :: nd_state
  vn_tx :: "'p tx_state"
  vn_rx :: "byte list list"
  vn_mem :: 's

definition demo_netdev_ops :: "('s \<Rightarrow> byte list option \<times> 's) \<Rightarrow> 'p ncall \<Rightarrow> ('p, 's) vnet \<Rightarrow> ('p, 's) vnet option" where
  "demo_netdev_ops alloc c v =
     (case c of
        Ndo_open \<Rightarrow>
          if napi_enabled (vn_nd v) then None
          else (case demo_open (vn_nd v) of (r, nd) \<Rightarrow> Some (v\<lparr>if_up := (r = 0), vn_nd := nd\<rparr>))
      | Ndo_stop \<Rightarrow>
          if \<not> napi_enabled (vn_nd v) then None
          else (case demo_stop (vn_nd v) of (r, nd) \<Rightarrow> Some (v\<lparr>if_up := False, vn_nd := nd\<rparr>))
      | Ndo_start_xmit found skb \<Rightarrow>
          (case demo_xmit found skb (vn_tx v) of (r, tx) \<Rightarrow> Some (v\<lparr>vn_tx := tx\<rparr>))
      | Ndo_poll_controller \<Rightarrow> Some (v\<lparr>vn_nd := demo_napi_trigger (vn_nd v)\<rparr>)
      | Net_rx budget \<Rightarrow>
          if \<not> napi_scheduled (vn_nd v) then Some v
          else if \<not> napi_enabled (vn_nd v) then None
          else (case softirq alloc budget (vn_nd v, vn_mem v) of (nd, m) \<Rightarrow>
             Some (v\<lparr>vn_nd := nd, vn_mem := m,
                     vn_rx := vn_rx v @ received (fst (demo_napi_poll alloc budget (vn_mem v)))\<rparr>)))"

text \<open>What the core promises: open and stop alternate, packets come while the interface is up, and a
  poll has a budget.\<close>

fun core_calls :: "'p ncall \<Rightarrow> ('p, 's) vnet \<Rightarrow> bool" where
  "core_calls Ndo_open v \<longleftrightarrow> \<not> if_up v"
| "core_calls Ndo_stop v \<longleftrightarrow> if_up v"
| "core_calls (Ndo_start_xmit found skb) v \<longleftrightarrow> if_up v \<and> tx_queue_on (vn_nd v)"
| "core_calls Ndo_poll_controller v \<longleftrightarrow> True"
| "core_calls (Net_rx budget) v \<longleftrightarrow> 0 < budget"

definition vnet_fresh :: "nat \<Rightarrow> 's \<Rightarrow> ('p, 's) vnet" where
  "vnet_fresh refs m = \<lparr>if_up = False,
     vn_nd = \<lparr>tx_queue_on = False, napi_enabled = False, napi_scheduled = False\<rparr>,
     vn_tx = \<lparr>real_refs = refs, tx_sent = [], tx_freed = []\<rparr>, vn_rx = [], vn_mem = m\<rparr>"

definition vnet_inv :: "nat \<Rightarrow> ('p, 's) vnet \<Rightarrow> bool" where
  "vnet_inv refs v \<longleftrightarrow> napi_enabled (vn_nd v) = if_up v \<and> tx_queue_on (vn_nd v) = if_up v \<and>
     (napi_scheduled (vn_nd v) \<longrightarrow> if_up v) \<and>
     real_refs (vn_tx v) = refs + length (tx_sent (vn_tx v)) \<and>
     (\<forall>f \<in> set (vn_rx v). take 14 f = vnet_header \<and> length f = 64)"

section \<open>Registration\<close>

datatype nobj = Netdev_Mem nat | Napi nat | Registered nat

record 's net_api =
  alloc_etherdev :: "'s \<Rightarrow> nat option \<times> 's"
  netif_napi_add :: "nat \<Rightarrow> 's \<Rightarrow> 's"
  netif_napi_del :: "nat \<Rightarrow> 's \<Rightarrow> 's"
  register_netdev :: "nat \<Rightarrow> 's \<Rightarrow> int \<times> 's"
  unregister_netdev :: "nat \<Rightarrow> 's \<Rightarrow> 's"
  free_netdev :: "nat \<Rightarrow> 's \<Rightarrow> 's"

text \<open>\<open>vnet_init\<close>; the second component of the first result is the variable \<open>vnet_dev\<close>.\<close>

definition vnet_init :: "'s net_api \<Rightarrow> 's \<Rightarrow> (int \<times> nat) \<times> 's" where
  "vnet_init api s =
     (case alloc_etherdev api s of
        (None, s') \<Rightarrow> ((-12, 0), s')
      | (Some dev, s1) \<Rightarrow>
          (let s2 = netif_napi_add api dev s1 in
           case register_netdev api dev s2 of (ret, s3) \<Rightarrow>
             if ret \<noteq> 0 then ((-19, dev), free_netdev api dev s3) else ((0, dev), s3)))"

definition vnet_exit :: "'s net_api \<Rightarrow> nat \<Rightarrow> 's \<Rightarrow> 's" where
  "vnet_exit api vnet_dev s =
     (let s = unregister_netdev api vnet_dev s; s = netif_napi_del api vnet_dev s
      in free_netdev api vnet_dev s)"

text \<open>The contract of the network core: a new device is one that is not known yet, a failing
  call keeps nothing, and freeing a device also drops the NAPI contexts still attached.\<close>

locale net_kernel =
  fixes api :: "'s net_api" and held :: "'s \<Rightarrow> nobj multiset"
  assumes alloc_dev: "alloc_etherdev api s = (None, s') \<Longrightarrow> held s' = held s"
      "alloc_etherdev api s = (Some d, s') \<Longrightarrow> held s' = held s + {#Netdev_Mem d#} \<and> Napi d \<notin># held s"
    and napi_add: "held (netif_napi_add api d s) = held s + {#Napi d#}"
    and napi_del: "held (netif_napi_del api d s) = held s - {#Napi d#}"
    and register: "register_netdev api d s = (ret, s') \<Longrightarrow>
      held s' = held s + (if ret = 0 then {#Registered d#} else {#})"
    and unregister: "held (unregister_netdev api d s) = held s - {#Registered d#}"
    and free_dev: "held (free_netdev api d s) =
      filter_mset (\<lambda>x. x \<noteq> Napi d) (held s) - {#Netdev_Mem d#}"
begin

lemma filter_absent: "x \<notin># M \<Longrightarrow> filter_mset (\<lambda>y. y \<noteq> x) M = M"
  by (auto simp: filter_mset_eq_conv)

lemma vnet_init_cases:
  assumes "vnet_init api s = ((ret, dev), s')"
  obtains (failed) "ret \<noteq> 0" "held s' = held s"
  | (loaded) "ret = 0" "held s' = held s + {#Netdev_Mem dev, Napi dev, Registered dev#}"
      "Napi dev \<notin># held s"
  using assms
  by (auto simp: vnet_init_def Let_def napi_add free_dev filter_absent
      split: prod.splits option.splits if_splits dest!: alloc_dev register)

end

sublocale net_kernel \<subseteq> vnet_module: clean_module "vnet_init api" "vnet_exit api" held
proof unfold_locales
  fix s g s'
  assume "vnet_init api s = ((0, g), s')"
  then show "held (vnet_exit api g s') = held s"
    by (rule vnet_init_cases)
       (simp_all add: vnet_exit_def Let_def unregister napi_del free_dev filter_absent)
next
  fix s ret g s'
  assume "vnet_init api s = ((ret, g), s')" and "ret \<noteq> 0"
  then show "held s' = held s" by (auto elim: vnet_init_cases)
qed

context net_kernel
begin

lemmas vnet_reload = vnet_module.cycles_clean

end

text \<open>A network core for the witnesses, which numbers its devices and may refuse to register.\<close>

record net_core =
  nobjs :: "nobj multiset"
  refuse :: bool

primrec nobj_id :: "nobj \<Rightarrow> nat" where
  "nobj_id (Netdev_Mem d) = d" | "nobj_id (Napi d) = d" | "nobj_id (Registered d) = d"

definition fresh_dev :: "nobj multiset \<Rightarrow> nat" where
  "fresh_dev M = Suc (sum_mset (image_mset nobj_id M))"

definition core_api :: "net_core net_api" where
  "core_api = \<lparr>
     alloc_etherdev = (\<lambda>s. (Some (fresh_dev (nobjs s)),
        nobjs_update (add_mset (Netdev_Mem (fresh_dev (nobjs s)))) s)),
     netif_napi_add = (\<lambda>d. nobjs_update (add_mset (Napi d))),
     netif_napi_del = (\<lambda>d. nobjs_update (\<lambda>M. M - {#Napi d#})),
     register_netdev = (\<lambda>d s. if refuse s then (-17, s) else (0, nobjs_update (add_mset (Registered d)) s)),
     unregister_netdev = (\<lambda>d. nobjs_update (\<lambda>M. M - {#Registered d#})),
     free_netdev = (\<lambda>d. nobjs_update (\<lambda>M. filter_mset (\<lambda>x. x \<noteq> Napi d) M - {#Netdev_Mem d#}))\<rparr>"

lemma fresh_dev_unused: "Napi (fresh_dev M) \<notin># M"
proof
  assume "Napi (fresh_dev M) \<in># M"
  then obtain N where N: "M = add_mset (Napi (fresh_dev M)) N" by (metis insert_DiffM)
  have "fresh_dev M = Suc (nobj_id (Napi (fresh_dev M)) + sum_mset (image_mset nobj_id N))"
    by (subst (1) N) (simp add: fresh_dev_def)
  then show False by simp
qed

interpretation core: net_kernel core_api nobjs
  by unfold_locales (auto simp: core_api_def fresh_dev_unused split: if_splits)

section \<open>Lemmas on polling\<close>

lemma fst_napi_loop: "fst (napi_loop alloc (Suc n) s) =
    (case fst (alloc s) of None \<Rightarrow> [] | Some mem \<Rightarrow> make_frame mem # fst (napi_loop alloc n (snd (alloc s))))"
  by (auto split: prod.splits option.splits)

lemma napi_loop_length: "length (fst (napi_loop alloc n s)) \<le> n"
  by (induction n arbitrary: s) (auto simp: fst_napi_loop simp del: napi_loop.simps(2) split: option.splits)

lemma napi_loop_full: "(\<And>s. fst (alloc s) \<noteq> None) \<Longrightarrow> length (fst (napi_loop alloc n s)) = n"
  by (induction n arbitrary: s) (auto simp: fst_napi_loop simp del: napi_loop.simps(2) split: option.splits)

lemma make_frame_ok: "64 \<le> length mem \<Longrightarrow> take 14 (make_frame mem) = vnet_header \<and> length (make_frame mem) = 64"
  by (simp add: make_frame_def vnet_header_def)

lemma napi_loop_frames:
  "(\<And>s mem. fst (alloc s) = Some mem \<Longrightarrow> 64 \<le> length mem) \<Longrightarrow>
    \<forall>f \<in> set (fst (napi_loop alloc n s)). take 14 f = vnet_header \<and> length f = 64"
  by (induction n arbitrary: s)
     (auto simp: fst_napi_loop make_frame_ok simp del: napi_loop.simps(2) split: option.splits)

text \<open>Buffers of at least the size that is put into them.\<close>

locale skb_allocator =
  fixes alloc :: "'s \<Rightarrow> byte list option \<times> 's"
  assumes roomy: "fst (alloc m) = Some mem \<Longrightarrow> 64 \<le> length mem"
begin

lemma polled_frames:
  "\<forall>f \<in> set (received (fst (demo_napi_poll alloc budget m))). take 14 f = vnet_header \<and> length f = 64"
  using napi_loop_frames [of alloc "nat budget" m] roomy
  by (auto simp: demo_napi_poll_def Let_def split: prod.splits)

end

sublocale skb_allocator \<subseteq> life: trace_invariant "demo_netdev_ops alloc" core_calls "vnet_inv refs" for refs
proof unfold_locales
  fix refs and v :: "('b, 's) vnet" and c
  assume inv: "vnet_inv refs v" and ok: "core_calls c v"
  show "\<exists>v'. demo_netdev_ops alloc c v = Some v' \<and> vnet_inv refs v'"
  proof (cases c)
    case (Net_rx budget)
    then show ?thesis
      using inv polled_frames [of budget "vn_mem v"]
      by (auto simp: vnet_inv_def demo_netdev_ops_def softirq_def split: prod.splits if_splits)
  qed (use inv ok in \<open>auto simp: vnet_inv_def demo_netdev_ops_def demo_open_def demo_stop_def demo_xmit_def
         demo_napi_trigger_def Let_def split: if_splits\<close>)
qed

context skb_allocator
begin

lemmas life_run = life.inv_run

end

interpretation skbs: skb_allocator "\<lambda>m :: nat. (if m = 0 then None else Some (replicate 1500 0), m - 1)"
  by unfold_locales (auto split: if_splits)

section \<open>Properties\<close>

text \<open>Further: the poll function keeps the NAPI contract. It never passes more frames up than
  its budget, tells the core that it is done exactly when it stayed below the budget, with
  the number of frames, and every frame is a 64-byte broadcast IPv4 frame.\<close>

theorem napi_poll_contract:
  assumes "demo_napi_poll alloc budget s = (res, s')" and "0 \<le> budget"
    and "\<forall>s mem. fst (alloc s) = Some mem \<longrightarrow> 64 \<le> length mem"
  shows "processed res = int (length (received res)) \<and> processed res \<le> budget \<and>
    completed res = (if processed res < budget then Some (processed res) else None) \<and>
    (\<forall>f \<in> set (received res). take 14 f = vnet_header \<and> length f = 64)"
  using assms(1,2) napi_loop_length [of alloc "nat budget" s]
    napi_loop_frames [of alloc "nat budget" s] assms(3)
  by (auto simp: demo_napi_poll_def Let_def split: prod.splits)

theorem napi_poll_contract_witness:
  "processed (fst (demo_napi_poll (\<lambda>s. (Some (replicate 1500 7), s)) 2 ())) \<le> 2"
  using napi_poll_contract [OF prod.collapse [symmetric],
      where alloc = "\<lambda>s. (Some (replicate 1500 7), s)" and budget = 2 and s = "()"]
  by simp

text \<open>Claim C22: the life of the network device. Whatever sequence of calls the network core makes (open
  and stop in turn, packets while the interface is up, polls and triggers at any time), no call
  enables an instance twice, disables one twice or polls a disabled one; instance and transmit queue
  are on exactly while the interface is up, nothing is scheduled while it is down, so that it is not
  polled then, every frame passed up is a 64-byte broadcast IPv4 frame, and every packet sent has
  kept one reference on the physical device.\<close>

theorem vnet_life_cycle:
  assumes "\<forall>m mem. fst (alloc m) = Some mem \<longrightarrow> 64 \<le> length mem"
    and "run_ok (demo_netdev_ops alloc) core_calls calls (vnet_fresh refs m)"
  shows "\<exists>v. run_steps (demo_netdev_ops alloc) calls (vnet_fresh refs m) = Some v \<and> vnet_inv refs v \<and>
    (\<not> if_up v \<longrightarrow> (\<forall>budget. demo_netdev_ops alloc (Net_rx budget) v = Some v))"
proof -
  have a: "skb_allocator alloc" using assms(1) by unfold_locales auto
  have "vnet_inv refs (vnet_fresh refs m)" by (simp add: vnet_inv_def vnet_fresh_def)
  then obtain v where "run_steps (demo_netdev_ops alloc) calls (vnet_fresh refs m) = Some v" "vnet_inv refs v"
    using skb_allocator.life_run [OF a] assms(2) by blast
  then show ?thesis by (auto simp: demo_netdev_ops_def vnet_inv_def)
qed

definition demo_calls :: "nat ncall list" where
  "demo_calls = [Ndo_open, Net_rx 2, Ndo_start_xmit True 7, Ndo_stop, Ndo_poll_controller, Net_rx 2, Ndo_open]"

theorem vnet_life_cycle_witness:
  "\<exists>v. run_steps (demo_netdev_ops (\<lambda>m :: nat. (if m = 0 then None else Some (replicate 64 0), m - 1)))
     demo_calls (vnet_fresh 1 3) = Some v \<and> vnet_inv 1 v"
proof -
  let ?a = "\<lambda>m :: nat. (if m = 0 then None else Some (replicate 64 (0 :: byte)), m - 1)"
  have "run_ok (demo_netdev_ops ?a) core_calls demo_calls (vnet_fresh 1 3)"
    by code_simp
  moreover have "\<forall>m mem. fst (?a m) = Some mem \<longrightarrow> 64 \<le> length mem" by (auto split: if_splits)
  ultimately show ?thesis using vnet_life_cycle [of ?a demo_calls 1 3] by blast
qed

text \<open>Further: as long as buffers can be allocated the poll function uses its whole budget and
  never completes, so a device that was opened is polled again and again and stays scheduled
  until it is closed.\<close>

theorem napi_polls_for_ever:
  assumes "\<forall>s. fst (alloc s) \<noteq> None" and "0 \<le> budget"
  shows "napi_scheduled (fst ((softirq alloc budget ^^ n) (snd (demo_open nd), s))) \<and>
    processed (fst (demo_napi_poll alloc budget s)) = budget \<and>
    \<not> napi_scheduled (snd (demo_stop nd'))"
proof -
  have poll: "processed (fst (demo_napi_poll alloc budget t)) = budget"
    "completed (fst (demo_napi_poll alloc budget t)) = None" for t
    using napi_loop_full [of alloc "nat budget" t] assms
    by (auto simp: demo_napi_poll_def Let_def split: prod.splits if_splits)
  have "napi_scheduled (fst ((softirq alloc budget ^^ n) (snd (demo_open nd), s)))"
  proof (induction n)
    case (Suc n)
    obtain nd1 s1 where "(softirq alloc budget ^^ n) (snd (demo_open nd), s) = (nd1, s1)" by fastforce
    with Suc poll(2) [of s1] show ?case by (auto simp: softirq_def split: prod.splits)
  qed (simp add: demo_open_def demo_napi_trigger_def Let_def)
  with poll(1) show ?thesis by (simp add: demo_stop_def Let_def)
qed

theorem napi_polls_for_ever_witness:
  "processed (fst (demo_napi_poll (\<lambda>s. (Some (replicate 1500 0), s)) 64 ())) = 64"
  using napi_polls_for_ever [of "\<lambda>s :: unit. (Some (replicate 1500 0), s)" 64 0 undefined "()" undefined] by simp

text \<open>Further: every packet sent through the physical card keeps one more reference on it, since
  \<open>dev_get_by_name\<close> is never undone, and every packet is answered with \<open>NETDEV_TX_OK\<close> and either
  sent or freed.\<close>

theorem xmit_leaks_references:
  "fold (\<lambda>(found, skb) s. snd (demo_xmit found skb s)) pkts \<lparr>real_refs = r, tx_sent = [], tx_freed = []\<rparr> =
     \<lparr>real_refs = r + length (filter fst pkts), tx_sent = map snd (filter fst pkts),
      tx_freed = map snd (filter (\<lambda>p. \<not> fst p) pkts)\<rparr> \<and>
   fst (demo_xmit found skb st) = NETDEV_TX_OK"
proof -
  have "fold (\<lambda>(found, skb) s. snd (demo_xmit found skb s)) pkts \<lparr>real_refs = r, tx_sent = a, tx_freed = b\<rparr> =
     \<lparr>real_refs = r + length (filter fst pkts), tx_sent = a @ map snd (filter fst pkts),
      tx_freed = b @ map snd (filter (\<lambda>p. \<not> fst p) pkts)\<rparr>" for a b
    by (induction pkts arbitrary: r a b) (auto simp: demo_xmit_def Let_def)
  then show ?thesis by (simp add: demo_xmit_def Let_def)
qed

text \<open>Further: on every network core with the documented contract, loading and unloading the
  device module any number of times, including loads that fail, leaves nothing behind.\<close>

theorem vnet_module_reload:
  assumes "net_kernel api held"
  shows "held ((load_unload (vnet_init api) (vnet_exit api) ^^ n) s) = held s"
  by (rule net_kernel.vnet_reload [OF assms])

theorem vnet_module_reload_witness:
  "nobjs ((load_unload (vnet_init core_api) (vnet_exit core_api) ^^ 3) \<lparr>nobjs = {#}, refuse = True\<rparr>) = {#}"
  using vnet_module_reload [OF core.net_kernel_axioms, of 3 "\<lparr>nobjs = {#}, refuse = True\<rparr>"] by simp

end
