(* ===== verification/Procfs.thy ===== *)
theory Procfs
  imports Prelude
begin

text \<open>
  The proc file of src/driver_demo/proc_query/proc_demo.c, ten lines produced by an iterator for
  \<open>seq_file\<close>. The kernel calls \<open>start\<close> with the current position at the beginning of every
  \<open>read\<close>, shows records while they fit the reader's buffer, and moves on with \<open>next\<close>; a later
  \<open>read\<close> starts again from the position reached. The iterator protocol is the locale
  \<open>seq_iterator\<close>.
\<close>

section \<open>Model\<close>

text \<open>The pointer an iterator function returns is \<open>pos\<close> itself or NULL.\<close>

definition my_seq_start :: "int \<Rightarrow> int option" where
  "my_seq_start pos = (if pos \<ge> 10 then None else Some pos)"

definition my_seq_next :: "int \<Rightarrow> int \<times> int option" where
  "my_seq_next pos = (let pos = pos + 1 in if pos \<ge> 10 then (pos, None) else (pos, Some pos))"

definition my_seq_stop :: "int option \<Rightarrow> unit" where
  "my_seq_stop v = ()"

definition my_seq_show :: "int \<Rightarrow> string" where
  "my_seq_show v = ''Line '' @ show_nat (nat v) @ [CHR 0x0A]"

text \<open>One \<open>read\<close> with room for \<open>n\<close> records: what was shown and the position afterwards.\<close>

fun seq_records :: "(int \<Rightarrow> int \<times> int option) \<Rightarrow> (int \<Rightarrow> string) \<Rightarrow> nat \<Rightarrow> int option \<Rightarrow> int \<Rightarrow> string list \<times> int" where
  "seq_records nxt shw 0 v pos = ([], pos)"
| "seq_records nxt shw (Suc n) None pos = ([], pos)"
| "seq_records nxt shw (Suc n) (Some v) pos =
     (case nxt pos of (pos', v') \<Rightarrow>
        (case seq_records nxt shw n v' pos' of (out, end_pos) \<Rightarrow> (shw v # out, end_pos)))"

definition seq_read :: "(int \<Rightarrow> int option) \<Rightarrow> (int \<Rightarrow> int \<times> int option) \<Rightarrow> (int \<Rightarrow> string) \<Rightarrow> nat \<Rightarrow> int \<Rightarrow>
    string list \<times> int" where
  "seq_read start nxt shw n pos = seq_records nxt shw n (start pos) pos"

text \<open>Several reads, one after the other.\<close>

fun seq_reads :: "(int \<Rightarrow> int option) \<Rightarrow> (int \<Rightarrow> int \<times> int option) \<Rightarrow> (int \<Rightarrow> string) \<Rightarrow> nat list \<Rightarrow> int \<Rightarrow>
    string list \<times> int" where
  "seq_reads start nxt shw [] pos = ([], pos)"
| "seq_reads start nxt shw (n # ns) pos =
     (case seq_read start nxt shw n pos of (out, pos') \<Rightarrow>
        (case seq_reads start nxt shw ns pos' of (out', end_pos) \<Rightarrow> (out @ out', end_pos)))"

section \<open>Iterators\<close>

text \<open>What \<open>seq_file\<close> asks of an iterator: the record \<open>next\<close> moves to is the one \<open>start\<close> finds at the
  new position.\<close>

locale seq_iterator =
  fixes start :: "int \<Rightarrow> int option"
    and nxt :: "int \<Rightarrow> int \<times> int option"
  assumes resume: "nxt pos = (pos', v) \<Longrightarrow> start pos' = v"
begin

lemma seq_read_append:
  "seq_read start nxt shw (m + n) pos =
    (case seq_read start nxt shw m pos of (out, pos') \<Rightarrow>
      (case seq_read start nxt shw n pos' of (out', end_pos) \<Rightarrow> (out @ out', end_pos)))"
proof (induction m arbitrary: pos)
  case 0
  then show ?case by (simp add: seq_read_def split: prod.splits)
next
  case (Suc m)
  show ?case
  proof (cases "start pos")
    case None
    then show ?thesis by (cases n) (simp_all add: seq_read_def)
  next
    case (Some v)
    obtain pos' v' where nx: "nxt pos = (pos', v')" by fastforce
    have "start pos' = v'" by (rule resume [OF nx])
    with Suc.IH [of pos'] Some nx show ?thesis
      by (auto simp: seq_read_def split: prod.splits)
  qed
qed

text \<open>How a file is cut into reads does not change what is read.\<close>

lemma seq_reads_sum: "seq_reads start nxt shw ns pos = seq_read start nxt shw (sum_list ns) pos"
proof (induction ns arbitrary: pos)
  case Nil
  then show ?case by (simp add: seq_read_def)
next
  case (Cons n ns)
  then show ?case by (simp add: seq_read_append)
qed

end

interpretation proc: seq_iterator my_seq_start my_seq_next
  by unfold_locales (auto simp: my_seq_start_def my_seq_next_def Let_def split: if_splits)

lemma my_seq_records:
  "0 \<le> pos \<Longrightarrow> pos \<le> 10 \<Longrightarrow>
    seq_read my_seq_start my_seq_next my_seq_show n pos =
      (map (\<lambda>i. my_seq_show (int i)) [nat pos ..< min 10 (nat pos + n)], int (min 10 (nat pos + n)))"
proof (induction n arbitrary: pos)
  case 0
  then show ?case by (auto simp: seq_read_def min_def)
next
  case (Suc n)
  show ?case
  proof (cases "pos = 10")
    case True
    then show ?thesis by (simp add: seq_read_def my_seq_start_def)
  next
    case False
    with Suc.prems have nx: "my_seq_next pos = (pos + 1, my_seq_start (pos + 1))"
      and st: "my_seq_start pos = Some pos"
      by (auto simp: my_seq_next_def my_seq_start_def Let_def)
    have "seq_read my_seq_start my_seq_next my_seq_show (Suc n) pos =
        (case seq_read my_seq_start my_seq_next my_seq_show n (pos + 1) of
           (out, end_pos) \<Rightarrow> (my_seq_show pos # out, end_pos))"
      by (simp add: seq_read_def st nx)
    moreover have "[nat pos ..< min 10 (nat pos + Suc n)] =
        nat pos # [nat (pos + 1) ..< min 10 (nat (pos + 1) + n)]"
      using False Suc.prems by (subst upt_conv_Cons) (auto simp: nat_add_distrib)
    ultimately show ?thesis using Suc.IH [of "pos + 1"] False Suc.prems
      by (simp add: nat_add_distrib)
  qed
qed

section \<open>Properties\<close>

text \<open>Further: reading /proc/my_proc_entry_demo from its start in pieces of any sizes gives the
  lines 0, 1, 2 and so on, each once and in order, and ten of them in all; the tenth ends the
  file.\<close>

theorem proc_file_lines:
  "seq_reads my_seq_start my_seq_next my_seq_show ns 0 =
    (map (\<lambda>i. ''Line '' @ show_nat i @ [CHR 0x0A]) [0 ..< min 10 (sum_list ns)],
     int (min 10 (sum_list ns)))"
  using my_seq_records [of 0 "sum_list ns"] by (simp add: proc.seq_reads_sum my_seq_show_def)

section \<open>The module\<close>

text \<open>The operation tables of the module, and reading a registered entry: \<open>seq_open\<close> puts the
  position at 0.\<close>

record seq_operations =
  so_start :: "int \<Rightarrow> int option"
  so_next :: "int \<Rightarrow> int \<times> int option"
  so_stop :: "int option \<Rightarrow> unit"
  so_show :: "int \<Rightarrow> string"

definition my_seq_ops :: seq_operations where
  "my_seq_ops = \<lparr>so_start = my_seq_start, so_next = my_seq_next, so_stop = my_seq_stop, so_show = my_seq_show\<rparr>"

record 's proc_api =
  proc_create :: "string \<Rightarrow> seq_operations \<Rightarrow> 's \<Rightarrow> bool \<times> 's"
  remove_proc_entry :: "string \<Rightarrow> 's \<Rightarrow> 's"


definition PROC_NAME :: string where "PROC_NAME = ''my_proc_entry_demo''"

text \<open>The result of \<open>proc_create\<close> is not looked at.\<close>

definition proc_init :: "'s proc_api \<Rightarrow> 's \<Rightarrow> int \<times> 's" where
  "proc_init api s = (0, snd (proc_create api PROC_NAME my_seq_ops s))"

definition proc_exit :: "'s proc_api \<Rightarrow> 's \<Rightarrow> 's" where
  "proc_exit api s = remove_proc_entry api PROC_NAME s"

text \<open>The contract of the two calls: an entry can be made only under a free name.\<close>

locale proc_kernel =
  fixes api :: "'s proc_api" and entries :: "'s \<Rightarrow> string \<Rightarrow> seq_operations option"
  assumes create_ok: "proc_create api n ops s = (ok, s') \<Longrightarrow>
      (if ok then entries s n = None \<and> entries s' = (entries s)(n \<mapsto> ops) else entries s' = entries s)"
    and remove_ok: "entries (remove_proc_entry api n s) = (entries s)(n := None)"
begin

lemma init_exit:
  assumes "proc_init api s = (ret, s')"
  shows "ret = 0" and "entries (proc_exit api s') = (entries s)(PROC_NAME := None)"
    and "entries s' = entries s \<or> entries s PROC_NAME = None \<and> entries s' = (entries s)(PROC_NAME \<mapsto> my_seq_ops)"
proof -
  obtain ok t where c: "proc_create api PROC_NAME my_seq_ops s = (ok, t)" by fastforce
  then have "ret = 0 \<and> s' = t" using assms by (simp add: proc_init_def)
  then show "ret = 0" and "entries (proc_exit api s') = (entries s)(PROC_NAME := None)"
    and "entries s' = entries s \<or> entries s PROC_NAME = None \<and> entries s' = (entries s)(PROC_NAME \<mapsto> my_seq_ops)"
    using create_ok [OF c] by (auto simp: proc_exit_def remove_ok split: if_splits)
qed

end

record proc_tree = proc_entries :: "string \<Rightarrow> seq_operations option"

definition tree_api :: "proc_tree proc_api" where
  "tree_api = \<lparr>
     proc_create = (\<lambda>n ops s. if proc_entries s n = None
       then (True, s\<lparr>proc_entries := (proc_entries s)(n \<mapsto> ops)\<rparr>) else (False, s)),
     remove_proc_entry = (\<lambda>n s. s\<lparr>proc_entries := (proc_entries s)(n := None)\<rparr>)\<rparr>"

lemma tree_kernel: "proc_kernel tree_api proc_entries"
  by unfold_locales (auto simp: tree_api_def split: if_splits)

interpretation tree: proc_kernel tree_api proc_entries
  by (rule tree_kernel)



end
