(* ===== verification/Kfifo.thy ===== *)
theory Kfifo
  imports Prelude
begin

text \<open>
  src/kfifo_test.c: two structures are put into a byte queue of the kernel when the module is
  loaded and taken out when it is unloaded. The queue is a parameter with the contract of
  \<open>kfifo_in\<close> and \<open>kfifo_out\<close>. \<open>None\<close> is a write outside the allocated object.
\<close>

section \<open>Model\<close>

text \<open>\<open>struct EntityElement\<close>: a pointer, an \<open>int\<close>, a \<open>char\<close> and three bytes of padding.\<close>

record EntityElement =
  e_name :: u64
  e_age :: u32
  e_gender :: byte

definition sizeof_Element :: nat where "sizeof_Element = 16"
definition FIFO_ELEMENT_MAX :: nat where "FIFO_ELEMENT_MAX = 32"

definition bytes64 :: "u64 \<Rightarrow> byte list" where
  "bytes64 w = bytes32 (ucast w) @ bytes32 (ucast (drop_bit 32 w))"

definition element_bytes :: "byte list \<Rightarrow> EntityElement \<Rightarrow> byte list" where
  "element_bytes padding e = bytes64 (e_name e) @ bytes32 (e_age e) @ [e_gender e] @ padding"

record 's kfifo_api =
  kfifo_alloc :: "nat \<Rightarrow> 's \<Rightarrow> int \<times> 's"
  kfifo_in :: "byte list \<Rightarrow> 's \<Rightarrow> nat \<times> 's"
  kfifo_out :: "nat \<Rightarrow> 's \<Rightarrow> byte list \<times> 's"

text \<open>\<open>fifo_in\<close>: the addresses of the two strings and the padding bytes are arguments; the results
  of all calls are printed and otherwise ignored.\<close>

definition fifo_in :: "'s kfifo_api \<Rightarrow> u64 \<Rightarrow> u64 \<Rightarrow> byte list \<Rightarrow> byte list \<Rightarrow> 's \<Rightarrow> int \<times> 's" where
  "fifo_in api derek sunder pad0 pad1 s =
     (let (_, s) = kfifo_alloc api (sizeof_Element * FIFO_ELEMENT_MAX) s;
          (_, s) = kfifo_in api (element_bytes pad0
            \<lparr>e_name = derek, e_age = 33, e_gender = of_char CHR ''M''\<rparr>) s;
          (_, s) = kfifo_in api (element_bytes pad1
            \<lparr>e_name = sunder, e_age = 44, e_gender = of_char CHR ''F''\<rparr>) s
      in (0, s))"

text \<open>\<open>fifo_out\<close>: \<open>mem\<close> is the object \<open>kmalloc\<close> returned. The result is what the object holds when the
  elements are printed.\<close>

definition fifo_out :: "'s kfifo_api \<Rightarrow> byte list \<Rightarrow> 's \<Rightarrow> (byte list \<times> 's) option" where
  "fifo_out api mem s =
     (case kfifo_out api (sizeof_Element * 2) s of (bytes, s') \<Rightarrow>
        map_option (\<lambda>mem'. (mem', s')) (st_bytes mem 0 bytes))"

section \<open>The queue\<close>

locale kernel_fifo =
  fixes api :: "'s kfifo_api" and contents :: "'s \<Rightarrow> byte list" and room :: "'s \<Rightarrow> nat"
  assumes alloc_fifo: "kfifo_alloc api n s = (ret, s') \<Longrightarrow> ret = 0 \<Longrightarrow> contents s' = [] \<and> n \<le> room s'"
    and put: "kfifo_in api bs s = (n, s') \<Longrightarrow> n = min (length bs) (room s) \<and>
      contents s' = contents s @ take n bs \<and> room s' = room s - n"
    and get: "kfifo_out api n s = (bs, s') \<Longrightarrow> bs = take n (contents s) \<and>
      contents s' = drop n (contents s) \<and> room s' = room s + length bs"
begin

lemma put_fits:
  assumes "kfifo_in api bs s = (n, s')" and "length bs \<le> room s"
  shows "contents s' = contents s @ bs" "room s' = room s - length bs"
  using put [OF assms(1)] assms(2) by (auto simp: min_def)

text \<open>First in, first out: what fits is taken out as it was put in.\<close>

lemma put_get:
  assumes "kfifo_in api bs s = (n, s1)" and "kfifo_out api (length (contents s) + length bs) s1 = (out, s2)"
    and "length bs \<le> room s"
  shows "out = contents s @ bs" "contents s2 = []"
  using put_fits [OF assms(1,3)] get [OF assms(2)] by auto

end

lemma length_bytes64 [simp]: "length (bytes64 w) = 8"
  by (simp add: bytes64_def)

lemma length_element_bytes: "length pad = 3 \<Longrightarrow> length (element_bytes pad e) = sizeof_Element"
  by (simp add: element_bytes_def sizeof_Element_def)

text \<open>A queue in memory.\<close>

record ring_fifo =
  rf_bytes :: "byte list"
  rf_room :: nat

definition ring_fifo_api :: "ring_fifo kfifo_api" where
  "ring_fifo_api = \<lparr>kfifo_alloc = (\<lambda>n s. (0, \<lparr>rf_bytes = [], rf_room = n\<rparr>)),
     kfifo_in = (\<lambda>bs s. (min (length bs) (rf_room s),
        \<lparr>rf_bytes = rf_bytes s @ take (rf_room s) bs, rf_room = rf_room s - length bs\<rparr>)),
     kfifo_out = (\<lambda>n s. (take n (rf_bytes s),
        \<lparr>rf_bytes = drop n (rf_bytes s), rf_room = rf_room s + min n (length (rf_bytes s))\<rparr>))\<rparr>"

interpretation rf: kernel_fifo ring_fifo_api rf_bytes rf_room
  by unfold_locales (auto simp: ring_fifo_api_def min_def)

section \<open>Properties\<close>

text \<open>Further: loading leaves exactly the two structures in the queue, in order; unloading takes
  both out into an object allocated for one: a write of 16 bytes past a 16-byte heap object.
  Into an object for two they come out unchanged.\<close>

theorem fifo_out_overflows:
  assumes "kernel_fifo api contents room"
    and "kfifo_alloc api (sizeof_Element * FIFO_ELEMENT_MAX) s = (0, s0)"
    and "length pad0 = 3" and "length pad1 = 3" and "fifo_in api derek sunder pad0 pad1 s = (ret, s1)"
    and "both = element_bytes pad0 \<lparr>e_name = derek, e_age = 33, e_gender = of_char CHR ''M''\<rparr> @
      element_bytes pad1 \<lparr>e_name = sunder, e_age = 44, e_gender = of_char CHR ''F''\<rparr>"
  shows "contents s1 = both \<and>
    (length mem = sizeof_Element \<longrightarrow> fifo_out api mem s1 = None) \<and>
    (length mem = 2 * sizeof_Element \<longrightarrow> (\<exists>s2. fifo_out api mem s1 = Some (both, s2) \<and> contents s2 = []))"
proof -
  let ?e = "element_bytes pad0 \<lparr>e_name = derek, e_age = 33, e_gender = of_char CHR ''M''\<rparr>"
  let ?f = "element_bytes pad1 \<lparr>e_name = sunder, e_age = 44, e_gender = of_char CHR ''F''\<rparr>"
  have len: "length ?e = 16" "length ?f = 16"
    using length_element_bytes [OF assms(3)] length_element_bytes [OF assms(4)]
    by (simp_all add: sizeof_Element_def)
  obtain n t where t: "kfifo_in api ?e s0 = (n, t)" by fastforce
  obtain m u where u: "kfifo_in api ?f t = (m, u)" by fastforce
  have s1: "s1 = u" using assms(2,5) t u by (simp add: fifo_in_def)
  have "contents s0 = []" "512 \<le> room s0"
    using kernel_fifo.alloc_fifo [OF assms(1,2)] by (auto simp: sizeof_Element_def FIFO_ELEMENT_MAX_def)
  with kernel_fifo.put_fits [OF assms(1) t] len have "contents t = ?e" "496 \<le> room t" by auto
  with kernel_fifo.put_fits [OF assms(1) u] len have c: "contents u = both" using assms(6) by auto
  obtain out v where v: "kfifo_out api 32 u = (out, v)" by fastforce
  have "length both = 32" using assms(6) len by simp
  with kernel_fifo.get [OF assms(1) v] c have "out = both" "contents v = []" by auto
  with c s1 v \<open>length both = 32\<close> show ?thesis
    by (auto simp: fifo_out_def sizeof_Element_def st_bytes_def)
qed

theorem fifo_out_overflows_witness:
  "fifo_out ring_fifo_api (replicate 16 0)
     (snd (fifo_in ring_fifo_api 4096 4112 [0, 0, 0] [0, 0, 0] \<lparr>rf_bytes = [], rf_room = 0\<rparr>)) = None"
  using fifo_out_overflows [OF rf.kernel_fifo_axioms, of "\<lparr>rf_bytes = [], rf_room = 0\<rparr>"
      "\<lparr>rf_bytes = [], rf_room = 512\<rparr>" "[0, 0, 0]" "[0, 0, 0]" 4096 4112 _ _ _ "replicate 16 0",
      OF _ _ _ prod.collapse [symmetric] refl]
  by (simp add: ring_fifo_api_def sizeof_Element_def FIFO_ELEMENT_MAX_def)

end
