(* ===== verification/Klist.thy ===== *)
theory Klist
  imports Prelude
begin

text \<open>
  Embedded list nodes: the student list module src/list.c and the \<open>container_of\<close> program
  src/container\_of.c. Objects live at 64-bit addresses; a node is embedded in its object at a
  fixed offset and \<open>container_of\<close> goes back from the node to the object.

  The list operations and the allocator belong to the kernel: they are a record of calls, and the
  contract the module relies on is the locale \<open>list_kernel\<close>, which relates the pointers to the
  sequence of nodes they stand for. The instance is a heap of doubly linked nodes.
\<close>

section \<open>container\_of.c\<close>

text \<open>Offsets of the members on a 64-bit machine: \<open>person\<close> is name, age, height; \<open>employee\<close> is
  a person, then \<open>emp_id\<close> at 16 and \<open>salary\<close> at 20. The floating-point values of the program
  are integral and below \<open>2 ^ 24\<close>, so exact.\<close>

definition container_of :: "u64 \<Rightarrow> u64 \<Rightarrow> u64" where
  "container_of member offset = member - offset"

definition EMP_ID_OFFSET :: u64 where "EMP_ID_OFFSET = 16"

record person =
  name :: string
  age :: int
  height :: int

record employee =
  info :: person
  emp_id :: int
  salary :: int

text \<open>\<open>emp\<close> is the address of the local variable, \<open>p\<close> and \<open>q\<close> the results of the two calls of
  \<open>malloc\<close>. The second block is never used: the pointer to it is overwritten. Reading
  through \<open>pemp\<close> finds the object that lives at that address, if any.\<close>

definition container_main :: "u64 \<Rightarrow> u64 \<Rightarrow> u64 \<Rightarrow> (int \<times> int \<times> string \<times> int \<times> int) option" where
  "container_main emp p q =
     (if p = 0 then None
      else let person = \<lparr>name = ''derek'', age = 37, height = 178\<rparr>;
               objects = Map.empty(emp \<mapsto> \<lparr>info = person, emp_id = 10001, salary = 1000000\<rparr>);
               pemp = container_of (emp + EMP_ID_OFFSET) EMP_ID_OFFSET
        in map_option (\<lambda>e. (emp_id e, salary e, name (info e), age (info e), height (info e))) (objects pemp))"

section \<open>list.c\<close>

text \<open>A \<open>struct student\<close> has its number, its name and at offset 16 its list node.\<close>

type_synonym student = "int \<times> string"

definition LIST_OFFSET :: u64 where "LIST_OFFSET = 16"

definition STUDENT_SIZE :: nat where "STUDENT_SIZE = 32"

record 's list_api =
  init_list_head :: "u64 \<Rightarrow> 's \<Rightarrow> 's"
  list_add :: "u64 \<Rightarrow> u64 \<Rightarrow> 's \<Rightarrow> 's"
  list_del :: "u64 \<Rightarrow> 's \<Rightarrow> 's"
  list_replace :: "u64 \<Rightarrow> u64 \<Rightarrow> 's \<Rightarrow> 's"
  list_next :: "u64 \<Rightarrow> 's \<Rightarrow> u64"
  list_kmalloc :: "nat \<Rightarrow> 's \<Rightarrow> u64 \<times> 's"
  list_kfree :: "u64 \<Rightarrow> 's \<Rightarrow> 's"

text \<open>The kernel's part of the state, and the students that are allocated.\<close>

type_synonym 's school = "'s \<times> (u64 \<Rightarrow> student option)"

text \<open>\<open>kmalloc\<close>, the two assignments and \<open>INIT_LIST_HEAD\<close>: the result of \<open>kmalloc\<close> is not
  tested, so that a failure is a write through NULL (\<open>None\<close>).\<close>

definition new_student :: "'s list_api \<Rightarrow> int \<Rightarrow> string \<Rightarrow> 's school \<Rightarrow> (u64 \<times> 's school) option" where
  "new_student api i n st =
     (case list_kmalloc api STUDENT_SIZE (fst st) of (p, s) \<Rightarrow>
        if p = 0 then None
        else Some (p, (init_list_head api (p + LIST_OFFSET) s, (snd st)(p \<mapsto> (i, n)))))"

text \<open>\<open>list_for_each_entry\<close>: follow the next pointers from the head until the head comes back.\<close>

partial_function (option) list_walk :: "(u64 \<Rightarrow> u64) \<Rightarrow> u64 \<Rightarrow> u64 \<Rightarrow> u64 list option" where
  "list_walk nxt head n =
     (if n = head then Some []
      else do { ps \<leftarrow> list_walk nxt head (nxt n); Some (container_of n LIST_OFFSET # ps) })"

text \<open>\<open>print_student\<close> on every entry; a student that is no longer allocated is a use after free
  (\<open>None\<close>).\<close>

definition print_students :: "'s list_api \<Rightarrow> u64 \<Rightarrow> 's school \<Rightarrow> student list option" where
  "print_students api head st = do {
     ps \<leftarrow> list_walk (\<lambda>n. list_next api n (fst st)) head (list_next api head (fst st));
     those (map (snd st) ps)
   }"

definition on_lists :: "('s \<Rightarrow> 's) \<Rightarrow> 's school \<Rightarrow> 's school" where
  "on_lists f st = (f (fst st), snd st)"

definition free_student :: "'s list_api \<Rightarrow> u64 \<Rightarrow> 's school \<Rightarrow> 's school" where
  "free_student api p st = (list_kfree api p (fst st), (snd st)(p := None))"

text \<open>The first part of the module: the head, four students, and \<open>list_add\<close> for each. \<open>head\<close> is
  the address of the local list head.\<close>

definition enrol :: "'s list_api \<Rightarrow> u64 \<Rightarrow> 's school \<Rightarrow> (u64 \<times> u64 \<times> u64 \<times> u64 \<times> 's school) option" where
  "enrol api head st = do {
     let st = on_lists (init_list_head api head) st;
     (stu1, st) \<leftarrow> new_student api 1 ''sunder'' st;
     (stu2, st) \<leftarrow> new_student api 2 ''derek'' st;
     (stu3, st) \<leftarrow> new_student api 3 ''jascha'' st;
     (stu4, st) \<leftarrow> new_student api 4 ''senior'' st;
     let st = on_lists (list_add api (stu1 + LIST_OFFSET) head) st;
     let st = on_lists (list_add api (stu2 + LIST_OFFSET) head) st;
     let st = on_lists (list_add api (stu3 + LIST_OFFSET) head) st;
     let st = on_lists (list_add api (stu4 + LIST_OFFSET) head) st;
     Some (stu1, stu2, stu3, stu4, st)
   }"

definition testlist_init :: "'s list_api \<Rightarrow> u64 \<Rightarrow> 's school \<Rightarrow> (student list \<times> 's school) option" where
  "testlist_init api head st = do {
     (stu1, stu2, stu3, stu4, st) \<leftarrow> enrol api head st;
     out1 \<leftarrow> print_students api head st;
     let st = on_lists (list_del api (stu2 + LIST_OFFSET)) st;
     let st = free_student api stu2 st;
     out2 \<leftarrow> print_students api head st;
     (stu5, st) \<leftarrow> new_student api 5 ''rommedahl'' st;
     let st = on_lists (list_replace api (stu3 + LIST_OFFSET) (stu5 + LIST_OFFSET)) st;
     out3 \<leftarrow> print_students api head st;
     Some (out1 @ out2 @ out3, st)
   }"

section \<open>The contract of the list operations\<close>

text \<open>
  \<open>is_list h ns s\<close> says that the nodes of the list with head \<open>h\<close> are \<open>ns\<close>; \<open>live\<close> are the
  allocated blocks; \<open>local_addr\<close> holds of addresses outside the allocator's memory; \<open>room\<close> is the
  number of blocks that can still be had. Operations on nodes of other lists and the allocator
  leave a list as it is.
\<close>

locale list_kernel =
  fixes api :: "'s list_api"
    and is_list :: "u64 \<Rightarrow> u64 list \<Rightarrow> 's \<Rightarrow> bool"
    and live :: "'s \<Rightarrow> u64 set"
    and local_addr :: "u64 \<Rightarrow> bool"
    and room :: "'s \<Rightarrow> nat"
  assumes list_distinct: "is_list h ns s \<Longrightarrow> distinct (h # ns)"
    and list_next_ok: "is_list h ns s \<Longrightarrow> map (\<lambda>n. list_next api n s) (h # ns) = ns @ [h]"
    and init_ok: "is_list h [] (init_list_head api h s)"
    and init_other: "is_list h ns s \<Longrightarrow> n \<notin> set (h # ns) \<Longrightarrow> is_list h ns (init_list_head api n s)"
    and add_ok: "is_list h ns s \<Longrightarrow> n \<notin> set (h # ns) \<Longrightarrow> is_list h (n # ns) (list_add api n h s)"
    and del_ok: "is_list h (ns @ n # ms) s \<Longrightarrow> is_list h (ns @ ms) (list_del api n s)"
    and replace_ok: "is_list h (ns @ n # ms) s \<Longrightarrow> m \<notin> set (h # ns @ n # ms) \<Longrightarrow>
      is_list h (ns @ m # ms) (list_replace api n m s)"
    and kmalloc_ok: "list_kmalloc api k s = (p, s') \<Longrightarrow> p \<noteq> 0 \<Longrightarrow>
      p \<notin> live s \<and> live s' = insert p (live s) \<and> \<not> local_addr (p + LIST_OFFSET)"
    and kmalloc_other: "list_kmalloc api k s = (p, s') \<Longrightarrow> is_list h ns s \<Longrightarrow> is_list h ns s'"
    and kfree_ok: "live (list_kfree api p s) = live s - {p}"
    and kfree_other: "is_list h ns s \<Longrightarrow> p + LIST_OFFSET \<notin> set (h # ns) \<Longrightarrow> is_list h ns (list_kfree api p s)"
    and kmalloc_room: "list_kmalloc api k s = (p, s') \<Longrightarrow> 0 < room s \<Longrightarrow> p \<noteq> 0 \<and> room s' = room s - 1"
    and room_other: "room (init_list_head api h s) = room s" "room (list_add api n h s) = room s"
      "room (list_del api n s) = room s" "room (list_replace api n m s) = room s"
      "room s \<le> room (list_kfree api p s)"
    and live_other: "live (init_list_head api h s) = live s" "live (list_add api n h s) = live s"
      "live (list_del api n s) = live s" "live (list_replace api n m s) = live s"

section \<open>Doubly linked nodes\<close>

record dheap =
  nxt :: "u64 \<Rightarrow> u64"
  prv :: "u64 \<Rightarrow> u64"
  blocks :: "u64 list"
  free_blocks :: "u64 list"

definition LIST_POISON1 :: u64 where "LIST_POISON1 = 0xdead000000000100"
definition LIST_POISON2 :: u64 where "LIST_POISON2 = 0xdead000000000122"

definition d_init :: "u64 \<Rightarrow> dheap \<Rightarrow> dheap" where
  "d_init h s = s\<lparr>nxt := (nxt s)(h := h), prv := (prv s)(h := h)\<rparr>"

definition d_add :: "u64 \<Rightarrow> u64 \<Rightarrow> dheap \<Rightarrow> dheap" where
  "d_add n h s = (let m = nxt s h in s\<lparr>nxt := (nxt s)(n := m, h := n), prv := (prv s)(m := n, n := h)\<rparr>)"

definition d_del :: "u64 \<Rightarrow> dheap \<Rightarrow> dheap" where
  "d_del n s = (let p = prv s n; m = nxt s n
     in s\<lparr>nxt := (nxt s)(p := m, n := LIST_POISON1), prv := (prv s)(m := p, n := LIST_POISON2)\<rparr>)"

definition d_replace :: "u64 \<Rightarrow> u64 \<Rightarrow> dheap \<Rightarrow> dheap" where
  "d_replace old new s = (let m = nxt s old; p = prv s old
     in s\<lparr>nxt := (nxt s)(new := m, p := new), prv := (prv s)(m := new, new := p)\<rparr>)"

definition DHEAP_LOCAL :: u64 where "DHEAP_LOCAL = 8"

definition usable :: "dheap \<Rightarrow> u64 list" where
  "usable s = filter (\<lambda>p. p \<noteq> 0 \<and> p \<notin> set (blocks s) \<and> p + LIST_OFFSET \<noteq> DHEAP_LOCAL) (remdups (free_blocks s))"

definition d_kmalloc :: "nat \<Rightarrow> dheap \<Rightarrow> u64 \<times> dheap" where
  "d_kmalloc k s =
     (case usable s of [] \<Rightarrow> (0, s) | p # ps \<Rightarrow> (p, s\<lparr>blocks := p # blocks s, free_blocks := ps\<rparr>))"

definition d_kfree :: "u64 \<Rightarrow> dheap \<Rightarrow> dheap" where
  "d_kfree p s = s\<lparr>blocks := removeAll p (blocks s)\<rparr>"

definition d_api :: "dheap list_api" where
  "d_api = \<lparr>init_list_head = d_init, list_add = d_add, list_del = d_del, list_replace = d_replace,
     list_next = (\<lambda>n s. nxt s n), list_kmalloc = d_kmalloc,
     list_kfree = d_kfree\<rparr>"

text \<open>The pointers go round the head and the nodes in both directions.\<close>

definition d_list :: "u64 \<Rightarrow> u64 list \<Rightarrow> dheap \<Rightarrow> bool" where
  "d_list h ns s \<longleftrightarrow> distinct (h # ns) \<and> map (nxt s) (h # ns) = ns @ [h] \<and> map (prv s) (ns @ [h]) = h # ns"

lemma map_upd_notin: "x \<notin> set xs \<Longrightarrow> map (f(x := y)) xs = map f xs"
  by simp

lemma d_list_init: "d_list h [] (d_init h s)"
  by (simp add: d_list_def d_init_def)

lemma d_list_init_other: "d_list h ns s \<Longrightarrow> n \<notin> set (h # ns) \<Longrightarrow> d_list h ns (d_init n s)"
  by (auto simp: d_list_def d_init_def)

lemma d_list_add: "d_list h ns s \<Longrightarrow> n \<notin> set (h # ns) \<Longrightarrow> d_list h (n # ns) (d_add n h s)"
  by (cases ns) (auto simp: d_list_def d_add_def Let_def)

text \<open>A node \<open>n\<close> with its neighbours \<open>p\<close> and \<open>m\<close>, and the pointers of the rest.\<close>

lemma d_list_split:
  "d_list h (ns @ n # ms) s \<longleftrightarrow> distinct (h # ns @ n # ms) \<and>
     map (nxt s) (h # ns) = ns @ [n] \<and> map (nxt s) (n # ms) = ms @ [h] \<and>
     map (prv s) (ns @ [n]) = h # ns \<and> map (prv s) (ms @ [h]) = n # ms"
proof -
  have "map (nxt s) (h # ns @ n # ms) = (ns @ n # ms) @ [h] \<longleftrightarrow>
      map (nxt s) (h # ns) @ map (nxt s) (n # ms) = (ns @ [n]) @ (ms @ [h])" by simp
  also have "\<dots> \<longleftrightarrow> map (nxt s) (h # ns) = ns @ [n] \<and> map (nxt s) (n # ms) = ms @ [h]"
    by (rule append_eq_append_conv) simp
  finally have next_eq: "map (nxt s) (h # ns @ n # ms) = (ns @ n # ms) @ [h] \<longleftrightarrow> \<dots>" .
  have "map (prv s) ((ns @ n # ms) @ [h]) = h # ns @ n # ms \<longleftrightarrow>
      map (prv s) (ns @ [n]) @ map (prv s) (ms @ [h]) = (h # ns) @ (n # ms)" by simp
  also have "\<dots> \<longleftrightarrow> map (prv s) (ns @ [n]) = h # ns \<and> map (prv s) (ms @ [h]) = n # ms"
    by (rule append_eq_append_conv) simp
  finally have prev_eq: "map (prv s) ((ns @ n # ms) @ [h]) = h # ns @ n # ms \<longleftrightarrow> \<dots>" .
  show ?thesis unfolding d_list_def next_eq prev_eq by (simp only: conj_assoc)
qed

lemma d_list_around:
  assumes "d_list h (ns @ n # ms) s"
  obtains us p m vs where "h # ns = us @ [p]" "ms @ [h] = m # vs" "map (nxt s) us = ns" "map (nxt s) ms = vs"
    "map (prv s) ns = us" "map (prv s) vs = ms" "prv s n = p" "nxt s n = m" "nxt s p = n" "prv s m = n"
    "p \<notin> set us" "n \<notin> set us" "p \<noteq> n" "m \<noteq> n" "m \<notin> set vs" "n \<notin> set vs" "p \<notin> set ms" "m \<notin> set ns"
proof -
  obtain us p where up: "h # ns = us @ [p]" using rev_exhaust [of "h # ns"] by blast
  obtain m vs where mv: "ms @ [h] = m # vs" by (cases "ms @ [h]") simp_all
  have d: "distinct (h # ns @ n # ms)"
    and e: "map (nxt s) (us @ [p]) = ns @ [n]" "map (nxt s) (n # ms) = m # vs"
      "map (prv s) (ns @ [n]) = us @ [p]" "map (prv s) (m # vs) = n # ms"
    using assms by (simp_all only: d_list_split up mv)
  have "distinct (h # ns)" "distinct (ms @ [h])" "set (h # ns) \<inter> set ms = {}" "set (ms @ [h]) \<inter> set ns = {}"
    "n \<notin> set (h # ns)" "n \<notin> set (ms @ [h])"
    using d by auto
  then have dd: "distinct (us @ [p])" "distinct (m # vs)" "set (us @ [p]) \<inter> set ms = {}" "set (m # vs) \<inter> set ns = {}"
    "n \<notin> set (us @ [p])" "n \<notin> set (m # vs)"
    by (simp_all only: up mv not_False_eq_True)
  show ?thesis
  proof (rule that [OF up mv])
    show "map (nxt s) us = ns" "nxt s p = n" "map (prv s) ns = us" "prv s n = p"
      using e(1,3) by simp_all
    show "map (nxt s) ms = vs" "nxt s n = m" "map (prv s) vs = ms" "prv s m = n"
      using e(2,4) by simp_all
  qed (use dd in auto)
qed

lemma d_list_del:
  assumes "d_list h (ns @ n # ms) s"
  shows "d_list h (ns @ ms) (d_del n s)"
proof -
  obtain us p m vs where l: "h # ns = us @ [p]" "ms @ [h] = m # vs" "map (nxt s) us = ns" "map (nxt s) ms = vs"
    "map (prv s) ns = us" "map (prv s) vs = ms" "prv s n = p" "nxt s n = m"
    and d: "p \<notin> set us" "n \<notin> set us" "p \<noteq> n" "m \<noteq> n" "m \<notin> set vs" "n \<notin> set vs" "p \<notin> set ms" "m \<notin> set ns"
    using assms by (rule d_list_around)
  have n: "n \<notin> set ns" "n \<notin> set ms" "distinct (h # ns @ ms)" using assms by (auto simp: d_list_def)
  let ?s = "d_del n s"
  have "map (nxt ?s) ((us @ [p]) @ ms) = ns @ m # vs"
    using l(3,4,7,8) d n by (simp add: d_del_def Let_def)
  then have "map (nxt ?s) ((h # ns) @ ms) = ns @ ms @ [h]" unfolding l(1,2) .
  moreover have "map (prv ?s) (ns @ m # vs) = (us @ [p]) @ ms"
    using l(5-8) d n by (simp add: d_del_def Let_def)
  then have "map (prv ?s) (ns @ ms @ [h]) = (h # ns) @ ms" unfolding l(1,2) .
  ultimately show ?thesis using n(3) by (simp add: d_list_def)
qed

lemma d_list_replace:
  assumes "d_list h (ns @ n # ms) s" and new: "r \<notin> set (h # ns @ n # ms)"
  shows "d_list h (ns @ r # ms) (d_replace n r s)"
proof -
  obtain us p m vs where l: "h # ns = us @ [p]" "ms @ [h] = m # vs" "map (nxt s) us = ns" "map (nxt s) ms = vs"
    "map (prv s) ns = us" "map (prv s) vs = ms" "prv s n = p" "nxt s n = m"
    and d: "p \<notin> set us" "n \<notin> set us" "p \<noteq> n" "m \<noteq> n" "m \<notin> set vs" "n \<notin> set vs" "p \<notin> set ms" "m \<notin> set ns"
    using assms(1) by (rule d_list_around)
  have "r \<notin> set (h # ns)" "r \<notin> set (ms @ [h])" using new by auto
  then have r: "r \<notin> set (us @ [p])" "r \<notin> set (m # vs)" by (simp_all only: l(1,2) not_False_eq_True)
  have n: "distinct (h # ns @ r # ms)" using assms by (auto simp: d_list_def)
  let ?s = "d_replace n r s"
  have "map (nxt ?s) ((us @ [p]) @ r # ms) = ns @ r # m # vs"
    using l(3,4,7,8) d r n by (auto simp: d_replace_def Let_def)
  then have "map (nxt ?s) ((h # ns) @ r # ms) = ns @ r # ms @ [h]" unfolding l(1,2) .
  moreover have "map (prv ?s) (ns @ r # m # vs) = (us @ [p]) @ r # ms"
    using l(5-8) d r n by (auto simp: d_replace_def Let_def)
  then have "map (prv ?s) (ns @ r # ms @ [h]) = (h # ns) @ r # ms" unfolding l(1,2) .
  ultimately show ?thesis using n by (simp add: d_list_def)
qed

lemma usable_set: "p \<in> set (usable s) \<Longrightarrow> p \<noteq> 0 \<and> p \<notin> set (blocks s) \<and> p + LIST_OFFSET \<noteq> DHEAP_LOCAL"
  by (simp add: usable_def)

lemma d_kmalloc_ok:
  assumes "d_kmalloc k s = (p, s')"
  shows "(usable s = [] \<and> p = 0 \<and> s' = s) \<or> (p \<in> set (usable s) \<and> blocks s' = p # blocks s \<and>
    length (usable s') = length (usable s) - 1 \<and> nxt s' = nxt s \<and> prv s' = prv s)"
proof (cases "usable s")
  case Nil
  then show ?thesis using assms by (simp add: d_kmalloc_def)
next
  case (Cons q ps)
  have "distinct (usable s)" by (simp add: usable_def)
  then have "distinct (q # ps)" and all: "\<And>x. x \<in> set (q # ps) \<Longrightarrow> x \<noteq> 0 \<and> x \<notin> set (blocks s) \<and> x + LIST_OFFSET \<noteq> DHEAP_LOCAL"
    using Cons usable_set [of _ s] by auto
  moreover have s': "p = q" "s' = s\<lparr>blocks := q # blocks s, free_blocks := ps\<rparr>"
    using assms Cons by (auto simp: d_kmalloc_def)
  ultimately have "usable s' = ps" by (auto simp: usable_def distinct_remdups_id intro!: filter_True)
  then show ?thesis using s' Cons by simp
qed

lemma usable_kfree: "length (usable s) \<le> length (usable (d_kfree p s))"
proof -
  have mono: "length (filter P xs) \<le> length (filter Q xs)" if "\<And>x. P x \<Longrightarrow> Q x" for P Q and xs :: "u64 list"
    using that by (induction xs) (auto simp: le_SucI)
  show ?thesis unfolding usable_def d_kfree_def by (simp, rule mono) simp
qed

lemma d_list_cong: "nxt s' = nxt s \<Longrightarrow> prv s' = prv s \<Longrightarrow> d_list h ns s' = d_list h ns s"
  by (simp add: d_list_def)

lemma d_fields [simp]:
  "blocks (d_init h s) = blocks s" "blocks (d_add n h s) = blocks s" "blocks (d_del n s) = blocks s"
  "blocks (d_replace n m s) = blocks s" "usable (d_init h s) = usable s" "usable (d_add n h s) = usable s"
  "usable (d_del n s) = usable s" "usable (d_replace n m s) = usable s"
  by (simp_all add: d_init_def d_add_def d_del_def d_replace_def usable_def Let_def)

lemma d_kernel: "list_kernel d_api d_list (\<lambda>s. set (blocks s)) (\<lambda>a. a = DHEAP_LOCAL) (\<lambda>s. length (usable s))"
proof (unfold_locales, goal_cases)
  case (6 h ns n ms s)
  then show ?case by (simp add: d_api_def d_list_del)
next
  case (7 h ns n ms s m)
  then show ?case by (simp add: d_api_def d_list_replace)
next
  case (5 h ns s n)
  then show ?case by (simp add: d_api_def d_list_add)
next
  case (3 h s)
  then show ?case by (simp add: d_api_def d_list_init)
next
  case (4 h ns s n)
  then show ?case by (simp add: d_api_def d_list_init_other)
next
  case (8 k s p s')
  then show ?case using d_kmalloc_ok [of k s p s'] usable_set [of p s] by (auto simp: d_api_def)
next
  case (9 k s p s' h ns)
  then show ?case using d_kmalloc_ok [of k s p s'] by (auto simp: d_api_def d_list_def)
next
  case (12 k s p s')
  then show ?case using d_kmalloc_ok [of k s p s'] usable_set [of p s] by (auto simp: d_api_def)
next
  case (17 s p)
  then show ?case by (simp add: d_api_def usable_kfree)
qed (auto simp: d_api_def d_list_def d_kfree_def)

interpretation dheap: list_kernel d_api d_list "\<lambda>s. set (blocks s)" "\<lambda>a. a = DHEAP_LOCAL" "\<lambda>s. length (usable s)"
  by (rule d_kernel)

section \<open>Library lemmas\<close>

lemma container_of_offset [simp]: "container_of (p + k) k = p"
  by (simp add: container_of_def)

lemma list_walk_chain:
  assumes "map f ns = tl (ns @ [h])" and "h \<notin> set ns"
  shows "list_walk f h (hd (ns @ [h])) = Some (map (\<lambda>n. container_of n LIST_OFFSET) ns)"
  using assms
proof (induction ns)
  case Nil
  show ?case by (subst list_walk.simps) simp
next
  case (Cons n ns)
  then have "f n = hd (ns @ [h])" "map f ns = tl (ns @ [h])" by (cases ns; simp)+
  then show ?case using Cons by (subst list_walk.simps) auto
qed

context list_kernel
begin

lemma walk_ok:
  assumes "is_list h ns s"
  shows "list_walk (\<lambda>n. list_next api n s) h (list_next api h s) = Some (map (\<lambda>n. container_of n LIST_OFFSET) ns)"
proof -
  have "list_next api h s # map (\<lambda>n. list_next api n s) ns = ns @ [h]" using list_next_ok [OF assms] by simp
  then have "list_next api h s = hd (ns @ [h])" "map (\<lambda>n. list_next api n s) ns = tl (ns @ [h])"
    by (metis list.sel(1), metis list.sel(3))
  then show ?thesis using list_walk_chain [of _ ns h] list_distinct [OF assms] by simp
qed

text \<open>Printing a list of allocated students shows them in the order of the list.\<close>

lemma print_students_ok:
  assumes "is_list h (map (\<lambda>p. p + LIST_OFFSET) ps) s" and "map m ps = map Some xs"
  shows "print_students api h (s, m) = Some xs"
proof -
  have "those (map Some xs) = Some xs" by (induction xs) simp_all
  then have "those (map m ps) = Some xs" by (simp only: assms(2))
  then show ?thesis using walk_ok [OF assms(1)] by (simp add: print_students_def comp_def)
qed

lemma new_student_ok:
  assumes "0 < room s"
  obtains p s' where "new_student api i n (s, m) = Some (p, (s', m(p \<mapsto> (i, n))))" "p \<notin> live s"
    "live s' = insert p (live s)" "\<not> local_addr (p + LIST_OFFSET)" "room s' = room s - 1"
    "\<forall>h ns. is_list h ns s \<and> p + LIST_OFFSET \<notin> set (h # ns) \<longrightarrow> is_list h ns s'"
proof -
  obtain p s1 where k: "list_kmalloc api STUDENT_SIZE s = (p, s1)" by fastforce
  have p: "p \<noteq> 0" "room s1 = room s - 1" using kmalloc_room [OF k assms] by auto
  show ?thesis
  proof (rule that [of p "init_list_head api (p + LIST_OFFSET) s1"])
    show "new_student api i n (s, m) = Some (p, (init_list_head api (p + LIST_OFFSET) s1, m(p \<mapsto> (i, n))))"
      using k p by (simp add: new_student_def)
    show "\<forall>h ns. is_list h ns s \<and> p + LIST_OFFSET \<notin> set (h # ns) \<longrightarrow>
        is_list h ns (init_list_head api (p + LIST_OFFSET) s1)"
      using init_other kmalloc_other [OF k] by blast
  qed (use kmalloc_ok [OF k p(1)] p(2) in \<open>simp_all add: live_other room_other\<close>)
qed

text \<open>Four students in the list, newest first, after the first part of the module.\<close>

lemma enrol_ok:
  assumes "5 \<le> room s" and "local_addr head"
  obtains a b c d s5 where
    "enrol api head (s, m) = Some (a, b, c, d, (s5,
       m(a \<mapsto> (1, ''sunder''), b \<mapsto> (2, ''derek''), c \<mapsto> (3, ''jascha''), d \<mapsto> (4, ''senior''))))"
    "is_list head (map (\<lambda>p. p + LIST_OFFSET) [d, c, b, a]) s5" "live s5 = live s \<union> {a, b, c, d}"
    "distinct [a, b, c, d]" "{a, b, c, d} \<inter> live s = {}" "1 \<le> room s5"
    "\<forall>p \<in> {a, b, c, d}. p + LIST_OFFSET \<noteq> head"
proof -
  let ?n = "\<lambda>p. p + LIST_OFFSET"
  let ?s0 = "init_list_head api head s"
  have r0: "room ?s0 = room s" "live ?s0 = live s" by (simp_all add: room_other live_other)
  have l0: "is_list head [] ?s0" by (rule init_ok)
  have fresh: "?n p \<noteq> head" if "\<not> local_addr (?n p)" for p using that assms(2) by auto
  obtain a s1 where a: "new_student api 1 ''sunder'' (?s0, m) = Some (a, (s1, m(a \<mapsto> (1, ''sunder''))))" "a \<notin> live ?s0"
    "live s1 = insert a (live ?s0)" "\<not> local_addr (?n a)" "room s1 = room ?s0 - 1"
    "\<forall>h ns. is_list h ns ?s0 \<and> ?n a \<notin> set (h # ns) \<longrightarrow> is_list h ns s1"
    by (rule new_student_ok [of ?s0 1 "''sunder''" m]) (use assms(1) r0 in simp)
  have l1: "is_list head [] s1" using a(6) l0 fresh [OF a(4)] by simp
  obtain b s2 where b: "new_student api 2 ''derek'' (s1, m(a \<mapsto> (1, ''sunder''))) =
      Some (b, (s2, m(a \<mapsto> (1, ''sunder''), b \<mapsto> (2, ''derek''))))" "b \<notin> live s1"
    "live s2 = insert b (live s1)" "\<not> local_addr (?n b)" "room s2 = room s1 - 1"
    "\<forall>h ns. is_list h ns s1 \<and> ?n b \<notin> set (h # ns) \<longrightarrow> is_list h ns s2"
    by (rule new_student_ok [of s1 2 "''derek''" "m(a \<mapsto> (1, ''sunder''))"]) (use assms(1) r0 a(5) in simp)
  have l2: "is_list head [] s2" using b(6) l1 fresh [OF b(4)] by simp
  obtain c s3 where c: "new_student api 3 ''jascha'' (s2, m(a \<mapsto> (1, ''sunder''), b \<mapsto> (2, ''derek''))) =
      Some (c, (s3, m(a \<mapsto> (1, ''sunder''), b \<mapsto> (2, ''derek''), c \<mapsto> (3, ''jascha''))))" "c \<notin> live s2"
    "live s3 = insert c (live s2)" "\<not> local_addr (?n c)" "room s3 = room s2 - 1"
    "\<forall>h ns. is_list h ns s2 \<and> ?n c \<notin> set (h # ns) \<longrightarrow> is_list h ns s3"
    by (rule new_student_ok [of s2 3 "''jascha''" "m(a \<mapsto> (1, ''sunder''), b \<mapsto> (2, ''derek''))"])
       (use assms(1) r0 a(5) b(5) in simp)
  have l3: "is_list head [] s3" using c(6) l2 fresh [OF c(4)] by simp
  obtain d s4 where d: "new_student api 4 ''senior'' (s3, m(a \<mapsto> (1, ''sunder''), b \<mapsto> (2, ''derek''), c \<mapsto> (3, ''jascha''))) =
      Some (d, (s4, m(a \<mapsto> (1, ''sunder''), b \<mapsto> (2, ''derek''), c \<mapsto> (3, ''jascha''), d \<mapsto> (4, ''senior''))))" "d \<notin> live s3"
    "live s4 = insert d (live s3)" "\<not> local_addr (?n d)" "room s4 = room s3 - 1"
    "\<forall>h ns. is_list h ns s3 \<and> ?n d \<notin> set (h # ns) \<longrightarrow> is_list h ns s4"
    by (rule new_student_ok [of s3 4 "''senior''" "m(a \<mapsto> (1, ''sunder''), b \<mapsto> (2, ''derek''), c \<mapsto> (3, ''jascha''))"])
       (use assms(1) r0 a(5) b(5) c(5) in simp)
  have l4: "is_list head [] s4" using d(6) l3 fresh [OF d(4)] by simp
  let ?s5 = "list_add api (?n d) head (list_add api (?n c) head (list_add api (?n b) head (list_add api (?n a) head s4)))"
  have hd: "\<forall>p \<in> {a, b, c, d}. ?n p \<noteq> head" using a(4) b(4) c(4) d(4) assms(2) by auto
  have di: "distinct [a, b, c, d]" using a(2,3) b(2,3) c(2,3) d(2,3) by auto
  have l5: "is_list head (map ?n [d, c, b, a]) ?s5" using di hd by (simp, intro add_ok l4) auto
  show ?thesis
    by (rule that [OF _ l5 _ di _ _ hd])
       (use a(1-5) b(1-5) c(1-5) d(1-5) r0 assms in \<open>auto simp: enrol_def on_lists_def live_other room_other\<close>)
qed

lemma testlist_ok:
  assumes "5 \<le> room s" and "local_addr head"
  shows "\<exists>a c d e s' m'. testlist_init api head (s, m) =
      Some ([(4, ''senior''), (3, ''jascha''), (2, ''derek''), (1, ''sunder''),
             (4, ''senior''), (3, ''jascha''), (1, ''sunder''),
             (4, ''senior''), (5, ''rommedahl''), (1, ''sunder'')], (s', m')) \<and>
    live s' = live s \<union> {a, c, d, e} \<and> distinct [a, c, d, e] \<and> {a, c, d, e} \<inter> live s = {} \<and>
    is_list head (map (\<lambda>p. p + LIST_OFFSET) [d, e, a]) s'"
proof -
  let ?n = "\<lambda>p. p + LIST_OFFSET"
  obtain a b c d s5 where en: "enrol api head (s, m) = Some (a, b, c, d, (s5,
       m(a \<mapsto> (1, ''sunder''), b \<mapsto> (2, ''derek''), c \<mapsto> (3, ''jascha''), d \<mapsto> (4, ''senior''))))"
    and l5: "is_list head (map ?n [d, c, b, a]) s5" and v5: "live s5 = live s \<union> {a, b, c, d}"
    and di: "distinct [a, b, c, d]" and fr: "{a, b, c, d} \<inter> live s = {}"
    and r5: "1 \<le> room s5" and hd: "\<forall>p \<in> {a, b, c, d}. ?n p \<noteq> head"
    using enrol_ok [OF assms, of m] by blast
  define m5 where "m5 = m(a \<mapsto> (1, ''sunder''), b \<mapsto> (2, ''derek''), c \<mapsto> (3, ''jascha''), d \<mapsto> (4, ''senior''))"
  have o1: "print_students api head (s5, m5) = Some [(4, ''senior''), (3, ''jascha''), (2, ''derek''), (1, ''sunder'')]"
    by (rule print_students_ok [OF l5]) (use di in \<open>simp add: m5_def\<close>)
  let ?s6 = "list_kfree api b (list_del api (?n b) s5)" and ?m6 = "m5(b := None)"
  have "is_list head (map ?n [d, c, a]) (list_del api (?n b) s5)"
    using del_ok [of head "map ?n [d, c]" "?n b" "map ?n [a]" s5] l5 by simp
  then have l6: "is_list head (map ?n [d, c, a]) ?s6"
    by (rule kfree_other) (use di hd in auto)
  have o2: "print_students api head (?s6, ?m6) = Some [(4, ''senior''), (3, ''jascha''), (1, ''sunder'')]"
    by (rule print_students_ok [OF l6]) (use di in \<open>auto simp: m5_def\<close>)
  have v6: "live ?s6 = live s \<union> {a, c, d}" using v5 di fr by (auto simp: kfree_ok live_other)
  have "room s5 \<le> room ?s6" using room_other(5) [of "list_del api (?n b) s5" b] by (simp add: room_other)
  then have "0 < room ?s6" using r5 by simp
  then obtain e s7 where e: "new_student api 5 ''rommedahl'' (?s6, ?m6) = Some (e, (s7, ?m6(e \<mapsto> (5, ''rommedahl''))))"
      "e \<notin> live ?s6" "live s7 = insert e (live ?s6)" "\<not> local_addr (?n e)"
      "\<forall>h ns. is_list h ns ?s6 \<and> ?n e \<notin> set (h # ns) \<longrightarrow> is_list h ns s7"
    using new_student_ok [of ?s6 5 "''rommedahl''" ?m6] by metis
  have ne: "e \<noteq> a" "e \<noteq> c" "e \<noteq> d" "?n e \<noteq> head" "e \<notin> live s" using e(2,4) v6 assms(2) by auto
  have l7: "is_list head (map ?n [d, c, a]) s7" using e(5) l6 ne by auto
  let ?s8 = "list_replace api (?n c) (?n e) s7" and ?m8 = "?m6(e \<mapsto> (5, ''rommedahl''))"
  have l8: "is_list head (map ?n [d, e, a]) ?s8"
    using replace_ok [of head "map ?n [d]" "?n c" "map ?n [a]" s7 "?n e"] l7 ne by auto
  have o3: "print_students api head (?s8, ?m8) = Some [(4, ''senior''), (5, ''rommedahl''), (1, ''sunder'')]"
    by (rule print_students_ok [OF l8]) (use di ne in \<open>auto simp: m5_def\<close>)
  have "live ?s8 = live s \<union> {a, c, d, e}" using e(3) v6 by (auto simp: live_other)
  moreover have "testlist_init api head (s, m) =
      Some ([(4, ''senior''), (3, ''jascha''), (2, ''derek''), (1, ''sunder''),
             (4, ''senior''), (3, ''jascha''), (1, ''sunder''),
             (4, ''senior''), (5, ''rommedahl''), (1, ''sunder'')], (?s8, ?m8))"
    using en [folded m5_def] o1 o2 o3 e(1) by (simp add: testlist_init_def on_lists_def free_student_def)
  ultimately show ?thesis using l8 di fr ne by fastforce
qed

end

section \<open>Properties\<close>

text \<open>Claim C18: with memory for its students, list.c prints 4, 3, 2, 1, after deleting the second
  student 4, 3, 1, and after replacing the third by the fifth 4, 5, 1, and never touches a freed
  student. Of the five it allocates only the deleted one is freed: four stay allocated, three of
  them in a list whose head is a local variable.\<close>

theorem student_list_prints:
  assumes "list_kernel api is_list live local_addr room" and "5 \<le> room s" and "local_addr head"
  shows "\<exists>a c d e s' m'. testlist_init api head (s, m) =
      Some ([(4, ''senior''), (3, ''jascha''), (2, ''derek''), (1, ''sunder''),
             (4, ''senior''), (3, ''jascha''), (1, ''sunder''),
             (4, ''senior''), (5, ''rommedahl''), (1, ''sunder'')], (s', m')) \<and>
    live s' = live s \<union> {a, c, d, e} \<and> distinct [a, c, d, e] \<and> {a, c, d, e} \<inter> live s = {} \<and>
    is_list head (map (\<lambda>p. p + LIST_OFFSET) [d, e, a]) s'"
  using assms(1) [THEN list_kernel.testlist_ok, OF assms(2,3)] .

definition demo_dheap :: dheap where
  "demo_dheap = \<lparr>nxt = (\<lambda>_. 0), prv = (\<lambda>_. 0), blocks = [], free_blocks = [0x1000, 0x1020, 0x1040, 0x1060, 0x1080]\<rparr>"

theorem student_list_prints_witness:
  "\<exists>out s' m'. testlist_init d_api DHEAP_LOCAL (demo_dheap, Map.empty) = Some (out, (s', m')) \<and>
     map fst out = [4, 3, 2, 1, 4, 3, 1, 4, 5, 1] \<and> card (set (blocks s')) = 4"
proof -
  have "5 \<le> length (usable demo_dheap)"
    by (simp add: usable_def demo_dheap_def LIST_OFFSET_def DHEAP_LOCAL_def)
  from student_list_prints [OF d_kernel this refl, of Map.empty]
  show ?thesis by (auto simp: demo_dheap_def)
qed

text \<open>Further: when memory runs out the module writes through a null pointer, since it does not
  test the result of \<open>kmalloc\<close>.\<close>

theorem student_list_null:
  assumes "fst (list_kmalloc api STUDENT_SIZE (init_list_head api head s)) = 0"
  shows "testlist_init api head (s, m) = None"
  using assms by (auto simp: testlist_init_def enrol_def new_student_def on_lists_def split: prod.splits)

theorem student_list_null_witness:
  "testlist_init d_api DHEAP_LOCAL (demo_dheap\<lparr>free_blocks := []\<rparr>, Map.empty) = None"
  by (rule student_list_null) (simp add: d_api_def d_init_def d_kmalloc_def usable_def demo_dheap_def)

text \<open>Further: \<open>list_del\<close> after \<open>list_add\<close>, and \<open>list_replace\<close> there and back, give the list
  back, on the doubly linked nodes; and \<open>container_of\<close> inverts taking the address of a
  member.\<close>

theorem list_ops_roundtrip:
  assumes "d_list h ns s" and "n \<notin> set (h # ns)"
  shows "d_list h ns (d_del n (d_add n h s)) \<and> container_of (p + k) k = p \<and>
    (\<forall>us x vs. ns = us @ x # vs \<longrightarrow> d_list h ns (d_replace n x (d_replace x n s)))"
proof (intro conjI allI impI)
  show "d_list h ns (d_del n (d_add n h s))"
    using d_list_del [of h "[]" n ns] d_list_add [OF assms] by simp
  show "container_of (p + k) k = p" by simp
next
  fix us x vs
  assume ns: "ns = us @ x # vs"
  then have "d_list h (us @ n # vs) (d_replace x n s)" using assms by (intro d_list_replace) simp_all
  moreover have "x \<notin> set (h # us @ n # vs)" using assms ns by (auto simp: d_list_def)
  ultimately have "d_list h (us @ x # vs) (d_replace n x (d_replace x n s))" by (rule d_list_replace)
  then show "d_list h ns (d_replace n x (d_replace x n s))" by (simp only: ns)
qed

theorem list_ops_roundtrip_witness:
  "d_list 8 [] (d_del 0x1010 (d_add 0x1010 8 (d_init 8 demo_dheap)))"
proof -
  have "d_list 8 [] (d_init 8 demo_dheap)" by (rule d_list_init)
  then show ?thesis using list_ops_roundtrip [of 8 "[]" "d_init 8 demo_dheap" "0x1010"] by simp
qed

text \<open>Further: container\_of.c prints the fields of the employee it built, wherever the variable
  and the two blocks lie; without memory for the first block it writes through a null pointer.\<close>

theorem container_main_prints:
  "container_main emp p q = (if p = 0 then None else Some (10001, 1000000, ''derek'', 37, 178))"
  by (simp add: container_main_def Let_def)

end
