(* ===== verification/Page_Walk.thy ===== *)
theory Page_Walk
  imports Prelude "HOL-Library.Multiset"
begin

text \<open>
  The address translation modules src/get_physical_addr2.c and src/get_physical_addr.c: the walk
  through the four levels of page tables of the running process, the physical address computed
  from the last entry, the address computed through \<open>virt_to_page\<close>, and the read-back of the
  string through the kernel's linear mapping.

  The page-table macros, the allocator and the memory belong to the kernel and are parameters,
  collected in a record; the locale \<open>paging_kernel\<close> says how they relate to the tables in
  physical memory on a 64-bit PC with four levels. What the processor itself does with an
  address is the reference definition \<open>translate\<close>.
\<close>

section \<open>The kernel interface\<close>

record 's mm_api =
  pgd_index :: "u64 \<Rightarrow> u64"
  pud_index :: "u64 \<Rightarrow> u64"
  pmd_index :: "u64 \<Rightarrow> u64"
  pte_index :: "u64 \<Rightarrow> u64"
  pgd_offset :: "u64 \<Rightarrow> 's \<Rightarrow> u64"
  pud_offset :: "u64 \<Rightarrow> u64 \<Rightarrow> 's \<Rightarrow> u64"
  pmd_offset :: "u64 \<Rightarrow> u64 \<Rightarrow> 's \<Rightarrow> u64"
  pte_offset_kernel :: "u64 \<Rightarrow> u64 \<Rightarrow> 's \<Rightarrow> u64"
  entry_at :: "u64 \<Rightarrow> 's \<Rightarrow> u64"
  pgd_none :: "u64 \<Rightarrow> bool"
  pgd_bad :: "u64 \<Rightarrow> bool"
  pud_none :: "u64 \<Rightarrow> bool"
  pud_bad :: "u64 \<Rightarrow> bool"
  pmd_none :: "u64 \<Rightarrow> bool"
  pmd_bad :: "u64 \<Rightarrow> bool"
  pud_pfn :: "u64 \<Rightarrow> u64"
  pmd_pfn :: "u64 \<Rightarrow> u64"
  pte_pfn :: "u64 \<Rightarrow> u64"
  pte_page :: "u64 \<Rightarrow> u64"
  page_to_phys :: "u64 \<Rightarrow> u64"
  virt_to_page :: "u64 \<Rightarrow> u64"
  phys_to_virt :: "u64 \<Rightarrow> u64"
  offset_in_page :: "u64 \<Rightarrow> u64"
  load_byte :: "u64 \<Rightarrow> 's \<Rightarrow> byte"
  kmalloc :: "nat \<Rightarrow> 's \<Rightarrow> u64 \<times> 's"
  kfree :: "u64 \<Rightarrow> 's \<Rightarrow> 's"

section \<open>get\_physical\_addr2.c\<close>

text \<open>What the walk has computed when it reaches the last level: the addresses of the four
  entries, the four indices and the page frame numbers.\<close>

record walk =
  w_pgd :: u64
  w_pgd_idx :: u64
  w_pud :: u64
  w_pud_idx :: u64
  w_pud_pfn :: u64
  w_pmd :: u64
  w_pmd_idx :: u64
  w_pmd_pfn :: u64
  w_pte :: u64
  w_pte_idx :: u64
  w_pte_pfn :: u64

datatype mm_log =
    Invalid_PGD bool bool
  | Invalid_PUD bool bool
  | Invalid_PMD bool bool
  | Walked walk
  | Physical u64
  | Physical2 u64
  | Map_failed
  | No_buffer
  | Value_at u64 "byte list option"
  | Map_failed2
  | No_buffer2
  | Value_at2 u64 "byte list option"

definition walk_tables :: "'s mm_api \<Rightarrow> u64 \<Rightarrow> 's \<Rightarrow> mm_log + walk" where
  "walk_tables api addr s =
     (let pgd = pgd_offset api addr s; e = entry_at api pgd s; pgd_idx = pgd_index api addr
      in if pgd_none api e \<or> pgd_bad api e then Inl (Invalid_PGD (pgd_none api e) (pgd_bad api e))
      else let pud = pud_offset api pgd addr s; e = entry_at api pud s;
               pud_idx = pud_index api addr; pud_pfns = pud_pfn api e
      in if pud_none api e \<or> pud_bad api e then Inl (Invalid_PUD (pud_none api e) (pud_bad api e))
      else let pmd = pmd_offset api pud addr s; e = entry_at api pmd s;
               pmd_idx = pmd_index api addr; pmd_pfns = pmd_pfn api e
      in if pmd_none api e \<or> pmd_bad api e then Inl (Invalid_PMD (pmd_none api e) (pmd_bad api e))
      else let pte = pte_offset_kernel api pmd addr s; e = entry_at api pte s;
               pte_idx = pte_index api addr; pte_pfns = pte_pfn api e
      in Inr \<lparr>w_pgd = pgd, w_pgd_idx = pgd_idx, w_pud = pud, w_pud_idx = pud_idx, w_pud_pfn = pud_pfns,
           w_pmd = pmd, w_pmd_idx = pmd_idx, w_pmd_pfn = pmd_pfns,
           w_pte = pte, w_pte_idx = pte_idx, w_pte_pfn = pte_pfns\<rparr>)"

definition EFAULT :: int where "EFAULT = 14"
definition ENOMEM :: int where "ENOMEM = 12"

text \<open>\<open>memcpy\<close> of 128 bytes into a fresh buffer.\<close>

definition copy128 :: "'s mm_api \<Rightarrow> u64 \<Rightarrow> 's \<Rightarrow> byte list" where
  "copy128 api v s = map (\<lambda>i. load_byte api (v + of_nat i) s) [0..<128]"

definition phys_of_pte :: "'s mm_api \<Rightarrow> walk \<Rightarrow> u64 \<Rightarrow> 's \<Rightarrow> u64" where
  "phys_of_pte api w addr s =
     page_to_phys api (pte_page api (entry_at api (w_pte w) s)) + offset_in_page api addr"

definition phys_of_page :: "'s mm_api \<Rightarrow> u64 \<Rightarrow> u64" where
  "phys_of_page api a = (let pg = virt_to_page api a in if pg \<noteq> 0 then page_to_phys api pg else 0)"

text \<open>The second half: both addresses are mapped back and 128 bytes from each are printed. On
  every return between the two allocations the first buffer stays allocated.\<close>

definition read_back :: "'s mm_api \<Rightarrow> u64 \<Rightarrow> u64 \<Rightarrow> mm_log list \<Rightarrow> 's \<Rightarrow> int \<times> mm_log list \<times> 's" where
  "read_back api phy_addr phy_addr2 log s =
     (let virt_addr = phys_to_virt api phy_addr
      in if virt_addr = 0 then (- EFAULT, log @ [Map_failed], s)
      else let (kernel_buffer, s) = kmalloc api 128 s
      in if kernel_buffer = 0 then (- ENOMEM, log @ [No_buffer], s)
      else let log = log @ [Value_at virt_addr (cstr (copy128 api virt_addr s))];
               virt_addr2 = phys_to_virt api phy_addr2
      in if virt_addr2 = 0 then (- EFAULT, log @ [Map_failed2], s)
      else let (kernel_buffer2, s) = kmalloc api 128 s
      in if kernel_buffer2 = 0 then (- ENOMEM, log @ [No_buffer2], s)
      else let log = log @ [Value_at2 virt_addr2 (cstr (copy128 api virt_addr2 s))];
               s = kfree api kernel_buffer s; s = kfree api kernel_buffer2 s
      in (0, log, s))"

text \<open>\<open>a\<close> is the address of the string literal.\<close>

definition my_oo_init2 :: "'s mm_api \<Rightarrow> u64 \<Rightarrow> 's \<Rightarrow> int \<times> mm_log list \<times> 's" where
  "my_oo_init2 api a s =
     (case walk_tables api a s of
        Inl l \<Rightarrow> (-1, [l], s)
      | Inr w \<Rightarrow>
          let phy_addr = phys_of_pte api w a s; phy_addr2 = phys_of_page api a
          in read_back api phy_addr phy_addr2 [Walked w, Physical phy_addr, Physical2 phy_addr2] s)"

section \<open>get\_physical\_addr.c\<close>

definition my_oo_init :: "'s mm_api \<Rightarrow> u64 \<Rightarrow> int \<times> mm_log list" where
  "my_oo_init api a = (0, [Physical (phys_of_page api a)])"

section \<open>What the processor does\<close>

definition table_index :: "nat \<Rightarrow> u64 \<Rightarrow> u64" where
  "table_index k a = drop_bit k a AND 511"

definition in_page :: "u64 \<Rightarrow> u64" where
  "in_page a = a AND 0xfff"

definition frame :: "u64 \<Rightarrow> u64" where
  "frame e = e AND 0x000ffffffffff000"

definition present :: "u64 \<Rightarrow> bool" where
  "present e \<longleftrightarrow> bit e 0"

definition large :: "u64 \<Rightarrow> bool" where
  "large e \<longleftrightarrow> bit e 7"

text \<open>The entry that maps \<open>a\<close> in the table at physical address \<open>t\<close>, and the translation of an
  address by four levels with pages of 1 GiB, 2 MiB and 4 KiB. \<open>mem\<close> reads an entry of
  physical memory.\<close>

definition entry_addr :: "u64 \<Rightarrow> nat \<Rightarrow> u64 \<Rightarrow> u64" where
  "entry_addr t k a = t + 8 * table_index k a"

definition translate :: "(u64 \<Rightarrow> u64) \<Rightarrow> u64 \<Rightarrow> u64 \<Rightarrow> u64 option" where
  "translate mem cr3 a =
     (let e4 = mem (entry_addr cr3 39 a)
      in if \<not> present e4 then None
      else let e3 = mem (entry_addr (frame e4) 30 a)
      in if \<not> present e3 then None
      else if large e3 then Some ((frame e3 AND NOT 0x3fffffff) + (a AND 0x3fffffff))
      else let e2 = mem (entry_addr (frame e3) 21 a)
      in if \<not> present e2 then None
      else if large e2 then Some ((frame e2 AND NOT 0x1fffff) + (a AND 0x1fffff))
      else let e1 = mem (entry_addr (frame e2) 12 a)
      in if \<not> present e1 then None
      else Some (frame e1 + in_page a))"

text \<open>
  The laws. The index and offset macros cut the address into fields; the offset functions give a
  pointer through which the kernel reads the entry the processor would read; an entry that is
  neither \<open>none\<close> nor \<open>bad\<close> is present and points to a table; the linear mapping shows physical
  memory (\<open>ram\<close>) and does not put the 64 TiB it
  has room for at address 0; \<open>virt_to_page\<close> is specified on linear addresses
  there, and only there. A failing \<open>kmalloc\<close> takes nothing.
\<close>

locale paging_kernel =
  fixes api :: "'s mm_api"
    and mem :: "'s \<Rightarrow> u64 \<Rightarrow> u64"
    and cr3 :: "'s \<Rightarrow> u64"
    and ram :: "'s \<Rightarrow> u64 \<Rightarrow> byte"
    and held :: "'s \<Rightarrow> u64 multiset"
  assumes indices: "pgd_index api a = table_index 39 a" "pud_index api a = table_index 30 a"
      "pmd_index api a = table_index 21 a" "pte_index api a = table_index 12 a"
      "offset_in_page api a = in_page a"
    and pgd_entry: "entry_at api (pgd_offset api a s) s = mem s (entry_addr (cr3 s) 39 a)"
    and pud_entry: "entry_at api (pud_offset api p a s) s = mem s (entry_addr (frame (entry_at api p s)) 30 a)"
    and pmd_entry: "entry_at api (pmd_offset api p a s) s = mem s (entry_addr (frame (entry_at api p s)) 21 a)"
    and pte_entry: "entry_at api (pte_offset_kernel api p a s) s = mem s (entry_addr (frame (entry_at api p s)) 12 a)"
    and pgd_good: "\<not> pgd_none api e \<Longrightarrow> \<not> pgd_bad api e \<Longrightarrow> present e"
    and pud_good: "\<not> pud_none api e \<Longrightarrow> \<not> pud_bad api e \<Longrightarrow> present e \<and> \<not> large e"
    and pmd_good: "\<not> pmd_none api e \<Longrightarrow> \<not> pmd_bad api e \<Longrightarrow> present e \<and> \<not> large e"
    and pte_phys: "page_to_phys api (pte_page api e) = frame e"
    and linear: "unat p < 2 ^ 46 \<Longrightarrow> phys_to_virt api p \<noteq> 0"
      "load_byte api (phys_to_virt api p + of_nat i) s = ram s (p + of_nat i)"
    and linear_page: "unat p < 2 ^ 46 \<Longrightarrow> virt_to_page api (phys_to_virt api p) \<noteq> 0 \<and>
      page_to_phys api (virt_to_page api (phys_to_virt api p)) = p AND NOT 0xfff"
    and kmalloc_ok: "kmalloc api n s = (b, s') \<Longrightarrow>
      held s' = held s + (if b = 0 then {#} else {#b#}) \<and> ram s' = ram s"
    and kfree_ok: "held (kfree api b s) = held s - {#b#}"

section \<open>Library lemmas\<close>

lemma cstr_map_upt:
  assumes "\<And>i. i < length str \<Longrightarrow> f i = str ! i" and "f (length str) = 0" and "0 \<notin> set str"
    and "length str < n"
  shows "cstr (map f [0..<n]) = Some str"
proof -
  obtain k where k: "n = length str + Suc k" using assms(4) less_iff_Suc_add by auto
  have "map f [0..<n] = map f [0..<length str] @ f (length str) # map f [Suc (length str)..<n]"
    unfolding k by (simp only: upt_add_eq_append [OF le0]) (simp add: upt_conv_Cons del: upt_Suc)
  moreover have "map f [0..<length str] = str"
    using assms(1) by (intro nth_equalityI) simp_all
  ultimately show ?thesis using assms(2,3) by (simp add: cstr_append_nul del: upt_Suc)
qed

lemma unat_u64_mod: "unat (x :: u64) mod 18446744073709551616 = unat x"
  using unsigned_less [of x, where 'a = nat] by simp

text \<open>The fields of an address as numbers.\<close>

lemma unat_table_index: "unat (table_index k a) = unat a div 2 ^ k mod 512"
proof -
  have "table_index k a = take_bit 9 (drop_bit k a)"
    by (simp add: table_index_def take_bit_eq_mask mask_eq_exp_minus_1)
  then show ?thesis
    by (simp only: unsigned_take_bit_eq unsigned_drop_bit_eq) (simp add: take_bit_eq_mod drop_bit_eq_div unat_u64_mod)
qed

lemma unat_in_page: "unat (in_page a) = unat a mod 4096"
proof -
  have "in_page a = take_bit 12 a"
    by (simp add: in_page_def take_bit_eq_mask mask_eq_exp_minus_1)
  then show ?thesis
    by (simp only: unsigned_take_bit_eq) (simp add: take_bit_eq_mod)
qed

lemma table_index_less: "unat (table_index k a) < 512"
  by (simp add: unat_table_index)

lemma in_page_less: "unat (in_page a) < 4096"
  by (simp add: unat_in_page)

lemma frame_eq: "frame e = push_bit 12 (take_bit 40 (drop_bit 12 e))"
proof -
  have "(0x000ffffffffff000 :: u64) = push_bit 12 (mask 40)"
    by (simp add: mask_eq_exp_minus_1 push_bit_eq_mult)
  then have "frame e = e AND push_bit 12 (mask 40)" by (simp only: frame_def)
  also have "\<dots> = push_bit 12 (take_bit 40 (drop_bit 12 e))"
    by (rule bit_word_eqI) (auto simp: bit_simps)
  finally show ?thesis .
qed

lemma unat_frame: "unat (frame e) = 4096 * (unat e div 4096 mod 2 ^ 40)"
proof -
  have "unat (take_bit 40 (drop_bit 12 e)) = unat e div 4096 mod 2 ^ 40"
    by (simp only: unsigned_take_bit_eq unsigned_drop_bit_eq) (simp add: take_bit_eq_mod drop_bit_eq_div unat_u64_mod)
  moreover have "unat e div 4096 mod 2 ^ 40 < 2 ^ 40" by simp
  ultimately show ?thesis
    unfolding frame_eq push_bit_eq_mult by (simp add: unat_word_ariths)
qed

lemma frame_offset_less: "unat (frame e + in_page a) = unat (frame e) + unat (in_page a)"
  "unat (frame e + in_page a) < 2 ^ 52"
proof -
  have f: "unat (frame e) \<le> 4096 * (2 ^ 40 - 1)"
    using mod_less_divisor [of "2 ^ 40" "unat e div 4096"] by (simp add: unat_frame del: mod_less_divisor)
  show "unat (frame e + in_page a) = unat (frame e) + unat (in_page a)"
    using f in_page_less [of a] by (intro unat_add_lem [THEN iffD1]) simp
  then show "unat (frame e + in_page a) < 2 ^ 52" using f in_page_less [of a] by simp
qed

text \<open>Recomposition: an address of 48 bits is its four indices and its offset.\<close>

lemma nat_fields:
  fixes n :: nat
  shows "n mod 2 ^ 48 = (n div 2 ^ 39 mod 512) * 2 ^ 39 + (n div 2 ^ 30 mod 512) * 2 ^ 30 +
    (n div 2 ^ 21 mod 512) * 2 ^ 21 + (n div 2 ^ 12 mod 512) * 2 ^ 12 + n mod 4096"
proof -
  have step: "n mod (m * 512) = m * (n div m mod 512) + n mod m" for m :: nat
    by (rule mod_mult2_eq)
  have "n mod (2 ^ 39 * 512) = 2 ^ 39 * (n div 2 ^ 39 mod 512) + n mod (2 ^ 30 * 512)"
    using step [of "2 ^ 39"] by simp
  moreover have "n mod (2 ^ 30 * 512) = 2 ^ 30 * (n div 2 ^ 30 mod 512) + n mod (2 ^ 21 * 512)"
    using step [of "2 ^ 30"] by simp
  moreover have "n mod (2 ^ 21 * 512) = 2 ^ 21 * (n div 2 ^ 21 mod 512) + n mod (2 ^ 12 * 512)"
    using step [of "2 ^ 21"] by simp
  moreover have "n mod (2 ^ 12 * 512) = 2 ^ 12 * (n div 2 ^ 12 mod 512) + n mod 4096"
    using step [of "2 ^ 12"] by simp
  ultimately show ?thesis by simp
qed

text \<open>An entry lies inside its table, on an eight-byte boundary.\<close>

lemma entry_addr_bounds:
  assumes "unat t mod 4096 = 0"
  shows "unat (entry_addr t k a) div 4096 = unat t div 4096" "unat (entry_addr t k a) mod 8 = 0"
proof -
  have i: "unat (8 * table_index k a) = 8 * unat (table_index k a)"
    using table_index_less [of k a] by (simp add: unat_word_ariths)
  obtain q where q: "unat t = 4096 * q" using assms by fastforce
  have "unat t < 2 ^ 64" using unsigned_less [of t, where 'a = nat] by simp
  then have "q < 2 ^ 52" using q by simp
  then have "unat t + 8 * unat (table_index k a) < 2 ^ 64"
    using q table_index_less [of k a] by simp
  then have sum: "unat (entry_addr t k a) = 4096 * q + 8 * unat (table_index k a)"
    unfolding entry_addr_def using i q by (subst unat_add_lem [THEN iffD1]) simp_all
  show "unat (entry_addr t k a) div 4096 = unat t div 4096"
    using table_index_less [of k a] by (simp add: sum q)
  show "unat (entry_addr t k a) mod 8 = 0" by (simp add: sum)
qed

lemma div_mod_add_small:
  fixes n m i :: nat
  assumes "n mod m + i < m"
  shows "(n + i) div m = n div m" and "(n + i) mod m = n mod m + i"
proof -
  have "n + i = (n mod m + i) + m * (n div m)" by simp
  moreover have "(x + m * q) div m = q" "(x + m * q) mod m = x" if "x < m" for x q :: nat
    using that by simp_all
  ultimately show "(n + i) div m = n div m" "(n + i) mod m = n mod m + i"
    using assms by metis+
qed

text \<open>Addresses in one page have the same entries, and offsets that differ as they do.\<close>

lemma same_page:
  assumes "unat a mod 4096 + i < 4096" and "12 \<le> k"
  shows "table_index k (a + of_nat i) = table_index k a" and "in_page (a + of_nat i) = in_page a + of_nat i"
proof -
  have "unat a div 4096 < 2 ^ 52"
    using unsigned_less [of a, where 'a = nat] by simp
  then have "4096 * (unat a div 4096) + 4096 \<le> 2 ^ 64" by simp
  moreover have "unat a = 4096 * (unat a div 4096) + unat a mod 4096" by simp
  ultimately have "unat a + i < 2 ^ 64" using assms(1) by linarith
  then have s: "unat (a + of_nat i) = unat a + i"
    using assms(1) by (simp add: unat_word_ariths unat_of_nat)
  have "(unat a + i) div 4096 = unat a div 4096" using assms(1) by (rule div_mod_add_small)
  moreover have "(2 :: nat) ^ k = 4096 * 2 ^ (k - 12)"
    using power_add [of "2 :: nat" 12 "k - 12"] assms(2) by simp
  then have "m div 2 ^ k = m div 4096 div 2 ^ (k - 12)" for m :: nat
    by (simp only: div_mult2_eq)
  ultimately show "table_index k (a + of_nat i) = table_index k a"
    by (simp add: word_unat_eq_iff unat_table_index s)
  have "(unat a + i) mod 4096 = unat a mod 4096 + i" using assms(1) by (rule div_mod_add_small)
  then have "unat (in_page (a + of_nat i)) = unat a mod 4096 + i" by (simp only: unat_in_page s)
  moreover have "unat (in_page a + of_nat i) = unat a mod 4096 + i"
    using assms(1) by (simp add: unat_word_ariths unat_of_nat unat_in_page)
  ultimately show "in_page (a + of_nat i) = in_page a + of_nat i" by (simp add: word_unat_eq_iff)
qed

context paging_kernel
begin

text \<open>The walk reads the entries the processor reads.\<close>

lemma walk_entry:
  assumes "walk_tables api a s = Inr w"
  shows "\<exists>e4 e3 e2. e4 = mem s (entry_addr (cr3 s) 39 a) \<and> present e4 \<and>
    e3 = mem s (entry_addr (frame e4) 30 a) \<and> present e3 \<and> \<not> large e3 \<and>
    e2 = mem s (entry_addr (frame e3) 21 a) \<and> present e2 \<and> \<not> large e2 \<and>
    entry_at api (w_pte w) s = mem s (entry_addr (frame e2) 12 a)"
  using assms pgd_good pud_good pmd_good
  by (auto simp: walk_tables_def Let_def pgd_entry pud_entry pmd_entry pte_entry split: if_splits)

lemma walk_translate:
  assumes "walk_tables api a s = Inr w"
  shows "translate (mem s) (cr3 s) a =
    (if present (entry_at api (w_pte w) s) then Some (phys_of_pte api w a s) else None)"
  using walk_entry [OF assms]
  by (auto simp: translate_def Let_def phys_of_pte_def pte_phys indices)

lemma walk_indices:
  assumes "walk_tables api a s = Inr w"
  shows "w_pgd_idx w = table_index 39 a" "w_pud_idx w = table_index 30 a"
    "w_pmd_idx w = table_index 21 a" "w_pte_idx w = table_index 12 a"
  using assms by (auto simp: walk_tables_def Let_def indices split: if_splits)

lemma phys_less: "unat (phys_of_pte api w a s) < 2 ^ 52"
  by (simp only: phys_of_pte_def pte_phys indices) (rule frame_offset_less)

lemma copy128_linear: "copy128 api (phys_to_virt api p) s = map (\<lambda>i. ram s (p + of_nat i)) [0..<128]"
  by (simp add: copy128_def linear)

text \<open>The second half gives back both buffers when it succeeds.\<close>

lemma read_back_held:
  assumes "read_back api p p2 log s = (0, log', s')"
  shows "held s' = held s"
  using assms kmalloc_ok
  by (auto simp: read_back_def Let_def kfree_ok EFAULT_def ENOMEM_def split: prod.splits if_splits)

end

section \<open>An instance\<close>

text \<open>A machine with its linear mapping and its page descriptors where a 64-bit PC has them.\<close>

record pc =
  tables :: "u64 \<Rightarrow> u64"
  top_table :: u64
  data :: "u64 \<Rightarrow> byte"
  buffers :: "u64 multiset"
  next_buffer :: u64
  room :: nat

definition PAGE_OFFSET :: u64 where "PAGE_OFFSET = 0xffff888000000000"
definition VMEMMAP :: u64 where "VMEMMAP = 0xffffea0000000000"

definition no_table :: "u64 \<Rightarrow> bool" where
  "no_table e \<longleftrightarrow> e AND 0xffb \<noteq> 0x63"

definition pc_table :: "nat \<Rightarrow> u64 \<Rightarrow> u64 \<Rightarrow> pc \<Rightarrow> u64" where
  "pc_table k p a s = PAGE_OFFSET + entry_addr (frame (tables s (p - PAGE_OFFSET))) k a"

definition pc_api :: "pc mm_api" where
  "pc_api = \<lparr>
     pgd_index = table_index 39, pud_index = table_index 30, pmd_index = table_index 21, pte_index = table_index 12,
     pgd_offset = (\<lambda>a s. PAGE_OFFSET + entry_addr (top_table s) 39 a),
     pud_offset = pc_table 30, pmd_offset = pc_table 21, pte_offset_kernel = pc_table 12,
     entry_at = (\<lambda>p s. tables s (p - PAGE_OFFSET)),
     pgd_none = (\<lambda>e. e = 0), pgd_bad = no_table, pud_none = (\<lambda>e. e = 0), pud_bad = no_table,
     pmd_none = (\<lambda>e. e = 0), pmd_bad = no_table,
     pud_pfn = (\<lambda>e. drop_bit 12 (frame e)), pmd_pfn = (\<lambda>e. drop_bit 12 (frame e)),
     pte_pfn = (\<lambda>e. drop_bit 12 (frame e)),
     pte_page = (\<lambda>e. VMEMMAP + push_bit 6 (drop_bit 12 (frame e))),
     page_to_phys = (\<lambda>pg. push_bit 12 (drop_bit 6 (pg - VMEMMAP))),
     virt_to_page = (\<lambda>a. VMEMMAP + push_bit 6 (drop_bit 12 (a - PAGE_OFFSET))),
     phys_to_virt = (\<lambda>p. PAGE_OFFSET + p),
     offset_in_page = in_page,
     load_byte = (\<lambda>a s. data s (a - PAGE_OFFSET)),
     kmalloc = (\<lambda>n s. if room s = 0 then (0, s)
       else let b = (if next_buffer s = 0 then 64 else next_buffer s)
         in (b, s\<lparr>buffers := add_mset b (buffers s), next_buffer := b + of_nat n, room := room s - 1\<rparr>)),
     kfree = (\<lambda>b s. s\<lparr>buffers := buffers s - {#b#}\<rparr>)\<rparr>"

lemma no_table_present: "\<not> no_table e \<Longrightarrow> present e \<and> \<not> large e"
proof -
  assume "\<not> no_table e"
  then have e: "e AND 0xffb = 0x63" by (simp add: no_table_def)
  have "bit (e AND 0xffb) 0 = bit e 0" "bit (e AND 0xffb) 7 = bit e 7" by (simp_all add: bit_and_iff)
  then show ?thesis unfolding e by (simp add: present_def large_def)
qed

lemma page_frame_roundtrip: "push_bit 12 (drop_bit 6 (push_bit 6 (drop_bit 12 (x :: u64)))) = x AND NOT 0xfff"
proof -
  have m: "(0xfff :: u64) = mask 12" by (simp add: mask_eq_exp_minus_1)
  show ?thesis unfolding m by (rule bit_word_eqI) (auto simp: bit_simps)
qed

lemma page_aligned_iff: "p AND NOT 0xfff = p \<longleftrightarrow> in_page p = 0"
proof -
  have m: "(0xfff :: u64) = mask 12" by (simp add: mask_eq_exp_minus_1)
  show ?thesis unfolding in_page_def m
  proof
    assume "p AND NOT (mask 12) = p"
    moreover have "(p AND NOT (mask 12)) AND mask 12 = 0" by (rule bit_word_eqI) (auto simp: bit_simps)
    ultimately show "p AND mask 12 = 0" by metis
  next
    assume z: "p AND mask 12 = 0"
    have "p = (p AND mask 12) OR (p AND NOT (mask 12))" by (rule bit_word_eqI) (auto simp: bit_simps)
    then show "p AND NOT (mask 12) = p" by (simp add: z)
  qed
qed

lemma frame_aligned: "frame e AND NOT 0xfff = frame e"
proof -
  have m: "(0xfff :: u64) = mask 12" by (simp add: mask_eq_exp_minus_1)
  show ?thesis unfolding frame_eq m by (rule bit_word_eqI) (auto simp: bit_simps)
qed

lemma linear_nonzero:
  assumes "unat p < 2 ^ 46"
  shows "PAGE_OFFSET + p \<noteq> 0" and "VMEMMAP + push_bit 6 (drop_bit 12 p) \<noteq> 0"
proof -
  show "PAGE_OFFSET + p \<noteq> 0"
  proof
    assume "PAGE_OFFSET + p = 0"
    then have "p = - PAGE_OFFSET" by (metis add.commute eq_neg_iff_add_eq_0)
    then have "unat p = unat (- PAGE_OFFSET)" by simp
    then show False using assms by (simp add: PAGE_OFFSET_def)
  qed
  have "unat (drop_bit 12 p) = unat p div 4096"
    by (simp only: unsigned_drop_bit_eq) (simp add: drop_bit_eq_div take_bit_eq_mod unat_u64_mod)
  then have "unat (drop_bit 12 p) < 2 ^ 34" using assms by simp
  then have "unat (push_bit 6 (drop_bit 12 p)) < 2 ^ 40"
    unfolding push_bit_eq_mult by (simp add: unat_word_ariths)
  moreover have "unat (- VMEMMAP) \<ge> 2 ^ 40" by (simp add: VMEMMAP_def)
  ultimately show "VMEMMAP + push_bit 6 (drop_bit 12 p) \<noteq> 0"
    by (metis add.commute eq_neg_iff_add_eq_0 not_le)
qed

lemma pc_kernel: "paging_kernel pc_api tables top_table data buffers"
proof (unfold_locales, goal_cases)
  case (13 e)
  have "page_to_phys pc_api (pte_page pc_api e) = push_bit 12 (drop_bit 6 (push_bit 6 (drop_bit 12 (frame e))))"
    by (simp add: pc_api_def)
  then show ?case by (simp only: page_frame_roundtrip frame_aligned)
next
  case (14 p)
  then have "PAGE_OFFSET + p \<noteq> 0" by (rule linear_nonzero)
  then show ?case by (simp add: pc_api_def)
next
  case 16
  then show ?case using linear_nonzero(2) by (simp add: pc_api_def page_frame_roundtrip)
next
  case 17
  then show ?case by (auto simp: pc_api_def Let_def split: if_splits)
qed (auto simp: pc_api_def pc_table_def no_table_present)

interpretation pc: paging_kernel pc_api tables top_table data buffers
  by (rule pc_kernel)

section \<open>Properties\<close>

text \<open>Claim C11: when the walk reaches the last level, the physical address it prints is exactly
  the address the processor translates the pointer to, provided the last entry is present (which
  the module does not test: otherwise the processor has no translation and the printed address
  means nothing). When an upper entry is refused, the module says so and fails with -1.\<close>

theorem page_walk_translates:
  assumes "paging_kernel api mem cr3 ram held" and "my_oo_init2 api a s = (ret, log, s')"
  shows "case walk_tables api a s of
      Inl l \<Rightarrow> ret = -1 \<and> log = [l] \<and> s' = s
    | Inr w \<Rightarrow> (\<exists>p. log ! 1 = Physical p \<and> unat p < 2 ^ 52 \<and>
        translate (mem s) (cr3 s) a = (if present (entry_at api (w_pte w) s) then Some p else None))"
proof (cases "walk_tables api a s")
  case (Inl l)
  then show ?thesis using assms(2) by (simp add: my_oo_init2_def)
next
  case (Inr w)
  have "\<exists>more. log = [Walked w, Physical (phys_of_pte api w a s), Physical2 (phys_of_page api a)] @ more"
    using assms(2) Inr
    by (auto simp: my_oo_init2_def read_back_def Let_def split: prod.splits if_splits)
  then show ?thesis
    using Inr paging_kernel.walk_translate [OF assms(1) Inr] paging_kernel.phys_less [OF assms(1)]
    by auto
qed

text \<open>A module string in page 1 of the last 2 MiB but one, mapped to the frame at 0x5000.\<close>

definition demo_pc :: pc where
  "demo_pc = \<lparr>
     tables = (\<lambda>p. if p = 0x1ff8 then 0x2063 else if p = 0x2ff8 then 0x3063
       else if p = 0x3000 then 0x4063 else if p = 0x4008 then 0x5163 else 0),
     top_table = 0x1000,
     data = (\<lambda>p. if p = 0x5f00 then 100 else if p = 0x5f01 then 101 else if p = 0x5f02 then 114
       else if p = 0x5f03 then 101 else if p = 0x5f04 then 107 else 0),
     buffers = {#}, next_buffer = 0x9000, room = 2\<rparr>"

definition demo_ptr :: u64 where "demo_ptr = 0xffffffffc0001f00"

definition demo_walk :: walk where
  "demo_walk = \<lparr>w_pgd = 0xffff888000001ff8, w_pgd_idx = 511, w_pud = 0xffff888000002ff8, w_pud_idx = 511,
     w_pud_pfn = 3, w_pmd = 0xffff888000003000, w_pmd_idx = 0, w_pmd_pfn = 4,
     w_pte = 0xffff888000004008, w_pte_idx = 1, w_pte_pfn = 5\<rparr>"

lemma demo_walks: "walk_tables pc_api demo_ptr demo_pc = Inr demo_walk"
  by code_simp

lemma demo_pte: "entry_at pc_api (w_pte demo_walk) demo_pc = 0x5163" "present 0x5163"
  "phys_of_pte pc_api demo_walk demo_ptr demo_pc = 0x5f00"
  by code_simp+

theorem page_walk_translates_witness:
  "\<exists>ret log s'. my_oo_init2 pc_api demo_ptr demo_pc = (ret, log, s') \<and>
     translate (tables demo_pc) (top_table demo_pc) demo_ptr = Some 0x5f00 \<and> log ! 1 = Physical 0x5f00"
proof -
  obtain ret log s' where m: "my_oo_init2 pc_api demo_ptr demo_pc = (ret, log, s')" by (metis prod_cases3)
  moreover have "log ! 1 = Physical 0x5f00"
    using m by (auto simp: my_oo_init2_def demo_walks demo_pte read_back_def Let_def split: prod.splits if_splits)
  ultimately show ?thesis
    using page_walk_translates [OF pc_kernel m] by (auto simp: demo_walks demo_pte)
qed

text \<open>Further: bounds of the walk. Each printed index is below 512, the entry it selects lies in
  the page of its table on an eight-byte boundary, and the indices and the offset together are
  the low 48 bits of the pointer.\<close>

theorem page_walk_bounds:
  assumes "paging_kernel api mem cr3 ram held" and "walk_tables api a s = Inr w"
    and "unat t mod 4096 = 0"
  shows "(\<forall>x \<in> {w_pgd_idx w, w_pud_idx w, w_pmd_idx w, w_pte_idx w}. unat x < 512 \<and>
      unat (t + 8 * x) div 4096 = unat t div 4096 \<and> unat (t + 8 * x) mod 8 = 0) \<and>
    unat (offset_in_page api a) < 4096 \<and>
    unat a mod 2 ^ 48 = unat (w_pgd_idx w) * 2 ^ 39 + unat (w_pud_idx w) * 2 ^ 30 +
      unat (w_pmd_idx w) * 2 ^ 21 + unat (w_pte_idx w) * 2 ^ 12 + unat (offset_in_page api a)"
proof -
  have "unat (table_index k a) < 512 \<and> unat (t + 8 * table_index k a) div 4096 = unat t div 4096 \<and>
      unat (t + 8 * table_index k a) mod 8 = 0" for k
    using entry_addr_bounds [OF assms(3), of k a] table_index_less [of k a] by (simp add: entry_addr_def)
  moreover have "unat a mod 2 ^ 48 = unat (table_index 39 a) * 2 ^ 39 + unat (table_index 30 a) * 2 ^ 30 +
      unat (table_index 21 a) * 2 ^ 21 + unat (table_index 12 a) * 2 ^ 12 + unat (in_page a)"
    unfolding unat_table_index unat_in_page by (rule nat_fields)
  ultimately show ?thesis
    using in_page_less [of a] paging_kernel.indices(5) [OF assms(1)]
    by (simp only: paging_kernel.walk_indices [OF assms(1,2)]) auto
qed

theorem page_walk_bounds_witness:
  "unat demo_ptr mod 2 ^ 48 = 511 * 2 ^ 39 + 511 * 2 ^ 30 + 0 * 2 ^ 21 + 1 * 2 ^ 12 + 0xf00"
proof -
  have "offset_in_page pc_api demo_ptr = 0xf00" by code_simp
  then show ?thesis
    using page_walk_bounds [OF pc_kernel demo_walks, of 4096] by (simp add: demo_walk_def)
qed

text \<open>Further: the read-back. When the six bytes of the string are mapped, lie in one page of
  installed memory, and the first allocation succeeds, the value the module prints from physical
  memory through the linear mapping is the string the pointer points to.\<close>

theorem physical_readback:
  assumes k: "paging_kernel api mem cr3 ram held" and w: "walk_tables api a s = Inr w"
    and str: "\<And>i. i < 6 \<Longrightarrow> map_option (ram s) (translate (mem s) (cr3 s) (a + of_nat i)) =
      Some ((bytes_of ''derek'' @ [0]) ! i)"
    and page: "unat a mod 4096 + 5 < 4096" and phys: "unat (phys_of_pte api w a s) < 2 ^ 46"
    and mem1: "kmalloc api 128 s = (b, s1)" "b \<noteq> 0" and m: "my_oo_init2 api a s = (ret, log, s')"
  shows "Value_at (phys_to_virt api (phys_of_pte api w a s)) (Some (bytes_of ''derek'')) \<in> set log"
proof -
  let ?p = "phys_of_pte api w a s" and ?v = "phys_to_virt api (phys_of_pte api w a s)"
  have p0: "present (entry_at api (w_pte w) s)"
    using str [of 0] paging_kernel.walk_translate [OF k w] by (auto split: if_splits)
  have tr: "translate (mem s) (cr3 s) (a + of_nat i) = Some (?p + of_nat i)" if "i < 6" for i
  proof -
    have i: "unat a mod 4096 + i < 4096" using that page by simp
    have e: "entry_addr t k (a + of_nat i) = entry_addr t k a" if "12 \<le> k" for t k
      using same_page(1) [OF i that] by (simp add: entry_addr_def)
    have "in_page (a + of_nat i) = in_page a + of_nat i" using same_page(2) [OF i order_refl] .
    then show ?thesis
      using paging_kernel.walk_entry [OF k w] p0
      by (auto simp: translate_def Let_def e phys_of_pte_def paging_kernel.pte_phys [OF k]
          paging_kernel.indices [OF k] add.assoc)
  qed
  have bytes: "ram s (?p + of_nat i) = (bytes_of ''derek'' @ [0]) ! i" if "i < 6" for i
    using str [OF that] tr [OF that] by simp
  have len: "length (bytes_of ''derek'') = 5" by (simp add: bytes_of_def)
  have ram1: "ram s1 = ram s" using paging_kernel.kmalloc_ok [OF k mem1(1)] by simp
  have "cstr (copy128 api ?v s1) = Some (bytes_of ''derek'')"
    unfolding paging_kernel.copy128_linear [OF k] ram1
  proof (rule cstr_map_upt)
    show "ram s (?p + of_nat i) = bytes_of ''derek'' ! i" if "i < length (bytes_of ''derek'')" for i
      using bytes [of i] that by (simp add: nth_append len)
    show "ram s (?p + of_nat (length (bytes_of ''derek''))) = 0"
      using bytes [of 5] by (simp add: nth_append len)
  qed (simp_all add: bytes_of_def)
  then show ?thesis
    using m w mem1 paging_kernel.linear(1) [OF k phys]
    by (auto simp: my_oo_init2_def read_back_def Let_def split: prod.splits if_splits)
qed

theorem physical_readback_witness:
  "\<exists>ret log s'. my_oo_init2 pc_api demo_ptr demo_pc = (ret, log, s') \<and>
     Value_at (phys_to_virt pc_api 0x5f00) (Some (bytes_of ''derek'')) \<in> set log"
proof -
  obtain ret log s' where m: "my_oo_init2 pc_api demo_ptr demo_pc = (ret, log, s')" by (metis prod_cases3)
  have str: "map_option (data demo_pc) (translate (tables demo_pc) (top_table demo_pc) (demo_ptr + of_nat i)) =
      Some ((bytes_of ''derek'' @ [0]) ! i)" if "i < 6" for i
  proof -
    have "\<forall>i \<in> set [0..<6]. map_option (data demo_pc) (translate (tables demo_pc) (top_table demo_pc) (demo_ptr + of_nat i)) =
      Some ((bytes_of ''derek'' @ [0]) ! i)" by code_simp
    then show ?thesis using that by simp
  qed
  have "kmalloc pc_api 128 demo_pc = (0x9000, snd (kmalloc pc_api 128 demo_pc))"
    by (simp add: pc_api_def demo_pc_def)
  moreover have "unat demo_ptr mod 4096 + 5 < 4096" by (simp add: demo_ptr_def)
  ultimately show ?thesis
    using m physical_readback [OF pc_kernel demo_walks str _ _ _ _ m, of "0x9000" "snd (kmalloc pc_api 128 demo_pc)"]
    by (simp add: demo_pte)
qed

text \<open>Further: the address get\_physical\_addr.c prints, for a pointer into the linear mapping, is
  that of the page, without the offset of the object in it: it is the address of the object
  exactly when the object lies at the start of a page.\<close>

theorem page_address_loses_offset:
  assumes "paging_kernel api mem cr3 ram held" and "unat p < 2 ^ 46"
  shows "my_oo_init api (phys_to_virt api p) = (0, [Physical (p AND NOT 0xfff)]) \<and>
    (p AND NOT 0xfff = p \<longleftrightarrow> unat p mod 4096 = 0)"
proof -
  have "p AND NOT 0xfff = p \<longleftrightarrow> in_page p = 0" by (rule page_aligned_iff)
  also have "\<dots> \<longleftrightarrow> unat p mod 4096 = 0" by (simp add: word_unat_eq_iff unat_in_page)
  finally show ?thesis
    using paging_kernel.linear_page [OF assms] by (simp add: my_oo_init_def phys_of_page_def Let_def)
qed

theorem page_address_loses_offset_witness:
  "my_oo_init pc_api 0xffff888000012345 = (0, [Physical 0x12000])"
  using page_address_loses_offset [OF pc_kernel, of 74565] by (simp add: pc_api_def PAGE_OFFSET_def)

text \<open>Further: a successful initialisation has freed both buffers; when the second allocation
  fails the module fails with -ENOMEM and the first buffer is never freed.\<close>

theorem translation_buffers:
  assumes k: "paging_kernel api mem cr3 ram held" and m: "my_oo_init2 api a s = (ret, log, s')"
  shows "(ret = 0 \<longrightarrow> held s' = held s) \<and>
    (walk_tables api a s = Inr w \<and> phys_to_virt api (phys_of_pte api w a s) \<noteq> 0 \<and>
       phys_to_virt api (phys_of_page api a) \<noteq> 0 \<and> kmalloc api 128 s = (b, s1) \<and> b \<noteq> 0 \<and>
       kmalloc api 128 s1 = (0, s2) \<longrightarrow> ret = - ENOMEM \<and> held s' = held s + {#b#})"
proof (intro conjI impI)
  assume "ret = 0"
  then show "held s' = held s"
    using m paging_kernel.read_back_held [OF k]
    by (auto simp: my_oo_init2_def Let_def split: sum.splits)
next
  assume h: "walk_tables api a s = Inr w \<and> phys_to_virt api (phys_of_pte api w a s) \<noteq> 0 \<and>
    phys_to_virt api (phys_of_page api a) \<noteq> 0 \<and> kmalloc api 128 s = (b, s1) \<and> b \<noteq> 0 \<and>
    kmalloc api 128 s1 = (0, s2)"
  then show "ret = - ENOMEM" using m by (simp add: my_oo_init2_def read_back_def Let_def)
  show "held s' = held s + {#b#}"
    using m h paging_kernel.kmalloc_ok [OF k, of 128 s b s1] paging_kernel.kmalloc_ok [OF k, of 128 s1 0 s2]
    by (simp add: my_oo_init2_def read_back_def Let_def)
qed

definition tight_pc :: pc where
  "tight_pc = demo_pc\<lparr>room := 1\<rparr>"

theorem translation_buffers_witness:
  "\<exists>log s'. my_oo_init2 pc_api demo_ptr tight_pc = (- ENOMEM, log, s') \<and> buffers s' = {#0x9000#}"
proof -
  obtain ret log s' where m: "my_oo_init2 pc_api demo_ptr tight_pc = (ret, log, s')" by (metis prod_cases3)
  let ?s1 = "snd (kmalloc pc_api 128 tight_pc)"
  have "walk_tables pc_api demo_ptr tight_pc = Inr demo_walk"
    "phys_to_virt pc_api (phys_of_pte pc_api demo_walk demo_ptr tight_pc) \<noteq> 0"
    "phys_to_virt pc_api (phys_of_page pc_api demo_ptr) \<noteq> 0"
    by code_simp+
  moreover have "kmalloc pc_api 128 tight_pc = (0x9000, ?s1)" "kmalloc pc_api 128 ?s1 = (0, ?s1)"
    "buffers tight_pc = {#}"
    by (simp_all add: pc_api_def tight_pc_def demo_pc_def)
  ultimately show ?thesis
    using m translation_buffers [OF pc_kernel m, of demo_walk "0x9000" ?s1 ?s1] by auto
qed

end
