(* ===== verification/Mqueue.thy ===== *)
theory Mqueue
  imports Traces
begin

text \<open>
  The POSIX message-queue pair src/mqueue/mqueue_sender.c and src/mqueue/mqueue_receive.c. The
  sender turns the lines of its standard input into messages, the receiver prints messages
  until one begins with \<open>exit\<close>. They run side by side: each is a function from its state and the
  state of the system to the next ones, one system call at a time, and a run of the pair is any
  sequence of moves of the two. A call that blocks (sending to a full queue, receiving from an
  empty one) is \<open>None\<close>, and so is the move of a program that has ended.

  The queues are those of the system: a name refers to a queue, \<open>mq_unlink\<close> takes the name away and
  leaves the queue to whoever has it open, and \<open>mq_open\<close> with \<open>O_CREAT\<close> opens the queue of the name
  or makes a new one. A descriptor is modelled by the queue it refers to. What the programs rely
  on are the laws of the locale \<open>posix_mq\<close>, stated on an abstract view of the system; signals that
  interrupt a call are left out.
\<close>

section \<open>Model\<close>

definition QUEUE_NAME :: string where "QUEUE_NAME = ''/test_queue''"
definition MAX_SIZE :: nat where "MAX_SIZE = 1024"
definition MSG_STOP :: "byte list" where "MSG_STOP = bytes_of ''exit''"
definition MQ_MAXMSG :: nat where "MQ_MAXMSG = 10"

record 's mq_api =
  mq_unlink :: "string \<Rightarrow> 's \<Rightarrow> bool \<times> 's"
  mq_open :: "string \<Rightarrow> nat \<Rightarrow> nat \<Rightarrow> 's \<Rightarrow> nat option \<times> 's"
  mq_send :: "nat \<Rightarrow> byte list \<Rightarrow> 's \<Rightarrow> (bool \<times> 's) option"
  mq_receive :: "nat \<Rightarrow> nat \<Rightarrow> 's \<Rightarrow> (byte list option \<times> 's) option"
  mq_close :: "nat \<Rightarrow> 's \<Rightarrow> bool \<times> 's"

text \<open>\<open>fgets (buffer, n, stdin)\<close>: at most \<open>n - 1\<close> bytes, up to and including a newline, and a NUL. At
  the end of the input the buffer stays as it is.\<close>

definition fgets :: "nat \<Rightarrow> byte list \<Rightarrow> byte list \<Rightarrow> byte list \<times> byte list" where
  "fgets n buffer input =
     (if input = [] then (buffer, input)
      else let line = take (n - 1) (line_of input)
           in (line @ [0] @ drop (length line + 1) buffer, drop (length line) input))"

text \<open>\<open>strcspn (buffer, \<quotedblleft>\n\<quotedblright>)\<close> on the C string in a buffer.\<close>

definition strcspn_newline :: "byte list \<Rightarrow> nat option" where
  "strcspn_newline buffer = map_option (\<lambda>s. length (takeWhile (\<lambda>c. c \<noteq> newline) s)) (cstr buffer)"

text \<open>Where a program is: before the system call that is named, ended with an exit status, or past
  an access outside its buffer.\<close>

datatype sender_pc = S_Unlink | S_Open | S_Read nat | S_Send nat | S_Close nat | S_Exit int | S_Undefined

record sender =
  s_pc :: sender_pc
  s_buf :: "byte list"
  s_in :: "byte list"

datatype receiver_pc = R_Open | R_Receive nat | R_Close nat | R_Unlink | R_Exit int | R_Undefined

record receiver =
  r_pc :: receiver_pc
  r_buf :: "byte list"
  r_out :: "byte list list"

definition sender_line :: "nat \<Rightarrow> sender \<Rightarrow> sender" where
  "sender_line mq p =
     (case fgets MAX_SIZE (s_buf p) (s_in p) of (buffer, input) \<Rightarrow>
       (case strcspn_newline buffer of
          None \<Rightarrow> p\<lparr>s_pc := S_Undefined\<rparr>
        | Some k \<Rightarrow> p\<lparr>s_pc := S_Send mq, s_buf := buffer[k := 0], s_in := input\<rparr>))"

definition sender_main :: "'s mq_api \<Rightarrow> sender \<Rightarrow> 's \<Rightarrow> (sender \<times> 's) option" where
  "sender_main api p s =
     (case s_pc p of
        S_Unlink \<Rightarrow> Some (p\<lparr>s_pc := S_Open\<rparr>, snd (mq_unlink api QUEUE_NAME s))
      | S_Open \<Rightarrow>
          (case mq_open api QUEUE_NAME MQ_MAXMSG MAX_SIZE s of
             (None, s') \<Rightarrow> Some (p\<lparr>s_pc := S_Exit 1\<rparr>, s')
           | (Some mq, s') \<Rightarrow> Some (p\<lparr>s_pc := S_Read mq\<rparr>, s'))
      | S_Read mq \<Rightarrow> Some (sender_line mq p, s)
      | S_Send mq \<Rightarrow>
          (let text = takeWhile (\<lambda>c. c \<noteq> 0) (s_buf p) in
           case mq_send api mq (take (length text + 1) (s_buf p)) s of
             None \<Rightarrow> None
           | Some (ok, s') \<Rightarrow>
               if ok \<and> strncmp_eq text MSG_STOP (length MSG_STOP) then Some (p\<lparr>s_pc := S_Close mq\<rparr>, s')
               else Some (p\<lparr>s_pc := S_Read mq\<rparr>, s'))
      | S_Close mq \<Rightarrow>
          (case mq_close api mq s of (ok, s') \<Rightarrow> Some (p\<lparr>s_pc := S_Exit (if ok then 0 else 1)\<rparr>, s'))
      | S_Exit st \<Rightarrow> None
      | S_Undefined \<Rightarrow> None)"

definition receiver_message :: "nat \<Rightarrow> byte list \<Rightarrow> receiver \<Rightarrow> receiver" where
  "receiver_message mq bytes p =
     (case Option.bind (st_bytes (r_buf p) 0 bytes) (\<lambda>b. st_bytes b (length bytes) [0]) of
        None \<Rightarrow> p\<lparr>r_pc := R_Undefined\<rparr>
      | Some buffer \<Rightarrow>
          (let text = takeWhile (\<lambda>c. c \<noteq> 0) buffer in
           if strncmp_eq text MSG_STOP (length MSG_STOP) then p\<lparr>r_pc := R_Close mq, r_buf := buffer\<rparr>
           else p\<lparr>r_buf := buffer, r_out := r_out p @ [text]\<rparr>))"

definition receiver_main :: "'s mq_api \<Rightarrow> receiver \<Rightarrow> 's \<Rightarrow> (receiver \<times> 's) option" where
  "receiver_main api p s =
     (case r_pc p of
        R_Open \<Rightarrow>
          (case mq_open api QUEUE_NAME MQ_MAXMSG MAX_SIZE s of
             (None, s') \<Rightarrow> Some (p\<lparr>r_pc := R_Exit (-1)\<rparr>, s')
           | (Some mq, s') \<Rightarrow> Some (p\<lparr>r_pc := R_Receive mq\<rparr>, s'))
      | R_Receive mq \<Rightarrow>
          (case mq_receive api mq MAX_SIZE s of
             None \<Rightarrow> None
           | Some (None, s') \<Rightarrow> Some (p, s')
           | Some (Some bytes, s') \<Rightarrow> Some (receiver_message mq bytes p, s'))
      | R_Close mq \<Rightarrow>
          (case mq_close api mq s of (ok, s') \<Rightarrow>
             Some (p\<lparr>r_pc := if ok then R_Unlink else R_Exit (-1)\<rparr>, s'))
      | R_Unlink \<Rightarrow>
          (case mq_unlink api QUEUE_NAME s of (ok, s') \<Rightarrow>
             Some (p\<lparr>r_pc := R_Exit (if ok then 0 else -1)\<rparr>, s'))
      | R_Exit st \<Rightarrow> None
      | R_Undefined \<Rightarrow> None)"

text \<open>The two programs side by side.\<close>

datatype actor = Sender | Receiver

record 's pair =
  snd_prog :: sender
  rcv_prog :: receiver
  mq_sys :: 's

fun pair_step :: "'s mq_api \<Rightarrow> actor \<Rightarrow> 's pair \<Rightarrow> 's pair option" where
  "pair_step api Sender c =
     map_option (\<lambda>(p, s). c\<lparr>snd_prog := p, mq_sys := s\<rparr>) (sender_main api (snd_prog c) (mq_sys c))"
| "pair_step api Receiver c =
     map_option (\<lambda>(p, s). c\<lparr>rcv_prog := p, mq_sys := s\<rparr>) (receiver_main api (rcv_prog c) (mq_sys c))"

definition pair_start :: "byte list \<Rightarrow> byte list \<Rightarrow> byte list \<Rightarrow> 's \<Rightarrow> 's pair" where
  "pair_start junk junk' input s =
     \<lparr>snd_prog = \<lparr>s_pc = S_Unlink, s_buf = junk, s_in = input\<rparr>,
      rcv_prog = \<lparr>r_pc = R_Open, r_buf = junk', r_out = []\<rparr>, mq_sys = s\<rparr>"

section \<open>The queues of the system\<close>

text \<open>The view: what the names refer to, the messages in a queue, its limits (number of messages,
  size of a message) and the queues there are.\<close>

record mq_view =
  mq_names :: "string \<rightharpoonup> nat"
  msgs :: "nat \<Rightarrow> byte list list"
  limits :: "nat \<Rightarrow> nat \<times> nat"
  live :: "nat set"

text \<open>The documented behaviour of the calls: opening succeeds and, when the name is taken, gives
  its queue unchanged; sending blocks exactly on a full queue, receiving exactly on an empty one,
  and messages of one priority come out in the order in which they were sent.\<close>

locale posix_mq =
  fixes api :: "'s mq_api" and view :: "'s \<Rightarrow> mq_view"
  assumes unlink_ok: "mq_unlink api n s = (ok, s') \<Longrightarrow>
      ok = (mq_names (view s) n \<noteq> None) \<and> view s' = (view s)\<lparr>mq_names := (mq_names (view s))(n := None)\<rparr>"
    and open_old: "mq_names (view s) n = Some q \<Longrightarrow>
      \<exists>s'. mq_open api n mx sz s = (Some q, s') \<and> view s' = view s"
    and open_new: "mq_names (view s) n = None \<Longrightarrow>
      \<exists>q s'. mq_open api n mx sz s = (Some q, s') \<and> q \<notin> live (view s) \<and>
        view s' = (view s)\<lparr>mq_names := (mq_names (view s))(n \<mapsto> q), msgs := (msgs (view s))(q := []),
          limits := (limits (view s))(q := (mx, sz)), live := insert q (live (view s))\<rparr>"
    and send_full: "q \<in> live (view s) \<Longrightarrow> length m \<le> snd (limits (view s) q) \<Longrightarrow>
      length (msgs (view s) q) \<ge> fst (limits (view s) q) \<Longrightarrow> mq_send api q m s = None"
    and send_ok: "q \<in> live (view s) \<Longrightarrow> length m \<le> snd (limits (view s) q) \<Longrightarrow>
      length (msgs (view s) q) < fst (limits (view s) q) \<Longrightarrow>
      \<exists>s'. mq_send api q m s = Some (True, s') \<and>
        view s' = (view s)\<lparr>msgs := (msgs (view s))(q := msgs (view s) q @ [m])\<rparr>"
    and receive_empty: "q \<in> live (view s) \<Longrightarrow> snd (limits (view s) q) \<le> k \<Longrightarrow>
      msgs (view s) q = [] \<Longrightarrow> mq_receive api q k s = None"
    and receive_ok: "q \<in> live (view s) \<Longrightarrow> snd (limits (view s) q) \<le> k \<Longrightarrow>
      msgs (view s) q = m # ms \<Longrightarrow>
      \<exists>s'. mq_receive api q k s = Some (Some m, s') \<and> view s' = (view s)\<lparr>msgs := (msgs (view s))(q := ms)\<rparr>"
    and close_ok: "q \<in> live (view s) \<Longrightarrow> \<exists>s'. mq_close api q s = (True, s') \<and> view s' = view s"

section \<open>One message\<close>

text \<open>Lines that fit one message.\<close>

definition plain_line :: "byte list \<Rightarrow> bool" where
  "plain_line l \<longleftrightarrow> 0 \<notin> set l \<and> newline \<notin> set l \<and> length l + 1 < MAX_SIZE"

definition stops :: "byte list \<Rightarrow> bool" where
  "stops l \<longleftrightarrow> take (length MSG_STOP) l = MSG_STOP"

lemma stops_iff: "strncmp_eq l MSG_STOP (length MSG_STOP) \<longleftrightarrow> stops l"
  by (simp add: strncmp_eq_def stops_def)

definition typed :: "byte list list \<Rightarrow> byte list" where
  "typed ls = concat (map (\<lambda>l. l @ [newline]) ls)"

lemma typed_Cons: "typed (l # ls) = l @ newline # typed ls"
  by (simp add: typed_def)

text \<open>A line that fits becomes the message with its bytes and a NUL.\<close>

lemma sender_line_plain:
  assumes "plain_line l" and "s_in p = l @ newline # rest"
  shows "\<exists>tl. sender_line mq p = p\<lparr>s_pc := S_Send mq, s_buf := l @ 0 # tl, s_in := rest\<rparr>"
proof -
  have l: "0 \<notin> set l" "newline \<notin> set l" "length l + 1 < MAX_SIZE" using assms(1) by (auto simp: plain_line_def)
  define tl where "tl = drop (length l + 2) (s_buf p)"
  have line: "take (MAX_SIZE - 1) (line_of (l @ newline # rest)) = l @ [newline]"
    using l(3) by (simp add: line_of_line [OF l(2)])
  have fg: "fgets MAX_SIZE (s_buf p) (l @ newline # rest) = (l @ newline # 0 # tl, rest)"
    unfolding fgets_def line Let_def by (simp add: tl_def)
  have "cstr (l @ newline # 0 # tl) = Some (l @ [newline])"
    using cstr_append_nul [of "l @ [newline]" tl] l(1) by (simp add: newline_def)
  then have k: "strcspn_newline (l @ newline # 0 # tl) = Some (length l)"
    using takeWhile_stop [OF l(2), of "[]"] by (simp add: strcspn_newline_def)
  show ?thesis
    by (rule exI [of _ "0 # tl"]) (simp add: sender_line_def assms(2) fg k)
qed

lemma receiver_message_plain:
  assumes "plain_line l" and "length (r_buf p) = MAX_SIZE"
  shows "\<exists>b. length b = MAX_SIZE \<and> receiver_message mq (l @ [0]) p =
    (if stops l then p\<lparr>r_pc := R_Close mq, r_buf := b\<rparr> else p\<lparr>r_buf := b, r_out := r_out p @ [l]\<rparr>)"
proof -
  have l: "0 \<notin> set l" "length l + 1 < length (r_buf p)" using assms by (auto simp: plain_line_def)
  define b where "b = l @ 0 # 0 # drop (length l + 2) (r_buf p)"
  have st: "Option.bind (st_bytes (r_buf p) 0 (l @ [0])) (\<lambda>b. st_bytes b (length (l @ [0])) [0]) = Some b"
    using l(2) by (simp add: st_bytes_def b_def)
  have tw: "takeWhile (\<lambda>c. c \<noteq> 0) b = l" unfolding b_def by (rule takeWhile_stop [OF l(1)])
  have "length b = MAX_SIZE" using l(2) assms(2) by (simp add: b_def)
  then show ?thesis
    by (intro exI [of _ b]) (simp only: receiver_message_def st tw option.case Let_def stops_iff simp_thms)
qed

section \<open>The pair once the sender has removed the name\<close>

text \<open>
  The lines are \<open>ls\<close>, then \<open>fin\<close> that ends the session, then \<open>unread\<close> that is never read. After \<open>k\<close>
  messages sent and \<open>j\<close> received the queue holds those in between; \<open>w\<close> counts the moves that are left.
\<close>

definition messages_of :: "byte list list \<Rightarrow> byte list \<Rightarrow> byte list list" where
  "messages_of ls fin = map (\<lambda>l. l @ [0]) (ls @ [fin])"

definition sender_at :: "byte list list \<Rightarrow> byte list \<Rightarrow> byte list list \<Rightarrow> nat \<Rightarrow> nat option \<Rightarrow> sender \<Rightarrow> nat \<Rightarrow> bool" where
  "sender_at ls fin unread k qo p w =
     (case s_pc p of
        S_Open \<Rightarrow> k = 0 \<and> s_in p = typed (ls @ fin # unread) \<and> w = 2 * length ls + 4
      | S_Read q \<Rightarrow> qo = Some q \<and> k \<le> length ls \<and> s_in p = typed (drop k (ls @ fin # unread)) \<and>
          w = 2 * (length ls - k) + 3
      | S_Send q \<Rightarrow> qo = Some q \<and> k \<le> length ls \<and> s_in p = typed (drop (Suc k) (ls @ fin # unread)) \<and>
          (\<exists>tl. s_buf p = (ls @ [fin]) ! k @ 0 # tl) \<and> w = 2 * (length ls - k) + 2
      | S_Close q \<Rightarrow> qo = Some q \<and> k = Suc (length ls) \<and> w = 1
      | S_Exit st \<Rightarrow> k = Suc (length ls) \<and> st = 0 \<and> w = 0
      | _ \<Rightarrow> False)"

definition receiver_at :: "byte list list \<Rightarrow> nat \<Rightarrow> nat option \<Rightarrow> receiver \<Rightarrow> nat \<Rightarrow> bool" where
  "receiver_at ls j qo p w =
     (case r_pc p of
        R_Open \<Rightarrow> j = 0 \<and> r_out p = [] \<and> length (r_buf p) = MAX_SIZE \<and> w = length ls + 4
      | R_Receive q \<Rightarrow> qo = Some q \<and> j \<le> length ls \<and> r_out p = take j ls \<and> length (r_buf p) = MAX_SIZE \<and>
          w = length ls - j + 3
      | R_Close q \<Rightarrow> qo = Some q \<and> j = Suc (length ls) \<and> r_out p = ls \<and> w = 2
      | R_Unlink \<Rightarrow> j = Suc (length ls) \<and> r_out p = ls \<and> w = 1
      | R_Exit st \<Rightarrow> j = Suc (length ls) \<and> r_out p = ls \<and> st = 0 \<and> w = 0
      | _ \<Rightarrow> False)"

definition queue_at :: "byte list list \<Rightarrow> byte list \<Rightarrow> nat \<Rightarrow> nat \<Rightarrow> nat option \<Rightarrow> 's pair \<Rightarrow> mq_view \<Rightarrow> bool" where
  "queue_at ls fin k j qo c v =
     (case qo of
        None \<Rightarrow> mq_names v QUEUE_NAME = None \<and> s_pc (snd_prog c) = S_Open \<and> r_pc (rcv_prog c) = R_Open
      | Some q \<Rightarrow> q \<in> live v \<and> limits v q = (MQ_MAXMSG, MAX_SIZE) \<and> length (msgs v q) \<le> MQ_MAXMSG \<and>
          j \<le> k \<and> msgs v q = drop j (take k (messages_of ls fin)) \<and>
          ((\<forall>st. r_pc (rcv_prog c) \<noteq> R_Exit st) \<longrightarrow> mq_names v QUEUE_NAME = Some q))"

definition pair_inv :: "('s \<Rightarrow> mq_view) \<Rightarrow> byte list list \<Rightarrow> byte list \<Rightarrow> byte list list \<Rightarrow> nat \<Rightarrow> 's pair \<Rightarrow> bool" where
  "pair_inv view ls fin unread w c \<longleftrightarrow> (\<exists>k j qo u v. w = u + v \<and>
     sender_at ls fin unread k qo (snd_prog c) u \<and> receiver_at ls j qo (rcv_prog c) v \<and>
     queue_at ls fin k j qo c (view (mq_sys c)))"

lemma drop_lines:
  assumes "k \<le> length ls"
  shows "drop k (ls @ fin # unread) = (ls @ [fin]) ! k # drop (Suc k) (ls @ fin # unread)"
  using assms by (auto simp: nth_append drop_Cons' Cons_nth_drop_Suc le_less)

lemma nth_line:
  assumes "k \<le> length ls" "\<forall>l \<in> set ls. plain_line l \<and> \<not> stops l" "plain_line fin" "stops fin"
  shows "plain_line ((ls @ [fin]) ! k)" and "stops ((ls @ [fin]) ! k) \<longleftrightarrow> k = length ls"
  using assms by (auto simp: nth_append le_less)

lemma length_messages_of [simp]: "length (messages_of ls fin) = Suc (length ls)"
  by (simp add: messages_of_def)

lemma messages_of_nth: "k \<le> length ls \<Longrightarrow> messages_of ls fin ! k = (ls @ [fin]) ! k @ [0]"
  by (simp add: messages_of_def nth_append)

text \<open>The messages in the queue after one more is sent, and the first of them.\<close>

lemma window_snoc:
  assumes "j \<le> k" "k < length ms"
  shows "drop j (take (Suc k) ms) = drop j (take k ms) @ [ms ! k]"
  using assms by (simp add: take_Suc_conv_app_nth)

lemma window_Cons:
  assumes "drop j (take k ms) = m # rest" "k \<le> length ms"
  shows "j < k" and "m = ms ! j" and "rest = drop (Suc j) (take k ms)"
proof -
  show j: "j < k" using assms by (metis drop_all length_take list.distinct(1) min.absorb2 not_le)
  have "drop j (take k ms) = ms ! j # drop (Suc j) (take k ms)"
    using j assms(2) by (subst Cons_nth_drop_Suc [symmetric]) simp_all
  then show "m = ms ! j" "rest = drop (Suc j) (take k ms)" using assms(1) by auto
qed

locale mq_session = posix_mq api view
  for api :: "'s mq_api" and view :: "'s \<Rightarrow> mq_view" +
  fixes ls :: "byte list list" and fin :: "byte list" and unread :: "byte list list"
  assumes lines: "\<forall>l \<in> set ls. plain_line l \<and> \<not> stops l" and last_line: "plain_line fin" "stops fin"
begin

lemmas line_at = nth_line [OF _ lines last_line]
lemmas at_defs = sender_at_def receiver_at_def queue_at_def

lemma message_fits: "k \<le> length ls \<Longrightarrow> length ((ls @ [fin]) ! k @ [0 :: byte]) \<le> MAX_SIZE"
  using line_at(1) [of k] by (simp add: plain_line_def)

lemma open_queue:
  assumes "queue_at ls fin k j qo c (view s)" and "k = 0 \<or> j = 0" and "qo = None \<Longrightarrow> k = 0 \<and> j = 0"
    and "\<And>st. r_pc (rcv_prog c) \<noteq> R_Exit st" and "\<And>st. r_pc (rcv_prog c') \<noteq> R_Exit st"
  shows "\<exists>q s'. mq_open api QUEUE_NAME MQ_MAXMSG MAX_SIZE s = (Some q, s') \<and> (\<forall>q'. qo = Some q' \<longrightarrow> q' = q) \<and>
    queue_at ls fin k j (Some q) c' (view s')"
proof (cases qo)
  case None
  then have "mq_names (view s) QUEUE_NAME = None" using assms(1) by (simp add: queue_at_def)
  from open_new [OF this] obtain q s' where
    "mq_open api QUEUE_NAME MQ_MAXMSG MAX_SIZE s = (Some q, s')"
    "view s' = (view s)\<lparr>mq_names := (mq_names (view s))(QUEUE_NAME \<mapsto> q), msgs := (msgs (view s))(q := []),
       limits := (limits (view s))(q := (MQ_MAXMSG, MAX_SIZE)), live := insert q (live (view s))\<rparr>" by blast
  then show ?thesis using None assms(3) by (auto simp: queue_at_def)
next
  case (Some q)
  then have "mq_names (view s) QUEUE_NAME = Some q" using assms(1,4) by (simp add: queue_at_def)
  from open_old [OF this, of MQ_MAXMSG MAX_SIZE] show ?thesis
    using Some assms(1,4) by (auto simp: queue_at_def)
qed

text \<open>A message goes into the queue: the sender was not blocked, so there was room.\<close>

lemma sender_sends:
  assumes S: "sender_at ls fin unread k qo (snd_prog c) u" and R: "receiver_at ls j qo (rcv_prog c) v"
    and Q: "queue_at ls fin k j qo c (view s)" and m: "sender_main api (snd_prog c) s = Some (p', s')"
    and c': "rcv_prog c' = rcv_prog c" "snd_prog c' = p'"
    and S_Send: "s_pc (snd_prog c) = S_Send q"
  shows "\<exists>k' qo' u'. u = Suc u' \<and> sender_at ls fin unread k' qo' p' u' \<and> receiver_at ls j qo' (rcv_prog c) v \<and>
    queue_at ls fin k' j qo' c' (view s')"
proof -
  obtain tl where k: "k \<le> length ls" "qo = Some q" "s_buf (snd_prog c) = (ls @ [fin]) ! k @ 0 # tl"
    "s_in (snd_prog c) = typed (drop (Suc k) (ls @ fin # unread))" "u = 2 * (length ls - k) + 2"
    using S S_Send by (auto simp: sender_at_def)
  let ?l = "(ls @ [fin]) ! k"
  have tw: "takeWhile (\<lambda>c. c \<noteq> 0) (s_buf (snd_prog c)) = ?l"
    unfolding k(3) using line_at(1) [OF k(1)] by (intro takeWhile_stop) (simp add: plain_line_def)
  have q: "q \<in> live (view s)" "limits (view s) q = (MQ_MAXMSG, MAX_SIZE)" "j \<le> k"
    "msgs (view s) q = drop j (take k (messages_of ls fin))" using Q k(2) by (auto simp: queue_at_def)
  have fits: "length (?l @ [0]) \<le> snd (limits (view s) q)" using message_fits [OF k(1)] q(2) by simp
  have room: "length (msgs (view s) q) < MQ_MAXMSG"
    using send_full [OF q(1) fits] m S_Send tw k(3) q(2) by (fastforce simp: sender_main_def Let_def)
  from send_ok [OF q(1) fits] room q(2) obtain t where
    t: "mq_send api q (?l @ [0]) s = Some (True, t)"
    "view t = (view s)\<lparr>msgs := (msgs (view s))(q := msgs (view s) q @ [?l @ [0]])\<rparr>" by auto
  have "p' = (snd_prog c)\<lparr>s_pc := if k = length ls then S_Close q else S_Read q\<rparr> \<and> s' = t"
    using m S_Send tw k(1,3) t(1) line_at(2) [OF k(1)] by (auto simp: sender_main_def Let_def stops_iff split: if_splits)
  moreover have "msgs (view t) q = drop j (take (Suc k) (messages_of ls fin))"
    using t(2) q(3,4) k(1) by (simp add: window_snoc messages_of_nth)
  ultimately show ?thesis using k q R Q c' room t(2)
    by (intro exI [of _ "Suc k"] exI [of _ qo] exI [of _ "2 * (length ls - k) + 1"])
       (auto simp: sender_at_def queue_at_def)
qed

lemma sender_moves:
  assumes S: "sender_at ls fin unread k qo (snd_prog c) u" and R: "receiver_at ls j qo (rcv_prog c) v"
    and Q: "queue_at ls fin k j qo c (view s)" and m: "sender_main api (snd_prog c) s = Some (p', s')"
    and c': "rcv_prog c' = rcv_prog c" "snd_prog c' = p'"
  shows "\<exists>k' qo' u'. u = Suc u' \<and> sender_at ls fin unread k' qo' p' u' \<and> receiver_at ls j qo' (rcv_prog c) v \<and>
    queue_at ls fin k' j qo' c' (view s')"
proof (cases "s_pc (snd_prog c)")
  case S_Open
  have k: "k = 0" "qo = None \<Longrightarrow> k = 0 \<and> j = 0" "\<And>st. r_pc (rcv_prog c) \<noteq> R_Exit st"
    using S R Q S_Open by (auto simp: at_defs split: option.splits)
  from open_queue [OF Q, of c'] k c' obtain q t where
    q: "mq_open api QUEUE_NAME MQ_MAXMSG MAX_SIZE s = (Some q, t)" "\<forall>q'. qo = Some q' \<longrightarrow> q' = q"
    "queue_at ls fin k j (Some q) c' (view t)" by auto
  then have "p' = (snd_prog c)\<lparr>s_pc := S_Read q\<rparr>" "s' = t" using m S_Open by (auto simp: sender_main_def)
  moreover have "receiver_at ls j (Some q) (rcv_prog c) v"
    using R q(2) by (auto simp: receiver_at_def split: receiver_pc.splits)
  ultimately show ?thesis using S S_Open q(3) k(1)
    by (intro exI [of _ 0] exI [of _ "Some q"] exI [of _ "2 * length ls + 3"]) (simp add: sender_at_def)
next
  case (S_Read q)
  then have k: "k \<le> length ls" "qo = Some q" "s_in (snd_prog c) = typed (drop k (ls @ fin # unread))"
    "u = 2 * (length ls - k) + 3" using S by (auto simp: sender_at_def)
  then have "s_in (snd_prog c) = (ls @ [fin]) ! k @ newline # typed (drop (Suc k) (ls @ fin # unread))"
    by (simp only: drop_lines typed_Cons)
  from sender_line_plain [OF line_at(1) [OF k(1)] this, of q] obtain tl where
    "p' = (snd_prog c)\<lparr>s_pc := S_Send q, s_buf := (ls @ [fin]) ! k @ 0 # tl,
       s_in := typed (drop (Suc k) (ls @ fin # unread))\<rparr>" "s' = s"
    using m S_Read by (auto simp: sender_main_def)
  then show ?thesis using k R Q c'
    by (intro exI [of _ k] exI [of _ qo] exI [of _ "2 * (length ls - k) + 2"])
       (auto simp: sender_at_def queue_at_def)
next
  case (S_Send q)
  with sender_sends [OF S R Q m c'] show ?thesis by blast
next
  case (S_Close q)
  with S have k: "k = Suc (length ls)" "qo = Some q" "u = 1" by (auto simp: sender_at_def)
  with Q have "q \<in> live (view s)" by (simp add: queue_at_def)
  from close_ok [OF this] m S_Close have "p' = (snd_prog c)\<lparr>s_pc := S_Exit 0\<rparr>" "view s' = view s"
    by (auto simp: sender_main_def)
  then show ?thesis using k R Q c'
    by (intro exI [of _ k] exI [of _ qo] exI [of _ 0]) (auto simp: sender_at_def queue_at_def)
qed (use S m in \<open>auto simp: sender_at_def sender_main_def\<close>)

text \<open>A message comes out of the queue: the receiver was not blocked, so there was one.\<close>

lemma receiver_takes:
  assumes S: "sender_at ls fin unread k qo (snd_prog c) u" and R: "receiver_at ls j qo (rcv_prog c) v"
    and Q: "queue_at ls fin k j qo c (view s)" and m: "receiver_main api (rcv_prog c) s = Some (p', s')"
    and c': "snd_prog c' = snd_prog c" "rcv_prog c' = p'"
    and R_Receive: "r_pc (rcv_prog c) = R_Receive q"
  shows "\<exists>j' qo' v'. v = Suc v' \<and> sender_at ls fin unread k qo' (snd_prog c) u \<and> receiver_at ls j' qo' p' v' \<and>
    queue_at ls fin k j' qo' c' (view s')"
proof -
  have j: "j \<le> length ls" "qo = Some q" "r_out (rcv_prog c) = take j ls"
    "length (r_buf (rcv_prog c)) = MAX_SIZE" "v = length ls - j + 3" using R R_Receive by (auto simp: receiver_at_def)
  have q: "q \<in> live (view s)" "limits (view s) q = (MQ_MAXMSG, MAX_SIZE)" "j \<le> k"
    "length (msgs (view s) q) \<le> MQ_MAXMSG" "mq_names (view s) QUEUE_NAME = Some q"
    "msgs (view s) q = drop j (take k (messages_of ls fin))" using Q j(2) R_Receive by (auto simp: queue_at_def)
  have k: "k \<le> length (messages_of ls fin)" using S by (auto simp: sender_at_def split: sender_pc.splits)
  have sz: "snd (limits (view s) q) \<le> MAX_SIZE" using q(2) by simp
  have "msgs (view s) q \<noteq> []" using receive_empty [OF q(1) sz] m R_Receive by (auto simp: receiver_main_def)
  then obtain b ms where b: "msgs (view s) q = b # ms" by (cases "msgs (view s) q") auto
  with q(6) have "drop j (take k (messages_of ls fin)) = b # ms" by simp
  note w = window_Cons [OF this k]
  from receive_ok [OF q(1) sz b] obtain t where
    t: "mq_receive api q MAX_SIZE s = Some (Some b, t)" "view t = (view s)\<lparr>msgs := (msgs (view s))(q := ms)\<rparr>" by blast
  from receiver_message_plain [OF line_at(1) [OF j(1)] j(4), of q] obtain buf where buf: "length buf = MAX_SIZE"
    "receiver_message q b (rcv_prog c) = (if j = length ls then (rcv_prog c)\<lparr>r_pc := R_Close q, r_buf := buf\<rparr>
       else (rcv_prog c)\<lparr>r_buf := buf, r_out := r_out (rcv_prog c) @ [(ls @ [fin]) ! j]\<rparr>)"
    using w(2) messages_of_nth [OF j(1), of fin] line_at(2) [OF j(1)] by auto
  have p': "p' = receiver_message q b (rcv_prog c)" "s' = t" using m R_Receive t(1) by (auto simp: receiver_main_def)
  have "queue_at ls fin k (Suc j) qo c' (view s')"
    using p' t(2) w(1,3) q b j(2) by (auto simp: queue_at_def)
  moreover have "receiver_at ls (Suc j) qo p' (length ls - j + 2)"
    using p'(1) buf j R_Receive by (auto simp: receiver_at_def nth_append take_Suc_conv_app_nth le_less)
  ultimately show ?thesis using S j(5) by auto
qed

lemma receiver_moves:
  assumes S: "sender_at ls fin unread k qo (snd_prog c) u" and R: "receiver_at ls j qo (rcv_prog c) v"
    and Q: "queue_at ls fin k j qo c (view s)" and m: "receiver_main api (rcv_prog c) s = Some (p', s')"
    and c': "snd_prog c' = snd_prog c" "rcv_prog c' = p'"
  shows "\<exists>j' qo' v'. v = Suc v' \<and> sender_at ls fin unread k qo' (snd_prog c) u \<and> receiver_at ls j' qo' p' v' \<and>
    queue_at ls fin k j' qo' c' (view s')"
proof (cases "r_pc (rcv_prog c)")
  case R_Open
  then have j: "j = 0" "r_out (rcv_prog c) = []" "length (r_buf (rcv_prog c)) = MAX_SIZE" "v = length ls + 4"
    "qo = None \<Longrightarrow> k = 0 \<and> j = 0" using S R Q by (auto simp: at_defs)
  let ?d = "c\<lparr>rcv_prog := (rcv_prog c)\<lparr>r_pc := R_Unlink\<rparr>\<rparr>"
  from open_queue [OF Q, of ?d] j R_Open obtain q t where
    q: "mq_open api QUEUE_NAME MQ_MAXMSG MAX_SIZE s = (Some q, t)" "\<forall>q'. qo = Some q' \<longrightarrow> q' = q"
    "queue_at ls fin k j (Some q) ?d (view t)" by auto
  have p': "p' = (rcv_prog c)\<lparr>r_pc := R_Receive q\<rparr>" "s' = t" using m R_Open q(1) by (auto simp: receiver_main_def)
  then have "queue_at ls fin k j (Some q) c' (view s')" using q(3) c' by (auto simp: queue_at_def)
  moreover have "sender_at ls fin unread k (Some q) (snd_prog c) u"
    using S q(2) by (auto simp: sender_at_def split: sender_pc.splits)
  ultimately show ?thesis using j p'
    by (intro exI [of _ 0] exI [of _ "Some q"] exI [of _ "length ls + 3"]) (simp add: receiver_at_def)
next
  case (R_Receive q)
  with receiver_takes [OF S R Q m c'] show ?thesis by blast
next
  case (R_Close q)
  with R have j: "j = Suc (length ls)" "qo = Some q" "v = 2" "r_out (rcv_prog c) = ls" by (auto simp: receiver_at_def)
  with Q have "q \<in> live (view s)" by (simp add: queue_at_def)
  from close_ok [OF this] m R_Close have "p' = (rcv_prog c)\<lparr>r_pc := R_Unlink\<rparr>" "view s' = view s"
    by (auto simp: receiver_main_def)
  then show ?thesis using j S Q c' R_Close
    by (intro exI [of _ j] exI [of _ qo] exI [of _ 1]) (auto simp: receiver_at_def queue_at_def)
next
  case R_Unlink
  with R have j: "j = Suc (length ls)" "v = 1" "r_out (rcv_prog c) = ls" by (auto simp: receiver_at_def)
  with Q R_Unlink obtain q where q: "qo = Some q" "mq_names (view s) QUEUE_NAME = Some q"
    by (auto simp: queue_at_def split: option.splits)
  obtain ok t where t: "mq_unlink api QUEUE_NAME s = (ok, t)" by fastforce
  from unlink_ok [OF t] q m R_Unlink t have "p' = (rcv_prog c)\<lparr>r_pc := R_Exit 0\<rparr>" "s' = t" by (auto simp: receiver_main_def)
  then show ?thesis using j S Q c' q unlink_ok [OF t]
    by (intro exI [of _ j] exI [of _ qo] exI [of _ 0]) (auto simp: receiver_at_def queue_at_def)
qed (use R m in \<open>auto simp: receiver_at_def receiver_main_def\<close>)

lemma pair_moves:
  assumes "pair_inv view ls fin unread w c" and "pair_step api a c = Some c'"
  shows "\<exists>w'. w = Suc w' \<and> pair_inv view ls fin unread w' c'"
proof -
  obtain k j qo u v where c: "w = u + v" "sender_at ls fin unread k qo (snd_prog c) u"
      "receiver_at ls j qo (rcv_prog c) v" "queue_at ls fin k j qo c (view (mq_sys c))"
    using assms(1) by (auto simp: pair_inv_def)
  show ?thesis
  proof (cases a)
    case Sender
    then obtain p s where p: "sender_main api (snd_prog c) (mq_sys c) = Some (p, s)" "c' = c\<lparr>snd_prog := p, mq_sys := s\<rparr>"
      using assms(2) by auto
    then show ?thesis using sender_moves [OF c(2-4) p(1), of c'] c(1) by (auto simp: pair_inv_def) blast
  next
    case Receiver
    then obtain p s where p: "receiver_main api (rcv_prog c) (mq_sys c) = Some (p, s)" "c' = c\<lparr>rcv_prog := p, mq_sys := s\<rparr>"
      using assms(2) by auto
    then show ?thesis using receiver_moves [OF c(2-4) p(1), of c'] c(1) by (auto simp: pair_inv_def) blast
  qed
qed

lemma pair_runs:
  assumes "pair_inv view ls fin unread w c" and "run_steps (pair_step api) acts c = Some c'"
  shows "\<exists>w'. w = length acts + w' \<and> pair_inv view ls fin unread w' c'"
  using assms
proof (induction acts arbitrary: w c)
  case (Cons a acts)
  then obtain c1 where "pair_step api a c = Some c1" "run_steps (pair_step api) acts c1 = Some c'"
    by (auto split: bind_splits)
  with pair_moves [OF Cons.prems(1)] Cons.IH show ?case by fastforce
qed simp

text \<open>As long as moves are left one of the two can move: a sender at a full queue has a receiver
  with something to receive.\<close>

lemma receiver_ready:
  assumes "receiver_at ls j (Some q) (rcv_prog c) v" "queue_at ls fin k j (Some q) c (view (mq_sys c))"
    and "msgs (view (mq_sys c)) q \<noteq> []" "v \<noteq> 0"
  shows "pair_step api Receiver c \<noteq> None"
proof -
  from assms(3) obtain b ms where b: "msgs (view (mq_sys c)) q = b # ms"
    by (cases "msgs (view (mq_sys c)) q") auto
  have "q \<in> live (view (mq_sys c))" "limits (view (mq_sys c)) q = (MQ_MAXMSG, MAX_SIZE)"
    using assms(2) by (auto simp: queue_at_def)
  with receive_ok [OF _ _ b, of MAX_SIZE] assms(1,4) show ?thesis
    by (cases "r_pc (rcv_prog c)") (auto simp: receiver_at_def receiver_main_def split: prod.splits option.splits)
qed

lemma sender_stuck:
  assumes S: "sender_at ls fin unread k qo (snd_prog c) u" and Q: "queue_at ls fin k j qo c (view (mq_sys c))"
    and none: "pair_step api Sender c = None"
  shows "\<exists>q. qo = Some q \<and> (k \<le> length ls \<and> msgs (view (mq_sys c)) q \<noteq> [] \<or> k = Suc (length ls) \<and> u = 0)"
proof -
  consider (full) q where "s_pc (snd_prog c) = S_Send q" | (ended) "s_pc (snd_prog c) = S_Exit 0" "u = 0" "k = Suc (length ls)"
    using none S by (cases "s_pc (snd_prog c)")
      (auto simp: sender_at_def sender_main_def split: prod.splits option.splits)
  then show ?thesis
  proof cases
    case full
    then obtain tl where s: "qo = Some q" "k \<le> length ls" "s_buf (snd_prog c) = (ls @ [fin]) ! k @ 0 # tl"
      using S by (auto simp: sender_at_def)
    have "takeWhile (\<lambda>c. c \<noteq> 0) (s_buf (snd_prog c)) = (ls @ [fin]) ! k"
      unfolding s(3) using line_at(1) [OF s(2)] by (intro takeWhile_stop) (simp add: plain_line_def)
    then have "mq_send api q ((ls @ [fin]) ! k @ [0]) (mq_sys c) = None"
      using none full s(3) by (auto simp: sender_main_def Let_def split: option.splits prod.splits if_splits)
    moreover have "q \<in> live (view (mq_sys c))" "limits (view (mq_sys c)) q = (MQ_MAXMSG, MAX_SIZE)"
      using Q s(1) by (auto simp: queue_at_def)
    ultimately have "\<not> length (msgs (view (mq_sys c)) q) < MQ_MAXMSG"
      using send_ok [of q "mq_sys c" "(ls @ [fin]) ! k @ [0]"] message_fits [OF s(2)] by auto
    then show ?thesis using s(1,2) by (auto simp: MQ_MAXMSG_def)
  next
    case ended
    then show ?thesis using Q by (cases qo) (auto simp: queue_at_def)
  qed
qed

lemma pair_progress:
  assumes "pair_inv view ls fin unread w c" and "w \<noteq> 0"
  shows "\<exists>a. pair_step api a c \<noteq> None"
proof (cases "pair_step api Sender c = None")
  case True
  obtain k j qo u v where c: "w = u + v" "sender_at ls fin unread k qo (snd_prog c) u"
      "receiver_at ls j qo (rcv_prog c) v" "queue_at ls fin k j qo c (view (mq_sys c))"
    using assms(1) by (auto simp: pair_inv_def)
  from sender_stuck [OF c(2,4) True] obtain q where q: "qo = Some q"
    "k \<le> length ls \<and> msgs (view (mq_sys c)) q \<noteq> [] \<or> k = Suc (length ls) \<and> u = 0" by blast
  have m: "msgs (view (mq_sys c)) q = drop j (take k (messages_of ls fin))" "j \<le> k"
    using c(4) q(1) by (auto simp: queue_at_def)
  have fin_j: "j = Suc (length ls)" if "v = 0"
    using c(3) that by (cases "r_pc (rcv_prog c)") (simp_all add: receiver_at_def)
  have v: "v \<noteq> 0"
  proof
    assume "v = 0"
    with fin_j [OF this] q(2) m assms(2) c(1) show False by simp
  qed
  show ?thesis
  proof (cases "msgs (view (mq_sys c)) q = []")
    case False
    with receiver_ready [of j q c v k] c(3,4) q(1) v show ?thesis by blast
  next
    case True
    then have "\<not> j \<le> length ls" using q(2) m by auto
    then have "pair_step api Receiver c \<noteq> None" using c(3) v
      by (cases "r_pc (rcv_prog c)") (auto simp: receiver_at_def receiver_main_def split: prod.splits)
    then show ?thesis by blast
  qed
qed blast

lemma pair_end:
  assumes "pair_inv view ls fin unread 0 c"
  shows "s_pc (snd_prog c) = S_Exit 0 \<and> r_pc (rcv_prog c) = R_Exit 0 \<and> r_out (rcv_prog c) = ls"
  using assms
  by (cases "s_pc (snd_prog c)"; cases "r_pc (rcv_prog c)") (auto simp: pair_inv_def sender_at_def receiver_at_def)

lemma pair_prefix:
  assumes "pair_inv view ls fin unread w c"
  shows "\<exists>rest. ls = r_out (rcv_prog c) @ rest"
proof -
  obtain j qo v where "receiver_at ls j qo (rcv_prog c) v" using assms by (auto simp: pair_inv_def)
  then have "r_out (rcv_prog c) = take j ls" by (cases "r_pc (rcv_prog c)") (auto simp: receiver_at_def)
  then have "ls = r_out (rcv_prog c) @ drop j ls" by simp
  then show ?thesis by blast
qed

lemma pair_completes:
  assumes "pair_inv view ls fin unread w c"
  shows "\<exists>acts c'. run_steps (pair_step api) acts c = Some c' \<and> (\<forall>a. pair_step api a c' = None)"
  using assms
proof (induction w arbitrary: c)
  case 0
  from pair_end [OF this] have "pair_step api a c = None" for a
    by (cases a) (simp_all add: sender_main_def receiver_main_def)
  then show ?case by (intro exI [of _ "[]"]) simp
next
  case (Suc w)
  from pair_progress [OF Suc.prems] obtain a c1 where a: "pair_step api a c = Some c1" by auto
  with pair_moves [OF Suc.prems] have "pair_inv view ls fin unread w c1" by auto
  from Suc.IH [OF this] obtain acts c' where
    "run_steps (pair_step api) acts c1 = Some c'" "\<forall>a. pair_step api a c' = None" by blast
  then show ?case using a by (intro exI [of _ "a # acts"] exI [of _ c']) simp
qed

lemma pair_begins:
  assumes "pair_step api Sender (pair_start junk junk' (typed (ls @ fin # unread)) s) = Some c"
    and "length junk' = MAX_SIZE"
  shows "pair_inv view ls fin unread (3 * length ls + 8) c"
proof -
  obtain ok t where t: "mq_unlink api QUEUE_NAME s = (ok, t)" by fastforce
  with assms(1) have c: "c = \<lparr>snd_prog = \<lparr>s_pc = S_Open, s_buf = junk, s_in = typed (ls @ fin # unread)\<rparr>,
      rcv_prog = \<lparr>r_pc = R_Open, r_buf = junk', r_out = []\<rparr>, mq_sys = t\<rparr>"
    by (simp add: pair_start_def sender_main_def)
  show ?thesis unfolding pair_inv_def
    by (rule exI [of _ 0], rule exI [of _ 0], rule exI [of _ None], rule exI [of _ "2 * length ls + 4"],
        rule exI [of _ "length ls + 4"])
       (use unlink_ok [OF t] assms(2) c in \<open>simp add: sender_at_def receiver_at_def queue_at_def\<close>)
qed

end

section \<open>The pair when the receiver is started first\<close>

text \<open>The receiver waits on a queue of its own: the sender has taken its name away, or is about to,
  and works on another one.\<close>

definition other_queue :: "mq_view \<Rightarrow> nat \<Rightarrow> nat \<Rightarrow> bool" where
  "other_queue v q q' \<longleftrightarrow> q' \<noteq> q \<and> q' \<in> live v \<and> limits v q' = (MQ_MAXMSG, MAX_SIZE) \<and>
     length (msgs v q') \<le> MQ_MAXMSG"

definition parted :: "('s \<Rightarrow> mq_view) \<Rightarrow> nat \<Rightarrow> 's pair \<Rightarrow> bool" where
  "parted view q c \<longleftrightarrow> (let v = view (mq_sys c) in
     r_pc (rcv_prog c) = R_Receive q \<and> r_out (rcv_prog c) = [] \<and>
     q \<in> live v \<and> limits v q = (MQ_MAXMSG, MAX_SIZE) \<and> msgs v q = [] \<and> length (s_buf (snd_prog c)) = MAX_SIZE \<and>
     (case s_pc (snd_prog c) of
        S_Unlink \<Rightarrow> True
      | S_Open \<Rightarrow> mq_names v QUEUE_NAME = None
      | S_Read q' \<Rightarrow> other_queue v q q'
      | S_Send q' \<Rightarrow> other_queue v q q'
      | S_Close q' \<Rightarrow> other_queue v q q'
      | _ \<Rightarrow> True))"

lemma length_fgets: "0 < n \<Longrightarrow> length buffer = n \<Longrightarrow> length (fst (fgets n buffer input)) = n"
  by (auto simp: fgets_def Let_def)

lemma sender_line_length:
  assumes "length (s_buf p) = MAX_SIZE"
  shows "length (s_buf (sender_line mq p)) = MAX_SIZE" and "s_pc (sender_line mq p) \<in> {S_Undefined, S_Send mq}"
  using length_fgets [of MAX_SIZE "s_buf p" "s_in p"] assms
  by (auto simp: sender_line_def MAX_SIZE_def split: prod.splits option.splits)

context posix_mq
begin

lemma parted_receiver: "parted view q c \<Longrightarrow> pair_step api Receiver c = None"
  by (simp add: parted_def Let_def receiver_main_def receive_empty)

lemma parted_sender:
  assumes p: "parted view q c" and "pair_step api Sender c = Some c'"
  shows "parted view q c'"
proof -
  obtain p' s' where m: "sender_main api (snd_prog c) (mq_sys c) = Some (p', s')"
    and c': "c' = c\<lparr>snd_prog := p', mq_sys := s'\<rparr>" using assms(2) by auto
  let ?v = "view (mq_sys c)"
  note [simp] = parted_def Let_def sender_main_def
  show ?thesis
  proof (cases "s_pc (snd_prog c)")
    case S_Unlink
    obtain ok t where "mq_unlink api QUEUE_NAME (mq_sys c) = (ok, t)" by fastforce
    with unlink_ok [OF this] p m c' S_Unlink show ?thesis by auto
  next
    case S_Open
    then have "mq_names ?v QUEUE_NAME = None" using p by simp
    from open_new [OF this, of MQ_MAXMSG MAX_SIZE] p m c' S_Open show ?thesis
      by (auto simp: other_queue_def)
  next
    case (S_Read q')
    with sender_line_length [of "snd_prog c" q'] p m c' show ?thesis by auto
  next
    case (S_Send q')
    let ?m = "take (length (takeWhile (\<lambda>c. c \<noteq> 0) (s_buf (snd_prog c))) + 1) (s_buf (snd_prog c))"
    have q': "q' \<in> live ?v" "limits ?v q' = (MQ_MAXMSG, MAX_SIZE)" "q' \<noteq> q" using p S_Send by (auto simp: other_queue_def)
    have fits: "length ?m \<le> snd (limits ?v q')" using p q'(2) by simp
    then have room: "length (msgs ?v q') < MQ_MAXMSG"
      using send_full [OF q'(1) fits] m S_Send q'(2) by fastforce
    then show ?thesis using send_ok [OF q'(1) fits] p m c' S_Send q'
      by (auto simp: other_queue_def split: if_splits)
  next
    case (S_Close q')
    then have "q' \<in> live ?v" using p by (simp add: other_queue_def)
    from close_ok [OF this] p m c' S_Close show ?thesis by auto
  qed (use m in auto)
qed

lemma parted_run: "parted view q c \<Longrightarrow> run_steps (pair_step api) acts c = Some c' \<Longrightarrow> parted view q c'"
proof (induction acts arbitrary: c)
  case (Cons a acts)
  then show ?case
    by (cases a) (auto simp: parted_receiver simp del: pair_step.simps dest: parted_sender split: bind_splits)
qed simp

end

section \<open>A system with message queues\<close>

record posix =
  names :: "string \<rightharpoonup> nat"
  queues :: "nat \<Rightarrow> byte list list"
  attrs :: "nat \<Rightarrow> nat \<times> nat"
  made :: nat

definition posix_view :: "posix \<Rightarrow> mq_view" where
  "posix_view s = \<lparr>mq_names = names s, msgs = queues s, limits = attrs s, live = {..< made s}\<rparr>"

definition posix_api :: "posix mq_api" where
  "posix_api = \<lparr>
     mq_unlink = (\<lambda>n s. (names s n \<noteq> None, s\<lparr>names := (names s)(n := None)\<rparr>)),
     mq_open = (\<lambda>n mx sz s. case names s n of
         Some q \<Rightarrow> (Some q, s)
       | None \<Rightarrow> (Some (made s), s\<lparr>names := (names s)(n \<mapsto> made s), queues := (queues s)(made s := []),
           attrs := (attrs s)(made s := (mx, sz)), made := Suc (made s)\<rparr>)),
     mq_send = (\<lambda>q m s.
         if q < made s \<and> length m \<le> snd (attrs s q)
         then if length (queues s q) < fst (attrs s q)
              then Some (True, s\<lparr>queues := (queues s)(q := queues s q @ [m])\<rparr>) else None
         else Some (False, s)),
     mq_receive = (\<lambda>q n s.
         if q < made s \<and> snd (attrs s q) \<le> n
         then case queues s q of [] \<Rightarrow> None | m # ms \<Rightarrow> Some (Some m, s\<lparr>queues := (queues s)(q := ms)\<rparr>)
         else Some (None, s)),
     mq_close = (\<lambda>q s. (q < made s, s))\<rparr>"

interpretation posix: posix_mq posix_api posix_view
  by unfold_locales (auto simp: posix_api_def posix_view_def lessThan_Suc split: list.splits)

definition posix_idle :: posix where
  "posix_idle = \<lparr>names = Map.empty, queues = (\<lambda>_. []), attrs = (\<lambda>_. (0, 0)), made = 0\<rparr>"

text \<open>A system on which an earlier run has left a queue of that name with a message in it.\<close>

definition posix_stale :: posix where
  "posix_stale = \<lparr>names = [QUEUE_NAME \<mapsto> 0], queues = (\<lambda>_. [])(0 := [bytes_of ''old'' @ [0]]),
     attrs = (\<lambda>_. (10, 1024)), made = 1\<rparr>"

section \<open>Properties\<close>

text \<open>Claim C32: the message-queue pair delivers. The sender is given any lines of at most 1022 bytes and
  then one that begins with \<open>exit\<close>, and its \<open>mq_unlink\<close> comes before the receiver opens the queue;
  the system may have any queues left over from before, also one of that name. Then in every
  interleaving of the two programs, with at most ten messages in the queue, what the receiver has
  printed is the beginning of the lines; the run ends after at most \<open>3 n + 8\<close> moves for \<open>n\<close> lines; and
  when neither program can move any more, both have ended with status 0 and the receiver has
  printed exactly the lines, in order, whatever follows in the input.\<close>

theorem mqueue_delivers_lines:
  assumes "posix_mq api view"
    and "\<forall>l \<in> set ls. plain_line l \<and> \<not> stops l" and "plain_line fin" and "stops fin"
    and "length junk' = MAX_SIZE"
    and "pair_step api Sender (pair_start junk junk' (typed (ls @ fin # unread)) s) = Some c0"
    and "run_steps (pair_step api) acts c0 = Some c"
  shows "(\<exists>rest. ls = r_out (rcv_prog c) @ rest) \<and> length acts \<le> 3 * length ls + 8 \<and>
    ((\<forall>a. pair_step api a c = None) \<longrightarrow>
       s_pc (snd_prog c) = S_Exit 0 \<and> r_pc (rcv_prog c) = R_Exit 0 \<and> r_out (rcv_prog c) = ls)"
proof -
  have m: "mq_session api view ls fin" using assms(1-4) by (simp add: mq_session_def mq_session_axioms_def)
  from mq_session.pair_runs [OF m mq_session.pair_begins [OF m assms(6,5)] assms(7)] obtain w where
    w: "3 * length ls + 8 = length acts + w" "pair_inv view ls fin unread w c" by blast
  have "w = 0" if "\<forall>a. pair_step api a c = None"
    using mq_session.pair_progress [OF m w(2)] that by (simp del: pair_step.simps) blast
  then show ?thesis
    using mq_session.pair_prefix [OF m w(2)] mq_session.pair_end [OF m, of unread c] w by auto
qed

theorem mqueue_delivers_lines_witness:
  "\<exists>c0 acts c. pair_step posix_api Sender (pair_start (replicate 1024 7) (replicate 1024 7)
      (typed [bytes_of ''hello'', bytes_of ''exit'', bytes_of ''unsent'']) posix_stale) = Some c0 \<and>
    run_steps (pair_step posix_api) acts c0 = Some c \<and> s_pc (snd_prog c) = S_Exit 0 \<and>
    r_pc (rcv_prog c) = R_Exit 0 \<and> r_out (rcv_prog c) = [bytes_of ''hello'']"
proof -
  let ?ls = "[bytes_of ''hello'']" and ?fin = "bytes_of ''exit''" and ?u = "[bytes_of ''unsent'']"
  let ?c = "pair_start (replicate 1024 7) (replicate 1024 7) (typed (?ls @ ?fin # ?u)) posix_stale"
  have l: "\<forall>l \<in> set ?ls. plain_line l \<and> \<not> stops l" "plain_line ?fin" "stops ?fin"
    by (simp_all add: plain_line_def stops_def MSG_STOP_def MAX_SIZE_def bytes_of_def newline_def)
  have m: "mq_session posix_api posix_view ?ls ?fin"
    using l posix.posix_mq_axioms by (simp add: mq_session_def mq_session_axioms_def)
  have len: "length (replicate 1024 (7 :: byte)) = MAX_SIZE" by (simp add: MAX_SIZE_def)
  obtain c0 where c0: "pair_step posix_api Sender ?c = Some c0" by (simp add: pair_start_def sender_main_def)
  obtain acts c where c: "run_steps (pair_step posix_api) acts c0 = Some c" "\<forall>a. pair_step posix_api a c = None"
    using mq_session.pair_completes [OF m mq_session.pair_begins [OF m c0 len]] by blast
  from mqueue_delivers_lines [OF posix.posix_mq_axioms l len c0 c(1)] c(2) show ?thesis
    using c0 c(1) by auto
qed

text \<open>Claim C33: the pair started in the order of the README, receiver first, delivers nothing. When no queue
  of the name exists and the receiver opens it before the sender runs, the sender's \<open>mq_unlink\<close> takes
  the name away from the receiver's queue and its \<open>mq_open\<close> makes a second one: whatever is typed and
  however the two are interleaved, the receiver prints nothing and is blocked in \<open>mq_receive\<close>, and the
  sender has at most ten messages in a queue that nobody reads.\<close>

theorem mqueue_readme_order_delivers_nothing:
  assumes "posix_mq api view" and "mq_names (view s) QUEUE_NAME = None" and "length junk = MAX_SIZE"
    and "pair_step api Receiver (pair_start junk junk' input s) = Some c0"
    and "run_steps (pair_step api) acts c0 = Some c"
  shows "r_out (rcv_prog c) = [] \<and> pair_step api Receiver c = None \<and>
    (\<exists>q. r_pc (rcv_prog c) = R_Receive q \<and>
      (\<forall>q'. s_pc (snd_prog c) = S_Send q' \<longrightarrow> q' \<noteq> q \<and> length (msgs (view (mq_sys c)) q') \<le> 10))"
proof -
  obtain q s' where q: "mq_open api QUEUE_NAME MQ_MAXMSG MAX_SIZE s = (Some q, s')"
    "view s' = (view s)\<lparr>mq_names := (mq_names (view s))(QUEUE_NAME \<mapsto> q), msgs := (msgs (view s))(q := []),
       limits := (limits (view s))(q := (MQ_MAXMSG, MAX_SIZE)), live := insert q (live (view s))\<rparr>"
    using posix_mq.open_new [OF assms(1,2)] by blast
  then have "parted view q c0"
    using assms(3,4) by (auto simp: pair_start_def receiver_main_def parted_def)
  from posix_mq.parted_run [OF assms(1) this assms(5)] have p: "parted view q c" .
  then show ?thesis using posix_mq.parted_receiver [OF assms(1) p]
    by (auto simp: parted_def other_queue_def MQ_MAXMSG_def Let_def)
qed

theorem mqueue_readme_order_delivers_nothing_witness:
  "\<exists>c0 c. pair_step posix_api Receiver (pair_start (replicate 1024 7) (replicate 1024 7)
      (typed [bytes_of ''hello'']) posix_idle) = Some c0 \<and>
    run_steps (pair_step posix_api) [Sender, Sender, Sender] c0 = Some c \<and> r_out (rcv_prog c) = []"
proof -
  let ?c = "pair_start (replicate 1024 7) (replicate 1024 7) (typed [bytes_of ''hello'']) posix_idle"
  obtain c0 where c0: "pair_step posix_api Receiver ?c = Some c0"
    by (auto simp: pair_start_def receiver_main_def posix_api_def posix_idle_def)
  then obtain c where c: "run_steps (pair_step posix_api) [Sender, Sender, Sender] c0 = Some c"
    by (auto simp: pair_start_def receiver_main_def sender_main_def posix_api_def posix_idle_def)
  have "mq_names (posix_view posix_idle) QUEUE_NAME = None" "length (replicate 1024 (7 :: byte)) = MAX_SIZE"
    by (simp_all add: posix_view_def posix_idle_def MAX_SIZE_def)
  from mqueue_readme_order_delivers_nothing [OF posix.posix_mq_axioms this c0 c] c0 c show ?thesis by blast
qed

text \<open>Further: a line of 1023 bytes or more makes the sender send a message of exactly 1024 bytes,
  and on any message of that size the receiver stores its terminating NUL behind its buffer.\<close>

theorem long_line_overruns_receiver:
  assumes "length l \<ge> 1023" and "0 \<notin> set l" and "newline \<notin> set l"
    and "length (s_buf p) = MAX_SIZE" and "s_in p = l @ newline # unread" and "length (r_buf r) = MAX_SIZE"
  shows "\<exists>rest. sender_line mq p = p\<lparr>s_pc := S_Send mq, s_buf := take 1023 l @ [0], s_in := rest\<rparr> \<and>
    r_pc (receiver_message mq (take 1023 l @ [0]) r) = R_Undefined"
proof (intro exI conjI)
  let ?m = "take 1023 l @ [0 :: byte]"
  have "line_of (l @ newline # unread) = l @ [newline]" by (rule line_of_line [OF assms(3)])
  then have line: "take (MAX_SIZE - 1) (line_of (l @ newline # unread)) = take 1023 l"
    using assms(1) by (simp add: MAX_SIZE_def)
  have fg: "fgets MAX_SIZE (s_buf p) (l @ newline # unread) = (?m, drop 1023 (l @ newline # unread))"
    unfolding fgets_def line Let_def using assms(1,4) by (simp add: MAX_SIZE_def)
  have z: "0 \<notin> set (take 1023 l)" "newline \<notin> set (take 1023 l)"
    using assms(2,3) by (auto dest: in_set_takeD)
  have "takeWhile (\<lambda>c. c \<noteq> newline) (take 1023 l) = take 1023 l"
    using z(2) by (intro takeWhile_eq_all_conv [THEN iffD2]) auto
  then have "length (takeWhile (\<lambda>c. c \<noteq> newline) (take 1023 l)) = 1023"
    using assms(1) by (simp only: length_take min_absorb2)
  then have k: "strcspn_newline ?m = Some 1023"
    using cstr_append_nul [OF z(1), of "[]"] assms(1) by (simp add: strcspn_newline_def)
  have "?m[1023 := 0] = ?m" using assms(1) by (simp add: list_update_append)
  then show "sender_line mq p = p\<lparr>s_pc := S_Send mq, s_buf := ?m, s_in := drop 1023 (l @ newline # unread)\<rparr>"
    unfolding sender_line_def assms(5) fg by (simp add: k)
  have "st_bytes (r_buf r) 0 ?m = Some ?m" "st_bytes ?m (length ?m) [0] = None"
    using assms(1,6) by (simp_all add: st_bytes_def MAX_SIZE_def)
  then show "r_pc (receiver_message mq ?m r) = R_Undefined"
    unfolding receiver_message_def by (simp only: bind.bind_lunit option.case) simp
qed

theorem long_line_overruns_receiver_witness:
  "r_pc (receiver_message 0 (replicate 1023 65 @ [0]) \<lparr>r_pc = R_Receive 0, r_buf = replicate 1024 7, r_out = []\<rparr>) =
     R_Undefined"
  using long_line_overruns_receiver [of "replicate 1023 65"
      "\<lparr>s_pc = S_Read 0, s_buf = replicate 1024 7, s_in = replicate 1023 65 @ [newline]\<rparr>" "[]"
      "\<lparr>r_pc = R_Receive 0, r_buf = replicate 1024 7, r_out = []\<rparr>" 0]
  by (simp add: newline_def MAX_SIZE_def)

end
