(* ===== verification/Inotify.thy ===== *)
theory Inotify
  imports Prelude
begin

text \<open>
  The directory watchers src/inotify/inotify.c and src/inotify/inotify_epoll.c: the kernel fills a
  buffer with records of variable length, and the programs walk over them and print a name
  and an operation for each. \<open>display_event\<close> has the same text in both programs. \<open>Overread\<close> is an
  access outside the buffer, and \<open>None\<close> of the walk is a walk that never ends.
\<close>

section \<open>Model\<close>

definition EVENTS_BUF_SIZE :: nat where "EVENTS_BUF_SIZE = 4096"
definition sizeof_inotify_event :: nat where "sizeof_inotify_event = 16"

text \<open>The tests of \<open>display_event\<close>, in the order of the code.\<close>

definition operations :: "(u32 \<times> string) list" where
  "operations = [(0x1, ''ACCESS''), (0x4, ''ATTRIB''), (0x8, ''CLOSE_WRITE''), (0x10, ''CLOSE_NOWRITE''),
     (0x100, ''CREATE''), (0x400, ''DELETE_SELF''), (0x2, ''MODIFY''), (0x800, ''MOVE_SELF''),
     (0x40, ''MOVED_FROM''), (0x80, ''MOVED_TO''), (0x20, ''OPEN''), (0x8000, ''IGNORED''),
     (0x200, ''DELETE''), (0x2000, ''UNMOUNT'')]"

text \<open>The variable \<open>operate\<close>: the last test that holds sets it; \<open>None\<close> is its uninitialised value.\<close>

definition operate :: "u32 \<Rightarrow> string option" where
  "operate ev = fold (\<lambda>(flag, name) op. if ev AND flag \<noteq> 0 then Some name else op) operations None"

text \<open>What one \<open>printf\<close> of \<open>display_event\<close> shows behind the directory: the C string at the name
  field, and the operation.\<close>

definition display_event :: "byte list \<Rightarrow> nat \<Rightarrow> (byte list \<times> string option) option" where
  "display_event events off = do {
     ev \<leftarrow> ld32 events (off + 4);
     name \<leftarrow> cstr (drop (off + sizeof_inotify_event) events);
     Some (name, operate ev) }"

datatype 'a scan = Overread | Scanned 'a

text \<open>The inner loop; \<open>offset\<close> is an \<open>int\<close>, to which the \<open>size_t\<close> sum is converted.\<close>

partial_function (option) scan_events ::
  "byte list \<Rightarrow> int \<Rightarrow> int \<Rightarrow> (byte list \<times> string option) list \<Rightarrow>
     (byte list \<times> string option) list scan option" where
  "scan_events events nbytes offset out =
     (if offset < nbytes then
        (case (if offset < 0 then None
               else do { line \<leftarrow> display_event events (nat offset);
                         len \<leftarrow> ld32 events (nat offset + 12);
                         Some (line, len) }) of
           None \<Rightarrow> Some Overread
         | Some (line, len) \<Rightarrow>
             scan_events events nbytes
               (sint (word_of_int (offset + int sizeof_inotify_event + uint len) :: 32 word))
               (out @ [line]))
      else Some (Scanned out))"

text \<open>The buffer after \<open>memset\<close> and a \<open>read\<close> that delivered \<open>bytes\<close>.\<close>

definition filled :: "byte list \<Rightarrow> byte list" where
  "filled bytes = bytes @ replicate (EVENTS_BUF_SIZE - length bytes) 0"

text \<open>One round of the endless loop of inotify.c: \<open>read\<close> is \<open>None\<close> on failure. The result is what is
  printed.\<close>

definition inotify_round :: "byte list option \<Rightarrow> (byte list \<times> string option) list scan option" where
  "inotify_round rd =
     (case rd of
        None \<Rightarrow> Some (Scanned [])
      | Some bytes \<Rightarrow>
          if int (length bytes) \<le> 0 then Some (Scanned [])
          else scan_events (filled bytes) (int (length bytes)) 0 [])"

text \<open>One entry of the array of \<open>epoll_wait\<close> in inotify_epoll.c: the condition assigns \<open>fd\<close> to the
  entry and holds when it is not 0.\<close>

definition epoll_entry :: "int \<Rightarrow> byte list option \<Rightarrow> (byte list \<times> string option) list scan option" where
  "epoll_entry fd rd =
     (if fd \<noteq> 0 then
        (case rd of
           None \<Rightarrow> Some (Scanned [])
         | Some bytes \<Rightarrow>
             if int (length bytes) > 0 then scan_events (filled bytes) (int (length bytes)) 0 []
             else Some (Scanned []))
      else Some (Scanned []))"

text \<open>What \<open>main\<close> has printed after some rounds, or the status with which it ended before them.\<close>

fun rounds :: "(byte list option \<Rightarrow> 'a list scan option) \<Rightarrow> byte list option list \<Rightarrow> 'a list scan option" where
  "rounds step [] = Some (Scanned [])"
| "rounds step (r # rs) =
     Option.bind (step r) (\<lambda>x. case x of
         Overread \<Rightarrow> Some Overread
       | Scanned out \<Rightarrow> Option.bind (rounds step rs) (\<lambda>y. case y of
             Overread \<Rightarrow> Some Overread
           | Scanned out' \<Rightarrow> Some (Scanned (out @ out'))))"

definition inotify_main ::
  "int \<Rightarrow> int \<Rightarrow> byte list option list \<Rightarrow> int + (byte list \<times> string option) list scan option" where
  "inotify_main fd watch reads =
     (if fd < 0 then Inl (-1) else if watch = -1 then Inl (-2) else Inr (rounds inotify_round reads))"

definition inotify_epoll_main ::
  "int \<Rightarrow> int \<Rightarrow> byte list option list \<Rightarrow> int + (byte list \<times> string option) list scan option" where
  "inotify_epoll_main fd watch reads =
     (if fd < 0 then Inl (-1) else if watch = -1 then Inl (-2) else Inr (rounds (epoll_entry fd) reads))"

section \<open>Records of the kernel\<close>

text \<open>An event with a name: the kernel pads the name with NUL bytes, at least one.\<close>

record event =
  ev_wd :: u32
  ev_mask :: u32
  ev_cookie :: u32
  ev_name :: "byte list"
  ev_pad :: nat

definition ev_len :: "event \<Rightarrow> nat" where
  "ev_len e = length (ev_name e) + ev_pad e"

definition named :: "event \<Rightarrow> bool" where
  "named e \<longleftrightarrow> 0 \<notin> set (ev_name e) \<and> 0 < ev_pad e"

definition encode :: "event \<Rightarrow> byte list" where
  "encode e = bytes32 (ev_wd e) @ bytes32 (ev_mask e) @ bytes32 (ev_cookie e) @
     bytes32 (of_nat (ev_len e)) @ ev_name e @ replicate (ev_pad e) 0"

lemma length_encode [simp]: "length (encode e) = 16 + ev_len e"
  by (simp add: encode_def ev_len_def)

lemma ld32_append: "length pre = n \<Longrightarrow> ld32 (pre @ b) (n + i) = ld32 b i"
  by (simp add: ld32_def ld8_def nth_append)

lemma ld32_prefix: "length b = 4 \<Longrightarrow> ld32 (b @ rest) 0 = ld32 b 0"
  by (simp add: ld32_def ld8_def nth_append)

lemma ld32_field: "length pre = n \<Longrightarrow> ld32 (pre @ bytes32 w @ rest) n = Some w"
  using ld32_append [of pre n "bytes32 w @ rest" 0] by (simp add: ld32_prefix ld32_bytes32)

text \<open>One record, wherever it stands in the buffer.\<close>

lemma display_event_encode:
  assumes "length pre = n" and "named e"
  shows "display_event (pre @ encode e @ rest) n = Some (ev_name e, operate (ev_mask e))"
    "ld32 (pre @ encode e @ rest) (n + 12) = Some (of_nat (ev_len e))"
proof -
  have "ld32 ((pre @ bytes32 (ev_wd e)) @ bytes32 (ev_mask e) @ bytes32 (ev_cookie e) @
      bytes32 (of_nat (ev_len e)) @ ev_name e @ replicate (ev_pad e) 0 @ rest) (n + 4) = Some (ev_mask e)"
    by (rule ld32_field) (simp add: assms(1))
  then have m: "ld32 (pre @ encode e @ rest) (n + 4) = Some (ev_mask e)" by (simp add: encode_def)
  have "ld32 ((pre @ bytes32 (ev_wd e) @ bytes32 (ev_mask e) @ bytes32 (ev_cookie e)) @
      bytes32 (of_nat (ev_len e)) @ ev_name e @ replicate (ev_pad e) 0 @ rest) (n + 12) =
      Some (of_nat (ev_len e))"
    by (rule ld32_field) (simp add: assms(1))
  then show "ld32 (pre @ encode e @ rest) (n + 12) = Some (of_nat (ev_len e))"
    by (simp add: encode_def)
  obtain p where p: "ev_pad e = Suc p" using assms(2) by (cases "ev_pad e") (auto simp: named_def)
  have "drop (n + 16) (pre @ encode e @ rest) = ev_name e @ 0 # replicate p 0 @ rest"
    using assms(1) p by (simp add: encode_def drop_append bytes32_def)
  then have "cstr (drop (n + 16) (pre @ encode e @ rest)) = Some (ev_name e)"
    using assms(2) by (simp add: cstr_append_nul named_def)
  with m show "display_event (pre @ encode e @ rest) n = Some (ev_name e, operate (ev_mask e))"
    by (simp add: display_event_def sizeof_inotify_event_def)
qed

lemma sint_small: "0 \<le> x \<Longrightarrow> x < 2 ^ 31 \<Longrightarrow> sint (word_of_int x :: 32 word) = x"
  by (simp add: sint_uint unsigned_of_int take_bit_int_eq_self signed_take_bit_int_eq_self)

definition shown_line :: "event \<Rightarrow> byte list \<times> string option" where
  "shown_line e = (ev_name e, operate (ev_mask e))"

lemma scan_events_encode:
  assumes "\<forall>e \<in> set es. named e" and "length pre + length (concat (map encode es)) < 2 ^ 31"
  shows "scan_events (pre @ concat (map encode es) @ rest)
      (int (length pre + length (concat (map encode es)))) (int (length pre)) out =
    Some (Scanned (out @ map shown_line es))"
  using assms
proof (induction es arbitrary: pre out)
  case Nil
  then show ?case by (subst scan_events.simps) simp
next
  case (Cons e es)
  let ?tail = "concat (map encode es) @ rest"
  let ?total = "int (length pre + length (concat (map encode (e # es))))"
  from Cons.prems have e: "named e" and len: "length pre + (16 + ev_len e) < 2 ^ 31" by auto
  have next_off: "sint (word_of_int (int (length pre) + int sizeof_inotify_event +
      uint (of_nat (ev_len e) :: u32)) :: 32 word) = int (length (pre @ encode e))"
    using len by (subst sint_small) (auto simp: sizeof_inotify_event_def unsigned_of_nat
        take_bit_nat_eq_self)
  have lt: "int (length pre) < ?total" by simp
  note d = display_event_encode [OF refl e, of pre ?tail]
  have "scan_events (pre @ encode e @ ?tail) ?total (int (length pre)) out =
      scan_events (pre @ encode e @ ?tail) ?total (int (length (pre @ encode e))) (out @ [shown_line e])"
    unfolding shown_line_def
    by (subst scan_events.simps)
       (simp only: lt if_True if_False of_nat_less_0_iff nat_int d next_off bind.bind_lunit
          option.case prod.case)
  also have "\<dots> = Some (Scanned ((out @ [shown_line e]) @ map shown_line es))"
    using Cons.IH [of "pre @ encode e" "out @ [shown_line e]"] Cons.prems by (simp add: ac_simps)
  finally show ?case by simp
qed

text \<open>One batch of events as a \<open>read\<close> delivers it.\<close>

definition batch_ok :: "event list \<Rightarrow> bool" where
  "batch_ok es \<longleftrightarrow> (\<forall>e \<in> set es. named e) \<and> length (concat (map encode es)) \<le> EVENTS_BUF_SIZE"

lemma inotify_round_batch:
  assumes "batch_ok es"
  shows "inotify_round (Some (concat (map encode es))) = Some (Scanned (map shown_line es))"
    and "fd \<noteq> 0 \<Longrightarrow> epoll_entry fd (Some (concat (map encode es))) = Some (Scanned (map shown_line es))"
proof -
  let ?b = "concat (map encode es)"
  have scan: "scan_events (filled ?b) (int (length ?b)) 0 [] = Some (Scanned (map shown_line es))"
    using scan_events_encode [of es "[]" "replicate (EVENTS_BUF_SIZE - length ?b) 0" "[]"] assms
    by (simp add: filled_def batch_ok_def EVENTS_BUF_SIZE_def)
  have empty: "es = []" if "length ?b = 0"
    using that by (cases es) auto
  show "inotify_round (Some ?b) = Some (Scanned (map shown_line es))"
    using scan empty by (cases "length ?b = 0") (auto simp: inotify_round_def)
  show "epoll_entry fd (Some ?b) = Some (Scanned (map shown_line es))" if "fd \<noteq> 0"
    using scan empty that by (cases "length ?b = 0") (auto simp: epoll_entry_def)
qed

lemma rounds_batches:
  assumes "\<And>es. es \<in> set batches \<Longrightarrow> step (Some (concat (map encode es))) = Some (Scanned (map f es))"
  shows "rounds step (map (\<lambda>es. Some (concat (map encode es))) batches) =
    Some (Scanned (concat (map (map f) batches)))"
  using assms by (induction batches) simp_all

lemma operate_flags:
  "(flag, name) \<in> set operations \<Longrightarrow> operate flag = Some name \<and> operate (flag OR 0x40000000) = Some name"
proof -
  have "list_all (\<lambda>(f, s). operate f = Some s \<and> operate (f OR 0x40000000) = Some s) operations"
    by code_simp
  then show "(flag, name) \<in> set operations \<Longrightarrow>
      operate flag = Some name \<and> operate (flag OR 0x40000000) = Some name"
    by (auto simp: list_all_iff)
qed

lemma fold_operate_None:
  "fold (\<lambda>(flag, name) op. if m AND flag \<noteq> 0 then Some name else op) ops init = None \<longleftrightarrow>
    init = None \<and> (\<forall>(f, _) \<in> set ops. m AND f = 0)"
  by (induction ops arbitrary: init) (auto split: if_splits)

lemma operate_None_iff: "operate m = None \<longleftrightarrow> (\<forall>(f, _) \<in> set operations. m AND f = 0)"
  by (simp add: operate_def fold_operate_None)

lemma operate_overflow: "operate 0x4000 = None"
  by (simp add: operate_def operations_def)

section \<open>Properties\<close>

text \<open>Claim C36: for every sequence of batches of named events (\<open>len\<close> > 0) that fit the buffer, read from a
  positive descriptor, both watchers print exactly the events, in order, each with its name and its operation, and never read
  outside the buffer.\<close>

theorem watchers_show_events:
  assumes "\<forall>es \<in> set batches. batch_ok es" and "0 < fd" and "watch \<noteq> -1"
    and "reads = map (\<lambda>es. Some (concat (map encode es))) batches"
  shows "inotify_main fd watch reads = Inr (Some (Scanned (concat (map (map shown_line) batches)))) \<and>
    inotify_epoll_main fd watch reads = Inr (Some (Scanned (concat (map (map shown_line) batches))))"
  using assms inotify_round_batch rounds_batches [of batches inotify_round shown_line]
    rounds_batches [of batches "epoll_entry fd" shown_line]
  by (simp add: inotify_main_def inotify_epoll_main_def)

theorem watchers_show_events_witness:
  "inotify_main 3 1 [Some (encode \<lparr>ev_wd = 1, ev_mask = 0x100, ev_cookie = 0, ev_name = [97], ev_pad = 15\<rparr>)] =
     Inr (Some (Scanned [([97], Some ''CREATE'')]))"
  using watchers_show_events [of "[[\<lparr>ev_wd = 1, ev_mask = 0x100, ev_cookie = 0, ev_name = [97], ev_pad = 15\<rparr>]]" 3 1]
  by (simp add: batch_ok_def named_def ev_len_def EVENTS_BUF_SIZE_def shown_line_def operate_def operations_def)

text \<open>Further: an event with one of the fourteen documented flags is shown under the name of that
  flag, for a directory too. The operation is uninitialised exactly when none of them is set,
  as for the overflow event the kernel sends when its queue is full.\<close>

theorem operate_names_flags:
  assumes "(flag, name) \<in> set operations"
  shows "operate flag = Some name \<and> operate (flag OR 0x40000000) = Some name \<and>
    (operate m = None \<longleftrightarrow> (\<forall>(f, _) \<in> set operations. m AND f = 0)) \<and> operate 0x4000 = None"
  using assms operate_flags operate_None_iff [of m] operate_overflow by blast

theorem operate_names_flags_witness: "operate 0x40000100 = Some ''CREATE''"
  using operate_names_flags [where flag = "0x100" and name = "''CREATE''"] by (simp add: operations_def)

text \<open>Further: an event without a name (\<open>len\<close> 0, as a watch on a single file gives) is shown with the
  bytes of whatever follows it in the buffer, which is the next record.\<close>

theorem nameless_event_shows_next_record:
  assumes "length pre = n"
    and "record = bytes32 wd @ bytes32 m @ bytes32 cookie @ bytes32 0"
  shows "display_event (pre @ record @ rest) n = map_option (\<lambda>name. (name, operate m)) (cstr rest)"
proof -
  have "ld32 ((pre @ bytes32 wd) @ bytes32 m @ bytes32 cookie @ bytes32 0 @ rest) (n + 4) = Some m"
    by (rule ld32_field) (simp add: assms(1))
  then show ?thesis using assms
    by (cases "cstr rest") (simp_all add: display_event_def sizeof_inotify_event_def bytes32_def)
qed

end
