(* ===== verification/Spec2Isabelle.thy ===== *)
theory Spec2Isabelle
  imports Sessions Copy_Faults Copy_Batched Copy_Plain Echo_Stream Web_Server Aio Device_Files Kthreads Deferred
    Percpu Netdev Procfs Kfifo Klist Page_Walk Mqueue Inotify
begin

text \<open>
  A verification library for the repository linux_kernel_magic, a collection of small Linux
  programs: eBPF programs with their readers, file copiers and servers over io_uring,
  kernel modules, and programs over message queues, inotify and character devices.

  \<^bold>\<open>Parts and theories.\<close> Paths are below src/.
  \<^item> \<open>Prelude\<close>: integers of fixed width, checked loads and stores of byte buffers, C strings, decimal
    numbers, lines of text, and the list lemmas the components share. \<open>Traces\<close>: runs of an operation
    over a sequence of inputs, with the contracts \<open>trace_simulation\<close> (every run is a run of an abstract
    machine) and \<open>trace_invariant\<close>, used for the servers, the
    network device, the device files, the message queues and the asynchronous read.
  \<^item> \<open>Http_Tap\<close>: eBPF/xdp.bpf.c (\<open>xdp_pass\<close>, \<open>xdp_copy\<close>) and eBPF/tc_trace.bpf.c (\<open>tc_http_parse\<close>,
    \<open>tc_copy\<close>), both over \<open>probe_into\<close>, which checks the range a copying helper is told to read, and a
    reference view of an Ethernet packet (\<open>xdp_spec\<close>, \<open>tc_spec\<close>). \<open>Http_Viewer\<close>:
    \<open>handle_event\<close> of eBPF/tc_trace.c, with the same text in eBPF/xdp.c. The lemmas show that the
    programs stay inside packet and event, that verdict and event are those of the reference view,
    and what the reader shows.
  \<^item> \<open>Tracers\<close>: eBPF/test.bpf.c (\<open>do_unlinkat_entry\<close>, \<open>do_unlinkat_exit\<close>), eBPF/lsm_control.bpf.c
    (\<open>lsm_file_open\<close>, \<open>str_equal\<close>), eBPF/uprobe_go.bpf.c (\<open>uprobe_fetch_stock\<close>) and
    eBPF/kprobe_sendmsg.bpf.c (\<open>tcp_sendmsg\<close>). The unlink tracer is compared with one that keeps an
    entry per thread, and its map with the last probe of each process.
  \<^item> \<open>Loaders\<close>: the programs that load, attach and poll them: \<open>test_main\<close> (eBPF/test.c),
    \<open>lsm_control_main\<close> (eBPF/lsm_control.c), \<open>kprobe_sendmsg_main\<close> (eBPF/kprobe_sendmsg.c),
    \<open>uprobe_go_main\<close> (eBPF/uprobe_go.c), \<open>tc_trace_main\<close> (eBPF/tc_trace.c) and \<open>xdp_main\<close>
    (eBPF/xdp.c). libbpf and the skeletons the build generates are the record \<open>bpf_api\<close> with the locale
    \<open>bpf_system\<close>, in which the objects that are held (skeletons, links, ring buffers, hooks, filters)
    are a multiset. The lemmas say which objects are left after each exit, what is printed, from
    packet to line for \<open>tc_trace_main\<close>, that SIGINT ends the loops, and which failures do not reach
    the exit status. \<open>Sessions\<close>: kernel side and loader together for the unlink tracer, the argument
    probe and the XDP program, from the event in the kernel to the line printed, and both taps on one
    interface.
  \<^item> \<open>Uring\<close>: the interface of liburing as a record of operations and the locale \<open>uring\<close> with their
    documented behaviour, completions in any order included, and a first-in first-out ring that
    has it. \<open>Copy_Pipelined\<close>: io_uring/file_uring2.c, function by function. \<open>Copy_Faults\<close>: the
    same program on a file system whose transfers fail. \<open>Copy_Batched\<close>:
    io_uring/file_uring_single_buffer.c and io_uring/file_uring_multi_buffer.c. \<open>Copy_Plain\<close>:
    io_uring/file_uring.c, io_uring/normal.c and sendfile/copy.c. The lemmas show that the copiers
    end and that the destination equals the source, and where this fails: reordered blocks, short
    writes and reads, a full device, files of 4 MiB.
  \<^item> \<open>Socket_Server\<close>: the echo server io_uring/socket_uring_server.c (\<open>server_cqe\<close> over a heap of
    connection objects). The main lemma is the one-to-one correspondence of heap objects and
    outstanding requests in every run; the line printed for a received message is part of the state
    (\<open>log_recv\<close>), and a lemma says when it can run past the buffer. \<open>Socket_Main\<close>: the set-up of the sockets of all three servers
    (\<open>echo_setup\<close>, \<open>render_setup\<close>, \<open>enable_keepalive\<close>), the rounds of the main loop over any batches of
    completions, with the number of submission entries a round takes, and the client
    io_uring/socket_uring_client.c (\<open>client_connect\<close>, \<open>recv_round\<close>, \<open>send_rounds\<close>), alone and against
    the server. \<open>Echo_Stream\<close>: the echo server as an implementation of an abstract service that hears
    a message and says it (\<open>echo_step\<close>), by a simulation over every sequence of completions; the byte
    streams of a connection; the receiving thread of the client (\<open>recv_rounds\<close>), and client and
    server together.
  \<^item> \<open>One_Buffer\<close>: io_uring/socket_uring_normal.c, whose connections share one buffer: the main loop
    (\<open>loop_next\<close>) and the kernel as two interleaved actors, with the contract \<open>one_buffer\<close> of a handler of
    completions (\<open>normal_cqe\<close>). \<open>Web_Server\<close>: io_uring/socket_uring.c, the same loop with \<open>render_cqe\<close>, and
    \<open>render\<close> with \<open>strtok\<close> on the bytes of the buffer. The lemmas show that submission queue and buffers
    are never exceeded, what is answered while requests do not overlap, and what happens when they do.
  \<^item> \<open>Aio\<close>: aio/aio.c, from the first call to the rounds of its epoll loop (\<open>aio_round\<close>), interleaved in any
    way with the completion of its request (\<open>aio_step\<close>).
  \<^item> \<open>Kmodule\<close>: loading and unloading a kernel module (\<open>load_unload\<close>), the contract \<open>kernel_module\<close> of a
    module that gives back what it took, and the registration calls of the kernel as a locale.
    \<open>Chardev\<close>: driver_demo/driver_demo.c, driver_demo/driver_demo_new.c, driver_demo/main.c,
    ioctl/ioctl_demo.c and ioctl/main.c. \<open>Device_Files\<close>: the three modules with their tables of file
    operations (\<open>fops\<close>, \<open>my_fops\<close>, with their owner) under any sequence of system calls, with the
    contract \<open>device_module\<close>. \<open>Netdev\<close>: netdev/netdev_demo.c, its operations
    one by one and under any sequence of calls of the network core (\<open>demo_netdev_ops\<close>). \<open>Procfs\<close>:
    driver_demo/proc_query/proc_demo.c, iterator and registration. \<open>Kfifo\<close>: kfifo_test.c.
  \<^item> \<open>Page_Walk\<close>: get_physical_addr.c (\<open>my_oo_init\<close>) and get_physical_addr2.c (\<open>walk_tables\<close>, \<open>my_oo_init2\<close>)
    over an interface \<open>mm_api\<close> of the page-table accessors, against the translation \<open>translate\<close> of the
    processor for four levels and 4 KiB pages. \<open>Klist\<close>: list.c (\<open>testlist_init\<close>) over the operations of
    kernel lists, with circular doubly linked cells as the instance, and container_of.c.
  \<^item> \<open>Kthreads\<close>: complete/complete_demo.c and semaphore/semaphore_demo.c as step relations over all
    interleavings, with exclusion, order and the end of every run. \<open>Deferred\<close>: timer_list.c, workqueue/demoqueue.c, tasklet/tasklet_demo.c and
    task_work/task_work_demo.c, with the contract \<open>safe_unload\<close>. \<open>Percpu\<close>: per_cpu/percpu_demo.c and
    del_module/force_rmmod.c.
  \<^item> \<open>Mqueue\<close>: mqueue/mqueue_sender.c (\<open>sender_main\<close>) and mqueue/mqueue_receive.c (\<open>receiver_main\<close>), call by
    call and interleaved in any way (\<open>pair_step\<close>) over the named, bounded queues of \<open>posix_mq\<close>: what is
    delivered when the sender comes first, and that nothing is when the receiver does. \<open>Inotify\<close>:
    inotify/inotify.c and inotify/inotify_epoll.c.
  \<^item> This theory: the contract \<open>file_copier\<close> that all six copiers meet, what follows across them, and
    the XDP program against the servers.

  \<^bold>\<open>Conventions.\<close> A C struct is a record, an enum a datatype, a fixed-width integer a word where its
  width matters. An access outside an object, a NULL dereference and a use of freed memory are values
  of the model (\<open>None\<close>, \<open>Crash\<close>, \<open>Oops\<close>, \<open>Undefined\<close>, \<open>Overread\<close>), so that safety is proved and not assumed.
  Loops that end by a measure are functions with a termination proof; loops that may run for ever
  are partial functions into an option type, where \<open>None\<close> is a run that does not end, and the
  theorems state that they return. Server and event loops without an exit are functions of the
  sequence of batches the kernel delivers, and the theorems hold for every such sequence. No fuel is
  used. System calls, the kernel interfaces, libbpf and liburing are parameters; the behaviour relied
  on is stated in a locale or a predicate (\<open>uring\<close>, \<open>chr_kernel\<close>, \<open>net_kernel\<close>, \<open>kernel_fifo\<close>,
  \<open>proc_kernel\<close>, \<open>bpf_system\<close>, \<open>paging_kernel\<close>, \<open>list_kernel\<close>, \<open>sockets\<close>, \<open>skb_allocator\<close>, \<open>device_kernel\<close>, \<open>posix_mq\<close>, \<open>reads_user\<close>, \<open>writes_user\<close>,
  \<open>probe_reads\<close>, \<open>malloc_fresh\<close>, \<open>text_files\<close>), and each of these has an instance on which the witnesses run.

  \<^bold>\<open>Bounds.\<close> Theorems quantify over all files, packets, messages, schedules and numbers of tasks;
  the limits in their hypotheses (4 MiB, 1022 bytes, 4096 bytes, 10240 entries) are those of the
  code.

  \<^bold>\<open>Not modelled.\<close> Functions that only log: exit functions whose body is a \<open>printk\<close>, and the print
  callback of libbpf. Module parameters and licence lines; code that is commented out. Text that
  several programs have in common (the file operations of the two drivers, the functions of the
  batched copiers, the request functions of the servers with one buffer, \<open>display_event\<close>) is modelled
  once. The two threads of io_uring/socket_uring_client.c are modelled one by one, as
  they share nothing but the socket; the server is what connects them. Huge pages and five-level
  tables are outside \<open>translate\<close>: the code does not handle the first and has no statement for the
  second. Failing \<open>class_create\<close> and \<open>device_create\<close> calls, signals that interrupt a message-queue call,
  and the cutting of a proc-file read inside a record are left out as well.
\<close>

section \<open>One contract for six copiers\<close>

text \<open>
  What all the file copiers of the repository are for: the run on a file of fewer than \<open>limit\<close>
  bytes ends with status 0 and an equal destination.
\<close>

locale file_copier =
  fixes run :: "byte list \<Rightarrow> (int \<times> byte list) option"
    and limit :: nat
  assumes copies: "length src < limit \<Longrightarrow> run src = Some (0, src)"
begin

text \<open>Copying the copy gives the same file again, any number of times.\<close>

lemma recopy:
  "length src < limit \<Longrightarrow>
    ((\<lambda>r. Option.bind r (\<lambda>(status, d). run d)) ^^ n) (run src) = Some (0, src)"
  by (induction n) (simp_all add: copies)

end

text \<open>Status and destination of a program that ends, with the destination file of a ring.\<close>

fun ring_outcome :: "('u fifo, 'a) flow option \<Rightarrow> (int \<times> byte list) option" where
  "ring_outcome (Some (Return status r)) = Some (status, fifo_dst r)"
| "ring_outcome _ = None"

definition run_pipelined :: "byte list \<Rightarrow> (int \<times> byte list) option" where
  "run_pipelined src =
     ring_outcome (main2 malloc_ok (fifo_api src DEPTH) 3 4 5 0 (Regular (length src)) 0 fifo_empty)"

definition run_single :: "byte list \<Rightarrow> (int \<times> byte list) option" where
  "run_single src =
     ring_outcome (single_main malloc_ok (fifo_api src BATCH) 3 4 5 0 (Regular (length src)) fifo_empty)"

definition run_multi :: "byte list \<Rightarrow> (int \<times> byte list) option" where
  "run_multi src =
     ring_outcome (multi_main malloc_ok (fifo_api src BATCH) 3 4 5 0 (Regular (length src)) fifo_empty)"

definition run_uring :: "byte list \<Rightarrow> (int \<times> byte list) option" where
  "run_uring src = Option.bind (uring_main malloc_ok write_ok (fifo_api src URING_DEPTH) 3 4 5 0
     (Regular (length src)) fifo_empty) id"

definition run_stdio :: "nat \<Rightarrow> byte list \<Rightarrow> (int \<times> byte list) option" where
  "run_stdio cap src = Some (normal_main cap 3 (Some (reading src)) (Some (truncated (length src))))"

definition run_sendfile :: "byte list \<Rightarrow> (int \<times> byte list) option" where
  "run_sendfile src = Some (sendfile_main 4 5 (fstat_of src) 0 (sendfile_of src SENDFILE_MAX))"

interpretation pipelined_copier: file_copier run_pipelined n
proof
  fix src :: "byte list"
  show "run_pipelined src = Some (0, src)"
    using pipelined_full.copy_file_ok [OF fifo_pipe.pipelined_full_axioms [of src], of fifo_empty]
    by (auto simp: run_pipelined_def main2_def fifo_empty_def)
qed

interpretation single_copier: file_copier run_single n
proof
  fix src :: "byte list"
  show "run_single src = Some (0, src)"
    using batched.batch_main_ok [OF fifo_single.batched_axioms [of src], of fifo_empty 4 5 0]
    by (auto simp: run_single_def single_main_def fifo_empty_def)
qed

interpretation multi_copier: file_copier run_multi n
proof
  fix src :: "byte list"
  show "run_multi src = Some (0, src)"
    using batched.batch_main_ok [OF fifo_multi.batched_axioms [of src], of fifo_empty 4 5 0]
    by (auto simp: run_multi_def multi_main_def fifo_empty_def)
qed

interpretation uring_copier: file_copier run_uring "4096 * 1024"
proof
  fix src :: "byte list"
  assume "length src < 4096 * 1024"
  then have "block_count (length src) \<le> URING_DEPTH" by (rule block_count_fits)
  then show "run_uring src = Some (0, src)" by (simp add: run_uring_def uring_main_fifo)
qed

interpretation stdio_copier: file_copier "run_stdio cap" n
proof
  fix src :: "byte list"
  show "run_stdio cap src = Some (0, src)"
    using normal_main_roomy [of src "length src" cap False] by (simp add: run_stdio_def reading_def)
qed

interpretation sendfile_copier: file_copier run_sendfile SENDFILE_MAX
proof
  fix src :: "byte list"
  assume "length src < SENDFILE_MAX"
  then show "run_sendfile src = Some (0, src)"
    by (simp add: run_sendfile_def sendfile_main_def sendfile_of_def fstat_of_def file_part_def Let_def)
qed

section \<open>Properties across components\<close>

text \<open>Further: on a ring that completes requests in order and in full, and with room on the
  device, the six copiers are interchangeable for every file below 4 MiB: each ends with
  status 0 and an equal file, also when the copy is copied again any number of times.\<close>

theorem copiers_agree:
  assumes "length src < 4096 * 1024"
    and "run \<in> {run_pipelined, run_single, run_multi, run_uring, run_stdio cap, run_sendfile}"
  shows "((\<lambda>r. Option.bind r (\<lambda>(status, d). run d)) ^^ n) (run src) = Some (0, src)"
proof -
  have "length src < SENDFILE_MAX" using assms(1) by (simp add: SENDFILE_MAX_def)
  note r = sendfile_copier.recopy [OF this] uring_copier.recopy [OF assms(1)]
    pipelined_copier.recopy [OF lessI] single_copier.recopy [OF lessI] multi_copier.recopy [OF lessI]
    stdio_copier.recopy [OF lessI]
  show ?thesis using assms(2) by (elim insertE emptyE) (simp_all only: r)
qed

theorem copiers_agree_witness: "run_single [1, 2, 3] = run_sendfile [1, 2, 3]"
  using copiers_agree [of "[1, 2, 3]" run_single 1 0] copiers_agree [of "[1, 2, 3]" run_sendfile 1 0]
  by simp

text \<open>Claim C35: the XDP program against the servers. Whichever server set-up succeeded, the port its
  socket is bound to is the one the XDP program filters: on an interface with \<open>xdp_pass\<close> attached
  every IPv4 TCP segment for that port is dropped without an event, and a segment for another port
  passes. The servers cannot be reached through an interface that is watched by eBPF/xdp.c.\<close>

theorem xdp_blocks_servers:
  assumes "sockets api opts bound backlog"
    and "echo_setup api s = (Listening fd, s') \<or> render_setup api s = (Listening fd, s')"
    and "probe_reads pkt probe_read" and "ether_type pkt = 0x800" and "tcp_segment pkt"
  shows "\<exists>port. bound s' fd = Some (0, port) \<and>
    (if dport_of pkt = unat (bswap16 port) then xdp_pass reserve probe_read pkt = Some (XDP_DROP, None)
     else \<exists>ev. xdp_pass reserve probe_read pkt = Some (XDP_PASS, ev))"
proof -
  have "bound s' fd = Some (0, bswap16 SERV_PORT)"
    using assms(2) sockets.echo_setup_ok [OF assms(1)] sockets.render_setup_ok [OF assms(1)] by blast
  moreover have "unat (bswap16 (bswap16 SERV_PORT)) = 8888" by code_simp
  ultimately show ?thesis
    using xdp_pass_refines [OF assms(3), of reserve] assms(4,5)
    by (auto simp: xdp_spec_def tcp_segment_def)
qed

theorem xdp_blocks_servers_witness:
  "n_bound (snd (echo_setup net_api net_idle)) 3 = Some (0, 0xb822) \<and>
   xdp_pass True (packet_read demo_packet) demo_packet = Some (XDP_DROP, None)"
proof -
  obtain s' where s': "echo_setup net_api net_idle = (Listening 3, s')"
    using net_idle_listens by (cases "echo_setup net_api net_idle") auto
  have p: "bswap16 SERV_PORT = 0xb822" "unat (bswap16 0xb822) = 8888"
    "ether_type demo_packet = 0x800" "tcp_segment demo_packet" "dport_of demo_packet = 8888"
    by code_simp+
  have "n_bound s' 3 = Some (0, 0xb822)" using net.echo_setup_ok [OF s'] p(1) by simp
  moreover obtain port where "n_bound s' 3 = Some (0, port)"
    "if dport_of demo_packet = unat (bswap16 port)
     then xdp_pass True (packet_read demo_packet) demo_packet = Some (XDP_DROP, None)
     else \<exists>ev. xdp_pass True (packet_read demo_packet) demo_packet = Some (XDP_PASS, ev)"
    using xdp_blocks_servers [OF net_sockets disjI1 [OF s'] probe_reads_packet_read p(3,4)] by blast
  ultimately show ?thesis using p s' by simp
qed

end
